(* ===== verification/GoPrelude.thy ===== *)
theory GoPrelude
  imports Complex_Main "HOL-Library.Word" "HOL-Library.Multiset" "HOL-Library.Product_Lexorder"
begin

text \<open>
  The part of the Go language and of its standard library that the proxy relies on, and
  the generic lemmas the component theories share: signed 64-bit integers with their
  wrap-around, the saturating difference of two \<^verbatim>\<open>time.Time\<close> values, and list lemmas.
  Strings are in \<open>GoStrings\<close>, \<^verbatim>\<open>float64\<close> is in \<open>GoFloat\<close>.
\<close>

named_theorems go_arith \<open>facts that discharge 64-bit range and wrap-around conditions\<close>

section \<open>Signed 64-bit integers, instants and durations\<close>

text \<open>
  An \<^verbatim>\<open>int64\<close> is an \<open>int\<close> in the range \<open>in64\<close>; every addition or
  multiplication that the code makes on it goes through \<open>s64\<close>, two's complement
  wrap-around. An instant (\<^verbatim>\<open>time.Time\<close>) is its distance in nanoseconds from the Unix epoch
  and has a wider range than 64 bits in Go, so it is an unbounded \<open>int\<close>.
\<close>

type_synonym time = int
type_synonym duration = int

definition in64 :: "int \<Rightarrow> bool" where
  "in64 x \<longleftrightarrow> - (2 ^ 63) \<le> x \<and> x < 2 ^ 63"

definition s64 :: "int \<Rightarrow> int" where
  "s64 x = (x + 2 ^ 63) mod 2 ^ 64 - 2 ^ 63"

abbreviation max_int64 :: int where
  "max_int64 \<equiv> 2 ^ 63 - 1"

abbreviation second :: duration where
  "second \<equiv> 1000000000"

lemma s64_id [go_arith]: "in64 x \<Longrightarrow> s64 x = x"
  by (simp add: in64_def s64_def)

lemma in64_s64 [go_arith, simp]: "in64 (s64 x)"
proof -
  have "0 \<le> (x + 2 ^ 63) mod 2 ^ 64" and "(x + 2 ^ 63) mod 2 ^ 64 < (2 ^ 64 :: int)"
    by simp_all
  then show ?thesis by (simp add: s64_def in64_def)
qed

lemma in64I [go_arith]: "- (2 ^ 63) \<le> x \<Longrightarrow> x < 2 ^ 63 \<Longrightarrow> in64 x"
  by (simp add: in64_def)

text \<open>
  \<^verbatim>\<open>t.Sub(u)\<close> saturates at the smallest and the largest duration; \<^verbatim>\<open>t.Add(d)\<close> is exact
  in the range of \<^verbatim>\<open>time.Time\<close>.
\<close>

definition sat64 :: "int \<Rightarrow> int" where
  "sat64 x = max (- (2 ^ 63)) (min (2 ^ 63 - 1) x)"

definition time_sub :: "time \<Rightarrow> time \<Rightarrow> duration" where
  "time_sub t u = sat64 (t - u)"

lemma in64_sat64 [simp, go_arith]: "in64 (sat64 x)"
  by (simp add: sat64_def in64_def)

lemma sat64_mono: "x \<le> y \<Longrightarrow> sat64 x \<le> sat64 y"
  by (auto simp: sat64_def)

lemma time_sub_mono: "t \<le> t' \<Longrightarrow> time_sub t u \<le> time_sub t' u"
  by (simp add: time_sub_def sat64_mono)

lemma time_sub_ge_iff:
  "in64 d \<Longrightarrow> d \<le> time_sub t u \<longleftrightarrow> d \<le> t - u \<or> d = - (2 ^ 63)"
  by (auto simp: time_sub_def sat64_def in64_def)

lemma time_sub_less_iff:
  "in64 d \<Longrightarrow> 0 \<le> d \<Longrightarrow> time_sub t u < d \<longleftrightarrow> t - u < d"
  by (auto simp: time_sub_def sat64_def in64_def)

section \<open>Lists\<close>

text \<open>The position of the first occurrence of an element, as the linear scans of the code find it.\<close>

fun index_of :: "'a \<Rightarrow> 'a list \<Rightarrow> nat option" where
  "index_of x [] = None"
| "index_of x (y # ys) = (if y = x then Some 0 else map_option Suc (index_of x ys))"

lemma index_of_None_iff [simp]: "index_of x ys = None \<longleftrightarrow> x \<notin> set ys"
  by (induction ys) auto

lemma index_of_SomeD: "index_of x ys = Some i \<Longrightarrow> i < length ys \<and> ys ! i = x"
  by (induction ys arbitrary: i) (auto split: if_splits)

lemma index_of_nth: "distinct ys \<Longrightarrow> i < length ys \<Longrightarrow> index_of (ys ! i) ys = Some i"
proof (induction ys arbitrary: i)
  case (Cons y ys)
  then show ?case by (cases i) auto
qed simp

lemma length1_conv: "length xs = Suc 0 \<longleftrightarrow> (\<exists>x. xs = [x])"
  by (auto simp: length_Suc_conv)

end
