(* ===== verification/GoFloat.thy ===== *)
theory GoFloat
  imports GoPrelude
begin

text \<open>
  Go's \<^verbatim>\<open>float64\<close>: a finite value is the rational number it denotes, and every operation
  rounds its exact result to the nearest value with 53 significant bits, ties to even, with
  gradual underflow at \<open>2 ^ (-1074)\<close>, as IEEE 754 binary64 prescribes. Overflow to an
  infinity is not represented: the quantities the proxy computes with (counts, seconds,
  probabilities, nanoseconds) stay far below \<open>2 ^ 1024\<close>; a division by zero, which gives a NaN
  or an infinity, is written out where the code can reach it. Each operation rounds on its own
  (no fused multiply-add), as the compiler does for the baseline amd64 target.

  The locale \<open>rounding\<close> states the laws the components rely on; it is interpreted on
  \<open>rnd\<close> as \<open>fl\<close>.
\<close>

type_synonym float64 = rat

section \<open>Powers of two and the binary exponent\<close>

definition pow2 :: "int \<Rightarrow> rat" where
  "pow2 e = (if 0 \<le> e then 2 ^ nat e else 1 / 2 ^ nat (- e))"

function bit_len :: "int \<Rightarrow> nat" where
  "bit_len n = (if n \<le> 0 then 0 else Suc (bit_len (n div 2)))"
  by pat_completeness auto
termination
  by (relation "measure nat") auto

declare bit_len.simps [simp del]

text \<open>The exponent \<open>e\<close> with \<open>2 ^ e \<le> x < 2 ^ (e + 1)\<close>, for positive \<open>x\<close>.\<close>

definition exponent :: "rat \<Rightarrow> int" where
  "exponent x =
     (let (a, b) = quotient_of x;
          e = int (bit_len a) - int (bit_len b)
      in if pow2 e \<le> x then e else e - 1)"

lemma pow2_0 [simp]: "pow2 0 = 1"
  by (simp add: pow2_def)

lemma pow2_powi: "pow2 e = 2 powi e"
  by (simp add: pow2_def power_int_def field_simps)

lemma pow2_pos [simp]: "0 < pow2 e" "0 \<le> pow2 e" "pow2 e \<noteq> 0"
  by (simp_all add: pow2_powi)

lemma pow2_add: "pow2 (a + b) = pow2 a * pow2 b"
  by (simp add: pow2_powi power_int_add)

lemma pow2_diff: "pow2 (a - b) = pow2 a / pow2 b"
  by (simp add: pow2_powi power_int_diff)

lemma pow2_nat: "pow2 (int n) = 2 ^ n"
  by (simp add: pow2_def)

lemma pow2_mono: "a \<le> b \<Longrightarrow> pow2 a \<le> pow2 b"
  by (simp add: pow2_powi power_int_increasing)

lemma pow2_strict_mono: "a < b \<Longrightarrow> pow2 a < pow2 b"
  by (simp add: pow2_powi power_int_strict_increasing)

lemma pow2_less_iff [simp]: "pow2 a < pow2 b \<longleftrightarrow> a < b"
  using pow2_mono [of b a] pow2_strict_mono [of a b] by linarith

lemma pow2_le_iff [simp]: "pow2 a \<le> pow2 b \<longleftrightarrow> a \<le> b"
  using pow2_less_iff [of b a] by linarith

lemma pow2_eq_iff [simp]: "pow2 a = pow2 b \<longleftrightarrow> a = b"
  by (metis order_less_irrefl pow2_less_iff linorder_neqE)

lemma pow2_Ints: "0 \<le> e \<Longrightarrow> pow2 e \<in> \<int>"
  by (simp add: pow2_def)

lemma bit_len_bounds: "0 < n \<Longrightarrow> 2 ^ (bit_len n - 1) \<le> n \<and> n < 2 ^ bit_len n"
proof (induction n rule: bit_len.induct)
  case (1 n)
  have bl: "bit_len n = Suc (bit_len (n div 2))"
    using "1.prems" by (subst bit_len.simps) simp
  show ?case
  proof (cases "n div 2 = 0")
    case True
    then have "n = 1" using "1.prems" by presburger
    then show ?thesis using bl True by (simp add: bit_len.simps)
  next
    case False
    let ?m = "n div 2"
    from False "1.prems" have m: "0 < ?m" by presburger
    with "1" have IH: "2 ^ (bit_len ?m - 1) \<le> ?m" "?m < 2 ^ bit_len ?m" by simp_all
    from m have "bit_len ?m \<noteq> 0" by (subst bit_len.simps) simp
    then have "2 ^ bit_len ?m = 2 * (2 :: int) ^ (bit_len ?m - 1)" by (cases "bit_len ?m") simp_all
    with IH(1) have "2 ^ bit_len ?m \<le> 2 * ?m" by simp
    moreover have "2 * ?m \<le> n" and "n < 2 * ?m + 2" by presburger+
    ultimately show ?thesis using bl IH(2) by simp
  qed
qed

lemma exponent_bounds:
  assumes "0 < x"
  shows "pow2 (exponent x) \<le> x \<and> x < pow2 (exponent x + 1)"
proof -
  obtain a b where q: "quotient_of x = (a, b)" by fastforce
  have b: "0 < b" using q by (rule quotient_of_denom_pos)
  have x: "x = of_int a / of_int b" using q by (rule quotient_of_div)
  have a: "0 < a" using assms x b by (simp add: zero_less_divide_iff)
  let ?A = "bit_len a" and ?B = "bit_len b"
  have A: "pow2 (int ?A - 1) \<le> of_int a" "of_int a < pow2 (int ?A)"
    and B: "pow2 (int ?B - 1) \<le> of_int b" "of_int b < pow2 (int ?B)"
  proof -
    have *: "pow2 (int (bit_len k) - 1) \<le> of_int k \<and> of_int k < pow2 (int (bit_len k))"
      if "0 < k" for k :: int
    proof -
      from that have pos: "0 < bit_len k" by (subst bit_len.simps) simp
      then have e: "int (bit_len k) - 1 = int (bit_len k - 1)" by simp
      have "of_int (2 ^ (bit_len k - 1)) \<le> (of_int k :: rat)"
        and "(of_int k :: rat) < of_int (2 ^ bit_len k)"
        using bit_len_bounds [OF that] by (auto simp only: of_int_le_iff of_int_less_iff)
      then show ?thesis unfolding e by (simp add: pow2_nat)
    qed
    show "pow2 (int ?A - 1) \<le> of_int a" "of_int a < pow2 (int ?A)"
      "pow2 (int ?B - 1) \<le> of_int b" "of_int b < pow2 (int ?B)"
      using * [OF a] * [OF b] by auto
  qed
  let ?e = "int ?A - int ?B"
  have upper: "x < pow2 (?e + 1)"
  proof -
    have "of_int a < pow2 (int ?A)" by (rule A(2))
    also have "\<dots> = pow2 (?e + 1) * pow2 (int ?B - 1)" by (simp flip: pow2_add)
    also have "\<dots> \<le> pow2 (?e + 1) * of_int b" using B(1) by (intro mult_left_mono) simp_all
    finally show ?thesis using b by (simp add: x divide_less_eq)
  qed
  have lower: "pow2 (?e - 1) \<le> x"
  proof -
    have "pow2 (?e - 1) * of_int b \<le> pow2 (?e - 1) * pow2 (int ?B)"
      using B(2) by (intro mult_left_mono) simp_all
    also have "\<dots> = pow2 (int ?A - 1)" by (simp flip: pow2_add)
    also have "\<dots> \<le> of_int a" by (rule A(1))
    finally show ?thesis using b by (simp add: x le_divide_eq)
  qed
  show ?thesis
    using upper lower by (auto simp: exponent_def q Let_def)
qed

lemma exponent_unique:
  assumes "pow2 e \<le> x" and "x < pow2 (e + 1)"
  shows "exponent x = e"
proof -
  have "0 < x" using assms(1) pow2_pos(1) [of e] by linarith
  then have b: "pow2 (exponent x) \<le> x" "x < pow2 (exponent x + 1)"
    by (simp_all add: exponent_bounds)
  have "pow2 (exponent x) < pow2 (e + 1)" using b(1) assms(2) by linarith
  moreover have "pow2 e < pow2 (exponent x + 1)" using b(2) assms(1) by linarith
  ultimately show ?thesis by simp
qed

lemma exponent_mono: "0 < x \<Longrightarrow> x \<le> y \<Longrightarrow> exponent x \<le> exponent y"
proof -
  assume "0 < x" "x \<le> y"
  then have "pow2 (exponent x) < pow2 (exponent y + 1)"
    using exponent_bounds [of x] exponent_bounds [of y] by linarith
  then show ?thesis by simp
qed

section \<open>Rounding to nearest, ties to even\<close>

definition round_even :: "rat \<Rightarrow> int" where
  "round_even q =
     (let f = \<lfloor>q\<rfloor>; d = q - of_int f
      in if d < 1 / 2 then f else if 1 / 2 < d then f + 1 else if even f then f else f + 1)"

definition ulp :: "rat \<Rightarrow> rat" where
  "ulp x = pow2 (max (exponent \<bar>x\<bar> - 52) (- 1074))"

definition rnd :: "rat \<Rightarrow> float64" where
  "rnd x = (if x = 0 then 0 else of_int (round_even (x / ulp x)) * ulp x)"

abbreviation fadd :: "float64 \<Rightarrow> float64 \<Rightarrow> float64" where
  "fadd x y \<equiv> rnd (x + y)"

abbreviation fsub :: "float64 \<Rightarrow> float64 \<Rightarrow> float64" where
  "fsub x y \<equiv> rnd (x - y)"

abbreviation fmul :: "float64 \<Rightarrow> float64 \<Rightarrow> float64" where
  "fmul x y \<equiv> rnd (x * y)"

abbreviation fdiv :: "float64 \<Rightarrow> float64 \<Rightarrow> float64" where
  "fdiv x y \<equiv> rnd (x / y)"

text \<open>The conversion \<^verbatim>\<open>float64(n)\<close> of an integer.\<close>

abbreviation of_integer :: "int \<Rightarrow> float64" where
  "of_integer n \<equiv> rnd (of_int n)"

lemma round_even_of_int [simp]: "round_even (of_int k) = k"
  by (simp add: round_even_def)

lemma round_even_error: "\<bar>of_int (round_even q) - q\<bar> \<le> 1 / 2"
proof -
  have "of_int \<lfloor>q\<rfloor> \<le> q" and "q < of_int \<lfloor>q\<rfloor> + 1"
    using floor_correct [of q] by simp_all
  then show ?thesis by (auto simp: round_even_def Let_def)
qed

lemma round_even_mono: "p \<le> q \<Longrightarrow> round_even p \<le> round_even q"
proof (cases "\<lfloor>p\<rfloor> = \<lfloor>q\<rfloor>")
  case True
  assume "p \<le> q"
  with True show ?thesis by (auto simp: round_even_def Let_def)
next
  case False
  assume "p \<le> q"
  then have "\<lfloor>p\<rfloor> + 1 \<le> \<lfloor>q\<rfloor>" using False floor_mono [of p q] by linarith
  moreover have "round_even p \<le> \<lfloor>p\<rfloor> + 1" and "\<lfloor>q\<rfloor> \<le> round_even q"
    by (simp_all add: round_even_def Let_def)
  ultimately show ?thesis by linarith
qed

lemma round_even_minus: "round_even (- q) = - round_even q"
proof (cases "q \<in> \<int>")
  case True
  then obtain k where "q = of_int k" by (auto elim: Ints_cases)
  then show ?thesis using round_even_of_int [of "- k"] by simp
next
  case False
  have f: "\<lfloor>- q\<rfloor> = - \<lfloor>q\<rfloor> - 1"
  proof (rule floor_unique)
    have "of_int \<lfloor>q\<rfloor> \<noteq> q" using False by (metis Ints_of_int)
    then have "of_int \<lfloor>q\<rfloor> < q" using of_int_floor_le [of q] by linarith
    then show "- q < of_int (- \<lfloor>q\<rfloor> - 1) + 1" by simp
    show "of_int (- \<lfloor>q\<rfloor> - 1) \<le> - q" using floor_correct [of q] by simp
  qed
  show ?thesis unfolding round_even_def Let_def f
    by (auto simp: field_simps)
qed

lemma ulp_pos [simp]: "0 < ulp x" "0 \<le> ulp x" "ulp x \<noteq> 0"
  by (simp_all add: ulp_def)

lemma ulp_minus [simp]: "ulp (- x) = ulp x"
  by (simp add: ulp_def)

lemma rnd_0 [simp]: "rnd 0 = 0"
  by (simp add: rnd_def)

lemma rnd_minus: "rnd (- x) = - rnd x"
  by (simp add: rnd_def round_even_minus)

lemma rnd_error: "\<bar>rnd x - x\<bar> \<le> ulp x / 2"
proof (cases "x = 0")
  case False
  have "rnd x - x = (of_int (round_even (x / ulp x)) - x / ulp x) * ulp x"
    using False by (simp add: rnd_def field_simps)
  then have "\<bar>rnd x - x\<bar> = \<bar>of_int (round_even (x / ulp x)) - x / ulp x\<bar> * ulp x"
    by (simp add: abs_mult)
  also have "\<dots> \<le> 1 / 2 * ulp x"
    by (rule mult_right_mono [OF round_even_error]) simp
  finally show ?thesis by simp
qed simp

text \<open>Values with at most 53 significant bits and an exponent in range are not changed.\<close>

lemma rnd_representable:
  assumes x: "x = of_int m * pow2 e" and m: "\<bar>m\<bar> < 2 ^ 53" and e: "- 1074 \<le> e"
  shows "rnd x = x"
proof (cases "m = 0")
  case False
  let ?k = "max (exponent \<bar>x\<bar> - 52) (- 1074)"
  have xpos: "0 < \<bar>x\<bar>" using False by (simp add: x)
  have "\<bar>x\<bar> = of_int \<bar>m\<bar> * pow2 e" by (simp add: x abs_mult)
  also have "\<dots> < 2 ^ 53 * pow2 e"
  proof -
    have "(of_int \<bar>m\<bar> :: rat) < of_int (2 ^ 53)" using m by (simp only: of_int_less_iff)
    then show ?thesis by (intro mult_strict_right_mono) simp_all
  qed
  also have "\<dots> = pow2 (e + 53)" using pow2_nat [of 53] by (simp add: pow2_add)
  finally have "pow2 (exponent \<bar>x\<bar>) < pow2 (e + 53)"
    using exponent_bounds [OF xpos] by linarith
  then have k: "?k \<le> e" using e by simp
  have "x / ulp x = of_int m * pow2 (e - ?k)" by (simp add: ulp_def x pow2_diff)
  also have "\<dots> = of_int (m * 2 ^ nat (e - ?k))" using k by (simp add: pow2_def)
  finally have "of_int (round_even (x / ulp x)) = x / ulp x" by (metis round_even_of_int)
  then show ?thesis by (simp add: rnd_def)
qed (simp add: x)

lemma rnd_representable53:
  assumes x: "x = of_int m * pow2 e" and m: "\<bar>m\<bar> \<le> 2 ^ 53" and e: "- 1074 \<le> e"
  shows "rnd x = x"
proof (cases "\<bar>m\<bar> = 2 ^ 53")
  case True
  then have "m = 2 ^ 53 \<or> m = - (2 ^ 53)" by linarith
  then have "m = 2 * (m div 2)" and "\<bar>m div 2\<bar> < 2 ^ 53" by auto
  moreover have "pow2 1 = 2" by (simp add: pow2_def)
  moreover have "(of_int m :: rat) = of_int (2 * (m div 2))" using calculation(1) by (rule arg_cong)
  ultimately have "x = of_int (m div 2) * pow2 (e + 1)" by (simp add: x pow2_add)
  then show ?thesis by (rule rnd_representable) (use \<open>\<bar>m div 2\<bar> < 2 ^ 53\<close> e in simp_all)
next
  case False
  with m show ?thesis by (intro rnd_representable [OF x _ e]) simp
qed

lemma rnd_of_int: "\<bar>n\<bar> < 2 ^ 53 \<Longrightarrow> rnd (of_int n) = of_int n"
  by (rule rnd_representable [where m = n and e = 0]) simp_all

lemma rnd_mono_pos:
  assumes "0 < x" and "x \<le> y"
  shows "rnd x \<le> rnd y"
proof (cases "ulp x = ulp y")
  case True
  have "round_even (x / ulp y) \<le> round_even (y / ulp y)"
    using assms by (intro round_even_mono divide_right_mono) simp_all
  then have "of_int (round_even (x / ulp y)) * ulp y \<le> (of_int (round_even (y / ulp y)) * ulp y :: rat)"
    by (intro mult_right_mono) simp_all
  then show ?thesis using assms True by (simp add: rnd_def)
next
  case False
  let ?i = "exponent x" and ?j = "exponent y"
  have y: "0 < y" using assms by simp
  have ij: "?i \<le> ?j" using assms by (rule exponent_mono)
  with False assms y have lt: "max (?i - 52) (- 1074) < ?j - 52" and uy: "ulp y = pow2 (?j - 52)"
    by (auto simp: ulp_def max_def split: if_splits)
  let ?k = "max (?i - 52) (- 1074)"
  have ux: "ulp x = pow2 ?k" using assms by (simp add: ulp_def)
  have "?i < ?j" using lt by simp
  then have "x < pow2 ?j"
    using exponent_bounds [OF assms(1)] pow2_mono [of "?i + 1" ?j] by linarith
  then have "x / ulp x \<le> pow2 (?j - ?k)" by (simp add: ux pow2_diff divide_right_mono)
  also have "\<dots> = of_int (2 ^ nat (?j - ?k))" using lt by (simp add: pow2_def)
  finally have "round_even (x / ulp x) \<le> 2 ^ nat (?j - ?k)"
    using round_even_mono round_even_of_int by metis
  then have "(of_int (round_even (x / ulp x)) :: rat) \<le> of_int (2 ^ nat (?j - ?k))"
    by (simp only: of_int_le_iff)
  also have "\<dots> = pow2 (?j - ?k)" using lt by (simp add: pow2_def)
  finally have "of_int (round_even (x / ulp x)) * ulp x \<le> pow2 (?j - ?k) * ulp x"
    by (intro mult_right_mono) simp_all
  then have le: "rnd x \<le> pow2 ?j" using assms by (simp add: rnd_def ux pow2_diff)
  have "of_int (2 ^ 52) \<le> y / ulp y"
    using exponent_bounds [OF y] pow2_nat [of 52] by (simp add: uy pow2_diff field_simps)
  then have "2 ^ 52 \<le> round_even (y / ulp y)"
    using round_even_mono round_even_of_int by metis
  then have "(of_int (2 ^ 52) :: rat) \<le> of_int (round_even (y / ulp y))"
    by (simp only: of_int_le_iff)
  then have "of_int (2 ^ 52) * ulp y \<le> of_int (round_even (y / ulp y)) * ulp y"
    by (intro mult_right_mono) simp_all
  moreover have "of_int (2 ^ 52) * ulp y = pow2 ?j"
    using pow2_nat [of 52] by (simp add: uy pow2_diff)
  moreover have "rnd y = of_int (round_even (y / ulp y)) * ulp y" using y by (simp add: rnd_def)
  ultimately have "pow2 ?j \<le> rnd y" by linarith
  with le show ?thesis by linarith
qed

lemma rnd_nonneg: "0 \<le> x \<Longrightarrow> 0 \<le> rnd x"
proof (cases "x = 0")
  case False
  assume "0 \<le> x"
  then have "of_int 0 \<le> x / ulp x" by simp
  then have "0 \<le> round_even (x / ulp x)" using round_even_mono round_even_of_int by metis
  then show ?thesis using False by (simp add: rnd_def)
qed simp

lemma rnd_mono:
  assumes "x \<le> y"
  shows "rnd x \<le> rnd y"
proof -
  consider "0 < x" | "x \<le> 0" "0 \<le> y" | "y < 0" by linarith
  then show ?thesis
  proof cases
    case 1
    then show ?thesis using assms by (rule rnd_mono_pos)
  next
    case 2
    then show ?thesis using rnd_nonneg [of y] rnd_nonneg [of "- x"] by (simp add: rnd_minus)
  next
    case 3
    then show ?thesis using rnd_mono_pos [of "- y" "- x"] assms by (simp add: rnd_minus)
  qed
qed

lemma rnd_idem: "rnd (rnd x) = rnd x"
proof (cases "x = 0")
  case False
  let ?k = "max (exponent \<bar>x\<bar> - 52) (- 1074)"
  have "\<bar>x\<bar> < pow2 (exponent \<bar>x\<bar> + 1)" using False exponent_bounds [of "\<bar>x\<bar>"] by simp
  also have "\<dots> \<le> pow2 (?k + 53)" by simp
  also have "\<dots> = 2 ^ 53 * ulp x" using pow2_nat [of 53] by (simp add: pow2_add ulp_def)
  finally have "\<bar>x / ulp x\<bar> \<le> of_int (2 ^ 53)" by (simp add: divide_le_eq)
  then have "x / ulp x \<le> of_int (2 ^ 53)" and "of_int (- (2 ^ 53)) \<le> x / ulp x"
    unfolding abs_le_iff by linarith+
  then have "round_even (x / ulp x) \<le> 2 ^ 53" and "- (2 ^ 53) \<le> round_even (x / ulp x)"
    using round_even_mono round_even_of_int by metis+
  then have "\<bar>round_even (x / ulp x)\<bar> \<le> 2 ^ 53" by simp
  then show ?thesis
    using False by (intro rnd_representable53 [where e = ?k]) (simp_all add: rnd_def ulp_def)
qed simp

lemma rnd_1 [simp]: "rnd 1 = 1"
  using rnd_of_int [of 1] by simp

lemma rnd_half_ulp:
  assumes "0 \<le> x" and "x \<le> 1"
  shows "\<bar>rnd x - x\<bar> \<le> pow2 (- 54)"
proof -
  consider "x = 0" | "x = 1" | "0 < x" "x < 1" using assms by fastforce
  then show ?thesis
  proof cases
    case 3
    have "pow2 (exponent x) < pow2 0" using exponent_bounds [OF 3(1)] 3(2) by simp
    then have "exponent x < 0" by (simp only: pow2_less_iff)
    then have "ulp x \<le> pow2 (- 53)" using 3 by (simp add: ulp_def)
    moreover have "pow2 (- 53) / 2 = pow2 (- 54)" by (simp add: pow2_def)
    ultimately show ?thesis using rnd_error [of x] by linarith
  qed simp_all
qed

lemma rnd_absorb: "rnd (1 + pow2 (- 53)) = 1"
  by code_simp

section \<open>The rounding interface\<close>

text \<open>
  What the exponentially weighted averages and the token bucket need of floating point:
  rounding is monotone, keeps 0, 1 and its own results, is off by at most \<open>2 ^ (-54)\<close> on the
  unit interval, and a sum within \<open>2 ^ (-53)\<close> above 1 comes back as 1.
\<close>

locale rounding =
  fixes rd :: "rat \<Rightarrow> rat"
  assumes mono: "x \<le> y \<Longrightarrow> rd x \<le> rd y"
    and zero: "rd 0 = 0"
    and one: "rd 1 = 1"
    and idem: "rd (rd x) = rd x"
    and near: "0 \<le> x \<Longrightarrow> x \<le> 1 \<Longrightarrow> \<bar>rd x - x\<bar> \<le> pow2 (- 54)"
    and absorb: "rd (1 + pow2 (- 53)) = 1"
begin

lemma nonneg: "0 \<le> x \<Longrightarrow> 0 \<le> rd x"
  using mono [of 0 x] by (simp add: zero)

lemma le_one: "x \<le> 1 \<Longrightarrow> rd x \<le> 1"
  using mono [of x 1] by (simp add: one)

lemma unit: "0 \<le> x \<Longrightarrow> x \<le> 1 \<Longrightarrow> 0 \<le> rd x \<and> rd x \<le> 1"
  by (simp add: nonneg le_one)

lemma complement:
  assumes "0 \<le> a" and "a \<le> 1"
  shows "0 \<le> rd (1 - a)" and "rd (1 - a) \<le> 1 - a + pow2 (- 54)"
  using near [of "1 - a"] assms by (simp_all add: nonneg abs_le_iff)

text \<open>
  The weighted mean \<open>a * s + (1 - a) * m\<close>, each operation rounded, of two values of the
  unit interval is again in the unit interval.
\<close>

lemma blend_unit:
  assumes a: "0 \<le> a" "a \<le> 1" "rd a = a" and s: "0 \<le> s" "s \<le> 1" and m: "0 \<le> m" "m \<le> 1"
  shows "0 \<le> rd (rd (a * s) + rd (rd (1 - a) * m))"
    and "rd (rd (a * s) + rd (rd (1 - a) * m)) \<le> 1"
proof -
  let ?b = "rd (1 - a)"
  have b: "0 \<le> ?b" "?b \<le> 1 - a + pow2 (- 54)" using a by (simp_all add: complement)
  have l: "rd (a * s) \<le> a"
    using mono [of "a * s" a] mult_left_le [of s a] a s by simp
  have r: "rd (?b * m) \<le> ?b"
    using mono [of "?b * m" ?b] mult_left_le [of m ?b] b(1) m by (simp add: idem)
  show "0 \<le> rd (rd (a * s) + rd (?b * m))"
    using a s b(1) m by (intro nonneg add_nonneg_nonneg mult_nonneg_nonneg) simp_all
  have "rd (a * s) + rd (?b * m) \<le> 1 + pow2 (- 53)"
    using l r b(2) pow2_strict_mono [of "-54" "-53"] by linarith
  then show "rd (rd (a * s) + rd (?b * m)) \<le> 1"
    using mono absorb by metis
qed

end

interpretation fl: rounding rnd
  by unfold_locales
    (simp_all add: rnd_mono rnd_idem rnd_half_ulp rnd_absorb)

end
