(* ===== verification/Breaker.thy ===== *)
theory Breaker
  imports GoFloat
begin

text \<open>
  The circuit breaker of \<^verbatim>\<open>internal/lb/circuit.go\<close>: one record for \<^verbatim>\<open>CircuitBreaker\<close>, one
  definition per method. The methods serialise on the breaker's mutex, so a run of the breaker
  is a sequence of method calls; the injected clock \<^verbatim>\<open>cb.now\<close> is an argument of each call
  (\<open>brk_Record\<close> reads it twice, as the code does). Counts (\<^verbatim>\<open>int\<close> in Go) are \<open>nat\<close>: the only
  configuration the program builds is \<open>DefaultCircuitBreakerConfig\<close>, and no method makes one
  negative.
\<close>

named_theorems brk \<open>unfoldings of the breaker's methods\<close>

section \<open>Data\<close>

datatype breaker_state = BreakerClosed | BreakerOpen | BreakerHalfOpen

datatype breaker_outcome = OutcomeSuccess | OutcomeFailure | OutcomeCancellation

record breaker_config =
  failureRatio :: float64
  minObservations :: nat
  windowDuration :: duration
  windowSize :: nat
  openMin :: duration
  openMax :: duration
  halfOpenProbes :: nat

record breaker_sample =
  failure :: bool
  sampleAt :: time

record breaker =
  cfg :: breaker_config
  state :: breaker_state
  openedAt :: time
  openDuration :: duration
  probesAdmitted :: nat
  probesSucceeded :: nat
  samples :: "breaker_sample list"

fun breaker_state_String :: "breaker_state \<Rightarrow> string" where
  "breaker_state_String BreakerClosed = ''closed''"
| "breaker_state_String BreakerOpen = ''open''"
| "breaker_state_String BreakerHalfOpen = ''half-open''"

definition DefaultCircuitBreakerConfig :: breaker_config where
  "DefaultCircuitBreakerConfig =
     \<lparr> failureRatio = 1 / 2, minObservations = 20, windowDuration = 30 * second,
       windowSize = 100, openMin = second, openMax = 60 * second, halfOpenProbes = 5 \<rparr>"

definition NewCircuitBreaker :: "breaker_config \<Rightarrow> breaker" where
  "NewCircuitBreaker c =
     \<lparr> cfg = c, state = BreakerClosed, openedAt = 0, openDuration = 0,
       probesAdmitted = 0, probesSucceeded = 0, samples = [] \<rparr>"

section \<open>Methods\<close>

definition advanceLocked :: "time \<Rightarrow> breaker \<Rightarrow> breaker" where
  "advanceLocked now cb =
     (if state cb \<noteq> BreakerOpen then cb
      else if openDuration cb \<le> time_sub now (openedAt cb)
      then cb\<lparr>state := BreakerHalfOpen, probesAdmitted := 0, probesSucceeded := 0\<rparr>
      else cb)"

definition brk_State :: "time \<Rightarrow> breaker \<Rightarrow> breaker_state \<times> breaker" where
  "brk_State now cb = (let cb' = advanceLocked now cb in (state cb', cb'))"

text \<open>
  The window keeps the samples from \<open>cutoff\<close> on, scanning from the oldest, and of those the
  last \<open>windowSize\<close>.
\<close>

definition trimWindowLocked :: "time \<Rightarrow> breaker \<Rightarrow> breaker" where
  "trimWindowLocked now cb =
     (let cutoff = now - windowDuration (cfg cb);
          kept = dropWhile (\<lambda>s. sampleAt s < cutoff) (samples cb);
          n = windowSize (cfg cb)
      in cb\<lparr>samples := (if n < length kept then drop (length kept - n) kept else kept)\<rparr>)"

text \<open>
  \<open>0 / 0\<close> is a NaN, which no comparison \<^verbatim>\<open>>\<close> accepts: an empty window never trips.
\<close>

definition shouldTripLocked :: "breaker \<Rightarrow> bool" where
  "shouldTripLocked cb =
     (if length (samples cb) < minObservations (cfg cb) then False
      else let failures = length (filter failure (samples cb));
               ratio = fdiv (of_integer (int failures)) (of_integer (int (length (samples cb))))
           in samples cb \<noteq> [] \<and> failureRatio (cfg cb) < ratio)"

definition brk_Record_closed :: "time \<Rightarrow> bool \<Rightarrow> breaker \<Rightarrow> breaker" where
  "brk_Record_closed now isFailure cb =
     (let cb1 = cb\<lparr>samples := samples cb @ [\<lparr>failure = isFailure, sampleAt = now\<rparr>]\<rparr>;
          cb2 = trimWindowLocked now cb1
      in if shouldTripLocked cb2
         then cb2\<lparr>openDuration := openMin (cfg cb2), openedAt := now,
                  state := BreakerOpen, samples := []\<rparr>
         else cb2)"

definition brk_Record_half_open :: "time \<Rightarrow> bool \<Rightarrow> breaker \<Rightarrow> breaker" where
  "brk_Record_half_open now isFailure cb =
     (if isFailure
      then let newDur = s64 (openDuration cb * 2);
               capped = (if openMax (cfg cb) < newDur then openMax (cfg cb) else newDur)
           in cb\<lparr>openDuration := capped, openedAt := now, state := BreakerOpen,
                 probesAdmitted := 0, probesSucceeded := 0\<rparr>
      else let cb1 = cb\<lparr>probesSucceeded := probesSucceeded cb + 1\<rparr>
           in if halfOpenProbes (cfg cb1) \<le> probesSucceeded cb1
              then cb1\<lparr>state := BreakerClosed, openDuration := openMin (cfg cb1),
                       probesAdmitted := 0, probesSucceeded := 0, samples := []\<rparr>
              else cb1)"

text \<open>\<open>t1\<close> is the clock reading of \<^verbatim>\<open>advanceLocked\<close>, \<open>t2\<close> the one of \<^verbatim>\<open>Record\<close> itself.\<close>

definition brk_Record :: "time \<Rightarrow> time \<Rightarrow> breaker_outcome \<Rightarrow> breaker \<Rightarrow> breaker" where
  "brk_Record t1 t2 outcome cb =
     (if outcome = OutcomeCancellation then cb
      else let cb1 = advanceLocked t1 cb; isFailure = (outcome = OutcomeFailure)
           in case state cb1 of
                BreakerClosed \<Rightarrow> brk_Record_closed t2 isFailure cb1
              | BreakerHalfOpen \<Rightarrow> brk_Record_half_open t2 isFailure cb1
              | BreakerOpen \<Rightarrow> cb1)"

definition brk_Reserve :: "time \<Rightarrow> breaker \<Rightarrow> bool \<times> breaker" where
  "brk_Reserve now cb =
     (let cb1 = advanceLocked now cb
      in case state cb1 of
           BreakerClosed \<Rightarrow> (True, cb1)
         | BreakerOpen \<Rightarrow> (False, cb1)
         | BreakerHalfOpen \<Rightarrow>
             (if probesAdmitted cb1 < halfOpenProbes (cfg cb1)
              then (True, cb1\<lparr>probesAdmitted := probesAdmitted cb1 + 1\<rparr>)
              else (False, cb1)))"

definition brk_RemainingOpen :: "time \<Rightarrow> breaker \<Rightarrow> duration" where
  "brk_RemainingOpen now cb =
     (if state cb \<noteq> BreakerOpen then 0
      else let remaining = s64 (openDuration cb - time_sub now (openedAt cb))
           in if remaining < 0 then 0 else remaining)"

lemmas [brk] = advanceLocked_def brk_State_def trimWindowLocked_def brk_Record_closed_def
  brk_Record_half_open_def brk_Record_def brk_Reserve_def Let_def

section \<open>A run of the breaker\<close>

text \<open>
  A method call with the clock readings it makes; \<open>apply_call\<close> is the state it leaves. A run
  is a list of calls whose clock readings never go back.
\<close>

datatype brk_call = CallState time | CallRecord time time breaker_outcome | CallReserve time

fun apply_call :: "brk_call \<Rightarrow> breaker \<Rightarrow> breaker" where
  "apply_call (CallState t) cb = snd (brk_State t cb)"
| "apply_call (CallRecord t1 t2 oc) cb = brk_Record t1 t2 oc cb"
| "apply_call (CallReserve t) cb = snd (brk_Reserve t cb)"

fun call_times :: "brk_call \<Rightarrow> time list" where
  "call_times (CallState t) = [t]"
| "call_times (CallRecord t1 t2 oc) = [t1, t2]"
| "call_times (CallReserve t) = [t]"

inductive brk_run :: "breaker_config \<Rightarrow> time \<Rightarrow> breaker \<Rightarrow> bool" for c where
  run_new: "brk_run c t (NewCircuitBreaker c)"
| run_call: "\<lbrakk> brk_run c t cb; sorted (t # call_times k) \<rbrakk>
    \<Longrightarrow> brk_run c (last (call_times k)) (apply_call k cb)"

inductive_cases brk_runE: "brk_run c t cb"

section \<open>Invariant\<close>

definition valid_cfg :: "breaker_config \<Rightarrow> bool" where
  "valid_cfg c \<longleftrightarrow>
     0 < openMin c \<and> openMin c \<le> openMax c \<and> openMax c < 2 ^ 62 \<and>
     0 \<le> windowDuration c \<and> 0 < windowSize c \<and> 0 < halfOpenProbes c"

definition window_ok :: "time \<Rightarrow> breaker \<Rightarrow> bool" where
  "window_ok t cb \<longleftrightarrow>
     length (samples cb) \<le> windowSize (cfg cb) \<and>
     sorted (map sampleAt (samples cb)) \<and>
     (\<forall>s \<in> set (samples cb). sampleAt s \<le> t \<and>
        sampleAt (last (samples cb)) - windowDuration (cfg cb) \<le> sampleAt s)"

definition phase_ok :: "time \<Rightarrow> breaker \<Rightarrow> bool" where
  "phase_ok t cb \<longleftrightarrow>
     (case state cb of
        BreakerClosed \<Rightarrow> probesAdmitted cb = 0 \<and> probesSucceeded cb = 0
      | BreakerOpen \<Rightarrow> probesAdmitted cb = 0 \<and> probesSucceeded cb = 0 \<and> samples cb = [] \<and>
          openMin (cfg cb) \<le> openDuration cb \<and> openDuration cb \<le> openMax (cfg cb) \<and> openedAt cb \<le> t
      | BreakerHalfOpen \<Rightarrow> probesAdmitted cb \<le> halfOpenProbes (cfg cb) \<and>
          probesSucceeded cb < halfOpenProbes (cfg cb) \<and> samples cb = [] \<and>
          openMin (cfg cb) \<le> openDuration cb \<and> openDuration cb \<le> openMax (cfg cb) \<and> openedAt cb \<le> t)"

definition brk_inv :: "breaker_config \<Rightarrow> time \<Rightarrow> breaker \<Rightarrow> bool" where
  "brk_inv c t cb \<longleftrightarrow> cfg cb = c \<and> window_ok t cb \<and> phase_ok t cb"

lemmas brk_inv_defs = brk_inv_def window_ok_def phase_ok_def

lemma advanceLocked_cases [case_names same expired]:
  assumes "advanceLocked now cb = cb \<and> (state cb = BreakerOpen \<longrightarrow> time_sub now (openedAt cb) < openDuration cb) \<Longrightarrow> P"
    and "\<lbrakk> state cb = BreakerOpen; openDuration cb \<le> time_sub now (openedAt cb);
           advanceLocked now cb = cb\<lparr>state := BreakerHalfOpen, probesAdmitted := 0, probesSucceeded := 0\<rparr> \<rbrakk> \<Longrightarrow> P"
  shows P
proof (cases "state cb = BreakerOpen \<and> openDuration cb \<le> time_sub now (openedAt cb)")
  case True
  then show ?thesis by (intro assms(2)) (simp_all add: advanceLocked_def)
next
  case False
  then show ?thesis by (intro assms(1)) (auto simp: advanceLocked_def)
qed

lemma advanceLocked_frame [simp]:
  "cfg (advanceLocked t cb) = cfg cb" "openedAt (advanceLocked t cb) = openedAt cb"
  "openDuration (advanceLocked t cb) = openDuration cb" "samples (advanceLocked t cb) = samples cb"
  by (auto simp: advanceLocked_def)

lemma advanceLocked_idem [simp]: "advanceLocked t (advanceLocked t cb) = advanceLocked t cb"
  by (auto simp: advanceLocked_def)

lemma advanceLocked_not_open [simp]: "state cb \<noteq> BreakerOpen \<Longrightarrow> advanceLocked t cb = cb"
  by (simp add: advanceLocked_def)

lemma brk_inv_time: "brk_inv c t cb \<Longrightarrow> t \<le> t' \<Longrightarrow> brk_inv c t' cb"
  by (fastforce simp: brk_inv_defs split: breaker_state.splits)

lemma brk_inv_new: "brk_inv c t (NewCircuitBreaker c)"
  by (simp add: brk_inv_defs NewCircuitBreaker_def)

lemma brk_inv_advance: "valid_cfg c \<Longrightarrow> brk_inv c t cb \<Longrightarrow> brk_inv c t (advanceLocked now cb)"
  by (cases rule: advanceLocked_cases [of now cb])
    (auto simp: brk_inv_defs valid_cfg_def)

lemma set_dropWhileD: "x \<in> set (dropWhile P xs) \<Longrightarrow> x \<in> set xs"
  by (induction xs) (auto split: if_splits)

lemma trimWindow_frame [simp]:
  "cfg (trimWindowLocked t cb) = cfg cb" "state (trimWindowLocked t cb) = state cb"
  "openedAt (trimWindowLocked t cb) = openedAt cb" "openDuration (trimWindowLocked t cb) = openDuration cb"
  "probesAdmitted (trimWindowLocked t cb) = probesAdmitted cb"
  "probesSucceeded (trimWindowLocked t cb) = probesSucceeded cb"
  by (simp_all add: trimWindowLocked_def Let_def)

text \<open>On samples in clock order the trimmed window is exactly the last \<open>windowSize\<close> of the
  samples that are not older than \<open>windowDuration\<close>.\<close>

lemma dropWhile_sorted_filter:
  "sorted (map f xs) \<Longrightarrow> dropWhile (\<lambda>x. f x < (c :: int)) xs = filter (\<lambda>x. c \<le> f x) xs"
  by (induction xs) (auto simp: not_less intro!: filter_True [symmetric])

lemma trimWindow_samples:
  assumes "sorted (map sampleAt (samples cb))"
  shows "samples (trimWindowLocked now cb) =
     (let kept = filter (\<lambda>s. now - windowDuration (cfg cb) \<le> sampleAt s) (samples cb)
      in drop (length kept - windowSize (cfg cb)) kept)"
  using assms by (simp add: trimWindowLocked_def Let_def dropWhile_sorted_filter)

lemma trimWindow_window_ok:
  assumes "sorted (map sampleAt (samples cb))" and "samples cb \<noteq> []" and "0 \<le> windowDuration (cfg cb)"
    and "0 < windowSize (cfg cb)"
    and "sampleAt (last (samples cb)) = now" and "\<forall>s \<in> set (samples cb). sampleAt s \<le> now"
  shows "window_ok now (trimWindowLocked now cb)"
proof -
  define kept where "kept = filter (\<lambda>s. now - windowDuration (cfg cb) \<le> sampleAt s) (samples cb)"
  define ys where "ys = drop (length kept - windowSize (cfg cb)) kept"
  have S: "samples (trimWindowLocked now cb) = ys"
    using assms(1) by (simp add: trimWindow_samples Let_def kept_def ys_def)
  obtain xs x where xs: "samples cb = xs @ [x]"
    using assms(2) by (cases "samples cb" rule: rev_cases) auto
  then have x: "sampleAt x = now" using assms(5) by simp
  then have "kept = filter (\<lambda>s. now - windowDuration (cfg cb) \<le> sampleAt s) xs @ [x]"
    using xs assms(3) by (simp add: kept_def)
  then have last: "last ys = x" using assms(4) by (simp add: ys_def last_drop)
  have "set ys \<subseteq> set kept" unfolding ys_def by (rule set_drop_subset)
  then have bounds: "\<forall>s \<in> set ys. sampleAt s \<le> now \<and> now - windowDuration (cfg cb) \<le> sampleAt s"
    using assms(6) by (auto simp: kept_def)
  have "sorted (drop (length kept - windowSize (cfg cb)) (map sampleAt kept))"
    unfolding kept_def by (intro sorted_wrt_drop sorted_filter assms(1))
  then have "sorted (map sampleAt ys)" by (simp add: ys_def drop_map)
  moreover have "length ys \<le> windowSize (cfg cb)" by (simp add: ys_def)
  ultimately show ?thesis using bounds by (simp add: window_ok_def S last x)
qed

lemma brk_inv_record_closed:
  assumes "valid_cfg c" and "brk_inv c t cb" and "state cb = BreakerClosed" and "t \<le> now"
  shows "brk_inv c now (brk_Record_closed now f cb)"
proof -
  let ?cb1 = "cb\<lparr>samples := samples cb @ [\<lparr>failure = f, sampleAt = now\<rparr>]\<rparr>"
  have inv: "cfg cb = c" "sorted (map sampleAt (samples cb))" "\<forall>s \<in> set (samples cb). sampleAt s \<le> now"
    "probesAdmitted cb = 0" "probesSucceeded cb = 0"
    using assms(2-4) by (fastforce simp: brk_inv_defs)+
  then have "window_ok now (trimWindowLocked now ?cb1)"
    using assms(1) by (intro trimWindow_window_ok) (auto simp: sorted_append valid_cfg_def)
  then show ?thesis
    using assms(1,3) inv by (auto simp: brk_Record_closed_def Let_def brk_inv_defs valid_cfg_def)
qed

lemma double_capped:
  "\<lbrakk> 0 < d; lo \<le> d; d \<le> m; m < 2 ^ 62 \<rbrakk>
   \<Longrightarrow> (if m < s64 (d * 2) then m else s64 (d * 2)) = min (2 * d) m"
  by (auto simp: s64_id in64_def)

lemma brk_inv_record_half_open:
  assumes "valid_cfg c" and "brk_inv c t cb" and "state cb = BreakerHalfOpen" and "t \<le> now"
  shows "brk_inv c now (brk_Record_half_open now f cb)"
proof -
  have inv: "cfg cb = c" "samples cb = []" "openMin c \<le> openDuration cb" "openDuration cb \<le> openMax c"
    "probesAdmitted cb \<le> halfOpenProbes c" "probesSucceeded cb < halfOpenProbes c" "openedAt cb \<le> now"
    using assms(2-4) by (auto simp: brk_inv_defs)
  have "(if openMax c < s64 (openDuration cb * 2) then openMax c else s64 (openDuration cb * 2))
      = min (2 * openDuration cb) (openMax c)"
    using assms(1) inv by (intro double_capped [of _ "openMin c"]) (auto simp: valid_cfg_def)
  then show ?thesis
    using assms(1,3) inv
    by (auto simp: brk_Record_half_open_def Let_def brk_inv_defs valid_cfg_def)
qed

lemma brk_inv_Record:
  assumes v: "valid_cfg c" and inv: "brk_inv c t cb" and tm: "t \<le> t1" "t1 \<le> t2"
  shows "brk_inv c t2 (brk_Record t1 t2 oc cb)"
proof -
  have "brk_inv c t2 cb" using inv by (rule brk_inv_time) (use tm in linarith)
  moreover have a: "brk_inv c t1 (advanceLocked t1 cb)"
    using v brk_inv_time [OF inv tm(1)] by (rule brk_inv_advance)
  moreover have "brk_inv c t2 (advanceLocked t1 cb)" using a tm(2) by (rule brk_inv_time)
  ultimately show ?thesis
    using brk_inv_record_closed [OF v a _ tm(2)] brk_inv_record_half_open [OF v a _ tm(2)]
    by (auto simp: brk_Record_def Let_def split: breaker_state.splits)
qed

lemma brk_inv_Reserve:
  assumes "valid_cfg c" and "brk_inv c t cb"
  shows "brk_inv c t (snd (brk_Reserve now cb))"
proof -
  have "brk_inv c t (advanceLocked now cb)" using assms by (rule brk_inv_advance)
  then show ?thesis
    by (auto simp: brk_Reserve_def Let_def brk_inv_defs split: breaker_state.splits)
qed

lemma brk_inv_call:
  assumes "valid_cfg c" and "brk_inv c t cb" and "sorted (t # call_times k)"
  shows "brk_inv c (last (call_times k)) (apply_call k cb)"
  using assms
proof (cases k)
  case (CallState now)
  with assms have "brk_inv c now cb" by (auto intro: brk_inv_time)
  with CallState assms(1) show ?thesis by (simp add: brk_State_def Let_def brk_inv_advance)
next
  case (CallRecord t1 t2 oc)
  with assms show ?thesis by (auto intro: brk_inv_Record)
next
  case (CallReserve now)
  with assms have "brk_inv c now cb" by (auto intro: brk_inv_time)
  with CallReserve assms(1) show ?thesis by (simp add: brk_inv_Reserve)
qed

lemma brk_run_inv: "valid_cfg c \<Longrightarrow> brk_run c t cb \<Longrightarrow> brk_inv c t cb"
  by (rotate_tac, induction rule: brk_run.induct) (simp_all add: brk_inv_new brk_inv_call)

lemma valid_default [simp]: "valid_cfg DefaultCircuitBreakerConfig"
  by (simp add: valid_cfg_def DefaultCircuitBreakerConfig_def)

lemma brk_run_calls:
  "\<lbrakk> brk_run c t cb; sorted (t # concat (map call_times ks)) \<rbrakk>
   \<Longrightarrow> brk_run c (last (t # concat (map call_times ks))) (fold apply_call ks cb)"
proof (induction ks arbitrary: t cb)
  case (Cons k ks)
  let ?t = "last (call_times k)"
  have k: "call_times k \<noteq> []" by (cases k) auto
  then have "?t \<in> set (call_times k)" by simp
  with Cons.prems(2) have "sorted (t # call_times k)" and "sorted (?t # concat (map call_times ks))"
    by (auto simp: sorted_append)
  then have "brk_run c (last (?t # concat (map call_times ks))) (fold apply_call ks (apply_call k cb))"
    using Cons.prems(1) by (intro Cons.IH run_call)
  then show ?case using k by (simp add: last_append)
qed simp

section \<open>Correctness properties\<close>

text \<open>
  (C1) In every run of the breaker from its constructor, under a valid configuration: the sliding
  window never holds more than \<^verbatim>\<open>WindowSize\<close> samples, they are in clock order and none is older than
  \<^verbatim>\<open>WindowDuration\<close> relative to the newest; at most \<^verbatim>\<open>HalfOpenProbes\<close> probe slots are taken; and while
  the breaker is not closed its open duration lies between \<^verbatim>\<open>OpenMin\<close> and \<^verbatim>\<open>OpenMax\<close>.
\<close>

theorem breaker_run_safe:
  assumes "valid_cfg c" and "brk_run c t cb"
  shows "length (samples cb) \<le> windowSize c \<and> sorted (map sampleAt (samples cb)) \<and>
    (\<forall>s \<in> set (samples cb). sampleAt (last (samples cb)) - windowDuration c \<le> sampleAt s) \<and>
    probesAdmitted cb \<le> halfOpenProbes c \<and>
    (state cb \<noteq> BreakerClosed \<longrightarrow> openMin c \<le> openDuration cb \<and> openDuration cb \<le> openMax c)"
  using brk_run_inv [OF assms] by (auto simp: brk_inv_defs split: breaker_state.splits)

theorem breaker_run_safe_witness:
  "brk_run DefaultCircuitBreakerConfig 7
     (apply_call (CallRecord 5 7 OutcomeFailure) (NewCircuitBreaker DefaultCircuitBreakerConfig)) \<and>
   length (samples (apply_call (CallRecord 5 7 OutcomeFailure)
     (NewCircuitBreaker DefaultCircuitBreakerConfig))) \<le> 100"
proof -
  have r: "brk_run DefaultCircuitBreakerConfig 7
     (apply_call (CallRecord 5 7 OutcomeFailure) (NewCircuitBreaker DefaultCircuitBreakerConfig))"
    using run_call [OF run_new [of DefaultCircuitBreakerConfig 0], of "CallRecord 5 7 OutcomeFailure"]
    by simp
  show ?thesis
    using r breaker_run_safe [OF valid_default r] by (simp add: DefaultCircuitBreakerConfig_def)
qed

text \<open>
  (C14) An open breaker shields its upstream: until the open duration has elapsed on the clock, no
  method call changes the breaker and \<^verbatim>\<open>Reserve\<close> refuses every selection.
\<close>

theorem breaker_open_shields:
  assumes "state cb = BreakerOpen"
    and "\<forall>t \<in> set (call_times k). time_sub t (openedAt cb) < openDuration cb"
  shows "apply_call k cb = cb \<and> (\<forall>t. k = CallReserve t \<longrightarrow> \<not> fst (brk_Reserve t cb))"
  using assms by (cases k) (auto simp: brk)

theorem breaker_open_shields_witness:
  "\<not> fst (brk_Reserve 500 ((NewCircuitBreaker DefaultCircuitBreakerConfig)
      \<lparr>state := BreakerOpen, openedAt := 100, openDuration := second\<rparr>))"
  using breaker_open_shields [of "(NewCircuitBreaker DefaultCircuitBreakerConfig)
      \<lparr>state := BreakerOpen, openedAt := 100, openDuration := second\<rparr>" "CallReserve 500"]
  by (simp add: time_sub_def sat64_def)

text \<open>
  The comparison of the failure ratio, on floating point: rounding does not blur the threshold
  one half, because the next larger ratio is at least one unit in the last place away.
\<close>

lemma half_ratio_exact:
  assumes "0 < n" and "n < 2 ^ 50" and "f \<le> n"
  shows "1 / 2 < fdiv (of_integer (int f)) (of_integer (int n)) \<longleftrightarrow> n < 2 * f"
proof -
  have nf: "int n < 2 ^ 53" "int f < 2 ^ 53"
  proof -
    have "int n < 2 ^ 50" using assms(2) by (metis of_nat_less_iff of_nat_numeral of_nat_power)
    then show "int n < 2 ^ 53" "int f < 2 ^ 53" using assms(3) by simp_all
  qed
  then have e: "fdiv (of_integer (int f)) (of_integer (int n)) = rnd (of_nat f / of_nat n)"
    using rnd_of_int [of "int n"] rnd_of_int [of "int f"] by simp
  have half: "rnd (1 / 2) = 1 / 2"
    by (rule rnd_representable [where m = 1 and e = "- 1"]) (simp_all add: pow2_def)
  have up: "rnd (1 / 2 + 1 / 2 ^ 52) = 1 / 2 + 1 / 2 ^ 52"
    by (rule rnd_representable [where m = "2 ^ 51 + 1" and e = "- 52"]) (simp_all add: pow2_def)
  show ?thesis
  proof (cases "n < 2 * f")
    case True
    then have "int n + 1 \<le> 2 * int f" by linarith
    then have "(of_int (int n + 1) :: rat) \<le> of_int (2 * int f)" by (simp only: of_int_le_iff)
    then have "(of_nat n + 1 :: rat) \<le> 2 * of_nat f" by simp
    moreover have "(of_nat n :: rat) \<le> of_nat (2 ^ 50)" using assms(2) by (simp only: of_nat_le_iff)
    ultimately have "1 / 2 + 1 / 2 ^ 52 \<le> (of_nat f / of_nat n :: rat)"
      using assms(1) by (simp add: field_simps)
    from rnd_mono [OF this] show ?thesis unfolding e using up True by simp
  next
    case False
    then have "(of_nat (2 * f) :: rat) \<le> of_nat n" by (simp only: of_nat_le_iff not_less)
    then have "of_nat f / of_nat n \<le> (1 / 2 :: rat)" using assms(1) by (simp add: field_simps)
    from rnd_mono [OF this] show ?thesis unfolding e using half False by simp
  qed
qed

text \<open>
  The samples the decision is taken on: the most recent \<^verbatim>\<open>WindowSize\<close> of those inside
  \<^verbatim>\<open>WindowDuration\<close>, the new one included.
\<close>

definition decision_window :: "time \<Rightarrow> bool \<Rightarrow> breaker \<Rightarrow> breaker_sample list" where
  "decision_window now f cb =
     (let recent = filter (\<lambda>s. now - windowDuration (cfg cb) \<le> sampleAt s)
            (samples cb @ [\<lparr>failure = f, sampleAt = now\<rparr>])
      in drop (length recent - windowSize (cfg cb)) recent)"

lemma record_closed_trips:
  assumes "brk_inv c t cb" and "t \<le> now" and "state cb = BreakerClosed"
  shows "state (brk_Record_closed now f cb) =
    (if shouldTripLocked (cb\<lparr>samples := decision_window now f cb\<rparr>) then BreakerOpen else BreakerClosed)"
proof -
  let ?cb1 = "cb\<lparr>samples := samples cb @ [\<lparr>failure = f, sampleAt = now\<rparr>]\<rparr>"
  have "sorted (map sampleAt (samples ?cb1))"
    using assms(1,2) by (fastforce simp: brk_inv_defs sorted_append)
  then have "samples (trimWindowLocked now ?cb1) = decision_window now f cb"
    by (simp add: trimWindow_samples decision_window_def)
  then have "shouldTripLocked (trimWindowLocked now ?cb1) =
      shouldTripLocked (cb\<lparr>samples := decision_window now f cb\<rparr>)"
    by (simp add: shouldTripLocked_def)
  then show ?thesis using assms(3) by (simp add: brk_Record_closed_def Let_def)
qed

text \<open>
  (C15) With the default configuration a closed breaker that records a success or a failure opens
  exactly when its window (the last 100 samples of the last 30 seconds, the new one included) holds
  at least 20 samples of which strictly more than half are failures; the floating-point division
  of the code decides this exactly.
\<close>

theorem default_breaker_trips_iff:
  assumes "brk_run DefaultCircuitBreakerConfig t cb" and "state cb = BreakerClosed"
    and "t \<le> t1" and "t1 \<le> t2" and "oc \<noteq> OutcomeCancellation"
  shows "state (brk_Record t1 t2 oc cb) = BreakerOpen \<longleftrightarrow>
    (let w = decision_window t2 (oc = OutcomeFailure) cb
     in 20 \<le> length w \<and> length w < 2 * length (filter failure w))"
proof -
  let ?w = "decision_window t2 (oc = OutcomeFailure) cb"
  have inv: "brk_inv DefaultCircuitBreakerConfig t cb" using valid_default assms(1) by (rule brk_run_inv)
  then have c: "cfg cb = DefaultCircuitBreakerConfig" by (simp add: brk_inv_def)
  have "length ?w \<le> 100" by (simp add: decision_window_def Let_def c DefaultCircuitBreakerConfig_def)
  then have "?w \<noteq> [] \<Longrightarrow> 1 / 2 < fdiv (of_integer (int (length (filter failure ?w)))) (of_integer (int (length ?w)))
      \<longleftrightarrow> length ?w < 2 * length (filter failure ?w)"
    by (intro half_ratio_exact) (auto simp: length_filter_le)
  moreover have "state (brk_Record t1 t2 oc cb) = BreakerOpen \<longleftrightarrow> shouldTripLocked (cb\<lparr>samples := ?w\<rparr>)"
    using record_closed_trips [OF inv _ assms(2), of t2] assms by (simp add: brk_Record_def Let_def)
  moreover have "shouldTripLocked (cb\<lparr>samples := ?w\<rparr>) \<longleftrightarrow> 20 \<le> length ?w \<and> ?w \<noteq> [] \<and>
      1 / 2 < fdiv (of_integer (int (length (filter failure ?w)))) (of_integer (int (length ?w)))"
    by (auto simp: shouldTripLocked_def Let_def c DefaultCircuitBreakerConfig_def)
  moreover have "20 \<le> length ?w \<Longrightarrow> ?w \<noteq> []" by auto
  ultimately show ?thesis unfolding Let_def by blast
qed

theorem default_breaker_trips_iff_witness:
  "state (brk_Record 1 2 OutcomeFailure (NewCircuitBreaker DefaultCircuitBreakerConfig)) \<noteq> BreakerOpen"
  using default_breaker_trips_iff [OF run_new [of _ 0], of 1 2 OutcomeFailure]
  by (simp add: NewCircuitBreaker_def decision_window_def Let_def DefaultCircuitBreakerConfig_def)

text \<open>Consecutive \<^verbatim>\<open>Reserve\<close> calls and what they answered.\<close>

fun reserve_all :: "time list \<Rightarrow> breaker \<Rightarrow> bool list \<times> breaker" where
  "reserve_all [] cb = ([], cb)"
| "reserve_all (t # ts) cb =
     (let (b, cb1) = brk_Reserve t cb; (bs, cb2) = reserve_all ts cb1 in (b # bs, cb2))"

lemma reserve_half_open:
  "state cb = BreakerHalfOpen \<Longrightarrow> brk_Reserve t cb =
     (if probesAdmitted cb < halfOpenProbes (cfg cb)
      then (True, cb\<lparr>probesAdmitted := probesAdmitted cb + 1\<rparr>) else (False, cb))"
  by (simp add: brk_Reserve_def Let_def)

text \<open>
  (C16) A half-open breaker admits exactly as many selections as it has free probe slots, the first
  ones to ask: of any sequence of \<^verbatim>\<open>Reserve\<close> calls the first \<^verbatim>\<open>HalfOpenProbes - probesAdmitted\<close> are
  granted and all the others refused.
\<close>

theorem half_open_admits_exactly:
  assumes "state cb = BreakerHalfOpen" and "probesAdmitted cb \<le> halfOpenProbes (cfg cb)"
  shows "fst (reserve_all ts cb) =
    (let free = halfOpenProbes (cfg cb) - probesAdmitted cb
     in replicate (min (length ts) free) True @ replicate (length ts - free) False)"
  using assms
proof (induction ts arbitrary: cb)
  case (Cons t ts)
  show ?case
  proof (cases "probesAdmitted cb < halfOpenProbes (cfg cb)")
    case True
    let ?cb = "cb\<lparr>probesAdmitted := probesAdmitted cb + 1\<rparr>"
    obtain d where d: "halfOpenProbes (cfg cb) - probesAdmitted cb = Suc d"
      using True by (metis Suc_diff_Suc)
    have "fst (reserve_all ts ?cb) =
        (let free = halfOpenProbes (cfg ?cb) - probesAdmitted ?cb
         in replicate (min (length ts) free) True @ replicate (length ts - free) False)"
      using Cons.prems True by (intro Cons.IH) simp_all
    moreover have "halfOpenProbes (cfg ?cb) - probesAdmitted ?cb = d" using d by simp
    ultimately show ?thesis
      using Cons.prems True d by (simp add: reserve_half_open split_beta)
  next
    case False
    then show ?thesis
      using Cons.prems Cons.IH [of cb] by (simp add: reserve_half_open split_beta)
  qed
qed simp

theorem half_open_admits_exactly_witness:
  "fst (reserve_all [10, 11, 12, 13, 14, 15, 16] ((NewCircuitBreaker DefaultCircuitBreakerConfig)
      \<lparr>state := BreakerHalfOpen, probesAdmitted := 1\<rparr>)) =
   [True, True, True, True, False, False, False]"
  using half_open_admits_exactly [of "(NewCircuitBreaker DefaultCircuitBreakerConfig)
      \<lparr>state := BreakerHalfOpen, probesAdmitted := 1\<rparr>" "[10, 11, 12, 13, 14, 15, 16]"]
  by (simp add: NewCircuitBreaker_def DefaultCircuitBreakerConfig_def numeral_eq_Suc)

text \<open>
  \<open>failed_probes c k cb\<close>: since the breaker last tripped from closed, its open duration has
  elapsed \<open>k\<close> times and each time a probe failed.
\<close>

inductive failed_probes :: "breaker_config \<Rightarrow> nat \<Rightarrow> breaker \<Rightarrow> bool" for c where
  tripped: "\<lbrakk> brk_run c t cb; state cb = BreakerClosed; t \<le> now; state (brk_Record_closed now f cb) = BreakerOpen \<rbrakk>
    \<Longrightarrow> failed_probes c 0 (brk_Record_closed now f cb)"
| retripped: "\<lbrakk> failed_probes c k cb; openDuration cb \<le> time_sub t1 (openedAt cb) \<rbrakk>
    \<Longrightarrow> failed_probes c (Suc k) (brk_Record t1 t2 OutcomeFailure cb)"

lemma failed_probe_step:
  assumes "valid_cfg c" and "cfg cb = c" and "state cb = BreakerOpen"
    and "openMin c \<le> openDuration cb" and "openDuration cb \<le> openMax c"
    and "openDuration cb \<le> time_sub t1 (openedAt cb)"
  shows "brk_Record t1 t2 OutcomeFailure cb =
    cb\<lparr>openDuration := min (2 * openDuration cb) (openMax c), openedAt := t2, state := BreakerOpen,
       probesAdmitted := 0, probesSucceeded := 0\<rparr>"
proof -
  have eq: "(if openMax c < s64 (openDuration cb * 2) then openMax c else s64 (openDuration cb * 2))
      = min (2 * openDuration cb) (openMax c)"
    using assms by (intro double_capped [of _ "openMin c"]) (auto simp: valid_cfg_def)
  let ?cb = "cb\<lparr>state := BreakerHalfOpen, probesAdmitted := 0, probesSucceeded := 0\<rparr>"
  have "brk_Record t1 t2 OutcomeFailure cb = brk_Record_half_open t2 True ?cb"
    using assms by (simp add: brk_Record_def advanceLocked_def Let_def)
  also have "\<dots> = ?cb\<lparr>openDuration := (if openMax c < s64 (openDuration cb * 2) then openMax c
      else s64 (openDuration cb * 2)), openedAt := t2, state := BreakerOpen,
      probesAdmitted := 0, probesSucceeded := 0\<rparr>"
    using assms(2) by (simp add: brk_Record_half_open_def Let_def)
  finally show ?thesis unfolding eq by simp
qed

text \<open>
  Exponential back-off: after a trip and \<open>k\<close> failed probe phases in a row the breaker is open
  for \<^verbatim>\<open>OpenMin\<close> doubled \<open>k\<close> times, capped at \<^verbatim>\<open>OpenMax\<close>; the 64-bit doubling never overflows.
\<close>

theorem breaker_backoff:
  assumes "valid_cfg c" and "failed_probes c k cb"
  shows "cfg cb = c \<and> state cb = BreakerOpen \<and> openDuration cb = min (openMin c * 2 ^ k) (openMax c)"
  using assms(2)
proof (induction rule: failed_probes.induct)
  case (tripped t cb now f)
  have "cfg cb = c" using brk_run_inv [OF assms(1) tripped(1)] by (simp add: brk_inv_def)
  with tripped assms(1) show ?case
    by (auto simp: brk_Record_closed_def Let_def valid_cfg_def split: if_splits)
next
  case (retripped k cb t1 t2)
  have "openMin c \<le> openMin c * 2 ^ k" using assms(1) by (simp add: valid_cfg_def)
  then have d: "openMin c \<le> openDuration cb" "openDuration cb \<le> openMax c"
    using retripped.IH assms(1) by (auto simp: valid_cfg_def)
  have "min (2 * min (openMin c * 2 ^ k) (openMax c)) (openMax c) = min (openMin c * 2 ^ Suc k) (openMax c)"
    using assms(1) by (auto simp: valid_cfg_def min_def)
  then show ?case
    using failed_probe_step [OF assms(1) _ _ d retripped.hyps(2)] retripped.IH by simp
qed

text \<open>
  A half-open breaker closes when \<^verbatim>\<open>HalfOpenProbes\<close> successes have been recorded since it became
  half-open, with an empty window and its back-off reset; the count is of recorded successes, so it
  does not matter whether these requests had reserved a probe slot.
\<close>

theorem half_open_closes_on_successes:
  assumes "state cb = BreakerHalfOpen" and "probesSucceeded cb + length ts = halfOpenProbes (cfg cb)"
    and "ts \<noteq> []"
  shows "fold (\<lambda>(t1, t2). brk_Record t1 t2 OutcomeSuccess) ts cb =
    cb\<lparr>state := BreakerClosed, openDuration := openMin (cfg cb), probesAdmitted := 0,
       probesSucceeded := 0, samples := []\<rparr>"
  using assms
proof (induction ts arbitrary: cb)
  case (Cons t ts)
  obtain t1 t2 where t: "t = (t1, t2)" by fastforce
  let ?cb1 = "cb\<lparr>probesSucceeded := probesSucceeded cb + 1\<rparr>"
  show ?case
  proof (cases "ts = []")
    case True
    with Cons.prems t show ?thesis by (simp add: brk)
  next
    case False
    then have "\<not> halfOpenProbes (cfg cb) \<le> Suc (probesSucceeded cb)"
      using Cons.prems by (cases ts) auto
    with Cons.prems have "brk_Record t1 t2 OutcomeSuccess cb = ?cb1" by (simp add: brk)
    then show ?thesis using Cons.prems Cons.IH [of ?cb1] False t by simp
  qed
qed simp

theorem half_open_closes_on_successes_witness:
  "state (fold (\<lambda>(t1, t2). brk_Record t1 t2 OutcomeSuccess) [(1, 2), (3, 4)]
     ((NewCircuitBreaker DefaultCircuitBreakerConfig)\<lparr>state := BreakerHalfOpen, probesSucceeded := 3\<rparr>))
   = BreakerClosed"
  using half_open_closes_on_successes [of "(NewCircuitBreaker DefaultCircuitBreakerConfig)
      \<lparr>state := BreakerHalfOpen, probesSucceeded := 3\<rparr>" "[(1, 2), (3, 4)]"]
  by (simp add: NewCircuitBreaker_def DefaultCircuitBreakerConfig_def)

text \<open>The edges of the state diagram the package documents.\<close>

fun edge :: "breaker_state \<Rightarrow> breaker_state \<Rightarrow> bool" where
  "edge BreakerClosed BreakerOpen = True"
| "edge BreakerOpen BreakerHalfOpen = True"
| "edge BreakerHalfOpen BreakerClosed = True"
| "edge BreakerHalfOpen BreakerOpen = True"
| "edge s s' = (s = s')"

text \<open>
  Every method call moves the breaker along the documented state diagram: first, at most, from
  open to half-open because the open duration has elapsed, and then along at most one more edge; in
  particular no single call leads from closed to half-open and none but an elapsed open duration
  leads out of open.
\<close>

theorem breaker_follows_diagram:
  "\<exists>m. edge (state cb) m \<and> edge m (state (apply_call k cb)) \<and>
     (m \<noteq> state cb \<longrightarrow> state cb = BreakerOpen \<and> m = BreakerHalfOpen \<and>
        openDuration cb \<le> time_sub (hd (call_times k)) (openedAt cb)) \<and>
     (m = BreakerOpen \<longrightarrow> apply_call k cb = cb)"
proof -
  let ?cb1 = "advanceLocked (hd (call_times k)) cb"
  have "edge (state cb) (state ?cb1)"
    by (cases "state cb") (auto simp: advanceLocked_def)
  moreover have "edge (state ?cb1) (state (apply_call k cb))"
    by (cases k; cases "state ?cb1") (auto simp: brk split: if_splits)
  moreover have "state ?cb1 = BreakerOpen \<Longrightarrow> apply_call k cb = cb"
    by (cases k) (auto simp: brk split: if_splits)
  moreover have "state ?cb1 \<noteq> state cb \<Longrightarrow> state cb = BreakerOpen \<and> state ?cb1 = BreakerHalfOpen \<and>
      openDuration cb \<le> time_sub (hd (call_times k)) (openedAt cb)"
    by (auto simp: advanceLocked_def split: if_splits)
  ultimately show ?thesis by blast
qed

theorem breaker_follows_diagram_witness:
  "\<exists>m. edge (state (NewCircuitBreaker DefaultCircuitBreakerConfig)) m \<and>
     edge m (state (apply_call (CallRecord 5 7 OutcomeFailure) (NewCircuitBreaker DefaultCircuitBreakerConfig)))"
  using breaker_follows_diagram [of "NewCircuitBreaker DefaultCircuitBreakerConfig" "CallRecord 5 7 OutcomeFailure"] by blast

section \<open>The probe-slot leak\<close>

text \<open>
  A probe slot is taken by \<^verbatim>\<open>Reserve\<close> and never given back: \<^verbatim>\<open>Record(OutcomeCancellation)\<close> returns
  before it touches the breaker. \<open>leak_run\<close> is such a run of a default breaker: it trips, becomes
  half-open, admits its five probes, four of them succeed and one is cancelled.
\<close>

definition leak_run :: "brk_call list" where
  "leak_run =
     map (\<lambda>i. CallRecord i i OutcomeFailure) [1, 2, 3, 4, 5, 6, 7, 8, 9, 10, 11, 12, 13, 14, 15, 16, 17, 18, 19, 20] @
     replicate 5 (CallReserve (2 * second)) @
     replicate 4 (CallRecord (3 * second) (3 * second) OutcomeSuccess) @
     [CallRecord (4 * second) (4 * second) OutcomeCancellation]"

fun idle_call :: "brk_call \<Rightarrow> bool" where
  "idle_call (CallState t) = True"
| "idle_call (CallReserve t) = True"
| "idle_call (CallRecord t1 t2 oc) = (oc = OutcomeCancellation)"

lemma exhausted_call_id:
  "\<lbrakk> state cb = BreakerHalfOpen; halfOpenProbes (cfg cb) \<le> probesAdmitted cb; idle_call k \<rbrakk>
   \<Longrightarrow> apply_call k cb = cb"
  by (cases k) (auto simp: brk)

lemma leak_run_state:
  "let cb = fold apply_call leak_run (NewCircuitBreaker DefaultCircuitBreakerConfig)
   in state cb = BreakerHalfOpen \<and> probesAdmitted cb = 5 \<and> probesSucceeded cb = 4 \<and>
      cfg cb = DefaultCircuitBreakerConfig"
  by code_simp

text \<open>
  The leak is permanent: the breaker that the run above leads to answers every later \<^verbatim>\<open>Reserve\<close>,
  at any time, with false, and reports half-open for ever; \<^verbatim>\<open>State\<close>, \<^verbatim>\<open>Reserve\<close> and further
  cancellations do not change it, so once its outstanding requests are done nothing in the program
  can bring the upstream back.
\<close>

theorem half_open_slot_leak:
  "\<exists>t cb. brk_run DefaultCircuitBreakerConfig t cb \<and>
     cb = fold apply_call leak_run (NewCircuitBreaker DefaultCircuitBreakerConfig) \<and>
     (\<forall>ks. list_all idle_call ks \<longrightarrow>
        fold apply_call ks cb = cb \<and> (\<forall>now. \<not> fst (brk_Reserve now (fold apply_call ks cb)) \<and>
        fst (brk_State now (fold apply_call ks cb)) = BreakerHalfOpen))"
proof -
  let ?cb = "fold apply_call leak_run (NewCircuitBreaker DefaultCircuitBreakerConfig)"
  have st: "state ?cb = BreakerHalfOpen" "probesAdmitted ?cb = 5" "cfg ?cb = DefaultCircuitBreakerConfig"
    using leak_run_state by (simp_all add: Let_def)
  have "sorted (0 # concat (map call_times leak_run))" by code_simp
  then have run: "brk_run DefaultCircuitBreakerConfig (last (0 # concat (map call_times leak_run))) ?cb"
    by (rule brk_run_calls [OF run_new])
  have "halfOpenProbes DefaultCircuitBreakerConfig = 5" by (simp add: DefaultCircuitBreakerConfig_def)
  then have full: "halfOpenProbes (cfg ?cb) \<le> probesAdmitted ?cb" by (simp add: st)
  have fixed: "fold apply_call ks ?cb = ?cb" if "list_all idle_call ks" for ks
    using that by (induction ks) (simp_all add: exhausted_call_id [OF st(1) full])
  have "\<not> fst (brk_Reserve now ?cb)" "fst (brk_State now ?cb) = BreakerHalfOpen" for now
    using full by (simp_all add: reserve_half_open st(1) brk_State_def)
  with run fixed show ?thesis by metis
qed

theorem half_open_slot_leak_witness:
  "\<exists>t cb. brk_run DefaultCircuitBreakerConfig t cb \<and>
     \<not> fst (brk_Reserve (100 * second) (apply_call (CallState (90 * second)) cb))"
proof -
  obtain t cb where r: "brk_run DefaultCircuitBreakerConfig t cb"
    and *: "\<forall>ks. list_all idle_call ks \<longrightarrow>
        fold apply_call ks cb = cb \<and> (\<forall>now. \<not> fst (brk_Reserve now (fold apply_call ks cb)) \<and>
        fst (brk_State now (fold apply_call ks cb)) = BreakerHalfOpen)"
    using half_open_slot_leak by blast
  have "list_all idle_call [CallState (90 * second)]" by simp
  with * have "\<not> fst (brk_Reserve (100 * second) (fold apply_call [CallState (90 * second)] cb))" by blast
  with r show ?thesis by auto
qed

theorem breaker_backoff_witness:
  "\<exists>cb. failed_probes DefaultCircuitBreakerConfig 1 cb \<and> openDuration cb = 2 * second"
proof -
  let ?c = DefaultCircuitBreakerConfig
  let ?cb = "fold apply_call (take 19 leak_run) (NewCircuitBreaker ?c)"
  let ?open = "brk_Record_closed 20 True ?cb"
  have "sorted (0 # concat (map call_times (take 19 leak_run)))" by code_simp
  then have "brk_run ?c (last (0 # concat (map call_times (take 19 leak_run)))) ?cb"
    by (rule brk_run_calls [OF run_new])
  moreover have "last (0 # concat (map call_times (take 19 leak_run))) = 19" by code_simp
  moreover have "state ?cb = BreakerClosed" by code_simp
  moreover have "state ?open = BreakerOpen" by code_simp
  ultimately have "failed_probes ?c 0 ?open" by (intro tripped [of ?c 19]) simp_all
  moreover have "openDuration ?open \<le> time_sub (3 * second) (openedAt ?open)" by code_simp
  ultimately have fp: "failed_probes ?c (Suc 0) (brk_Record (3 * second) (3 * second) OutcomeFailure ?open)"
    by (rule retripped)
  then have "openDuration (brk_Record (3 * second) (3 * second) OutcomeFailure ?open) = 2 * second"
    using breaker_backoff [OF valid_default fp] by (simp add: DefaultCircuitBreakerConfig_def)
  with fp show ?thesis by auto
qed

section \<open>The admission interface\<close>

text \<open>
  What the selectors and the proxies rely on when they consult a breaker: looking at the state is
  idempotent at one clock reading, it reports what \<open>Reserve\<close> will see, a breaker that is not open
  grants unless its probe slots are exhausted, granting never opens it, and a cancellation leaves
  it alone.
\<close>

locale admission =
  fixes look :: "time \<Rightarrow> 'b \<Rightarrow> breaker_state \<times> 'b"
    and reserve :: "time \<Rightarrow> 'b \<Rightarrow> bool \<times> 'b"
    and report :: "time \<Rightarrow> time \<Rightarrow> breaker_outcome \<Rightarrow> 'b \<Rightarrow> 'b"
    and exhausted :: "'b \<Rightarrow> bool"
  assumes look_idem: "look t (snd (look t b)) = (fst (look t b), snd (look t b))"
    and reserve_look: "reserve t (snd (look t b)) = reserve t b"
    and reserve_open: "fst (look t b) = BreakerOpen \<Longrightarrow> reserve t b = (False, snd (look t b))"
    and reserve_closed: "fst (look t b) = BreakerClosed \<Longrightarrow> reserve t b = (True, snd (look t b))"
    and reserve_half: "fst (look t b) = BreakerHalfOpen \<Longrightarrow> fst (reserve t b) \<longleftrightarrow> \<not> exhausted (snd (look t b))"
    and reserve_keeps: "fst (look t (snd (reserve t b))) = fst (look t b)"
    and report_cancel: "report t1 t2 OutcomeCancellation b = b"
begin

text \<open>An upstream that passed the eligibility filter is refused only for want of probe slots.\<close>

lemma eligible_refused:
  assumes "fst (look t b) \<noteq> BreakerOpen" and "\<not> fst (reserve t (snd (look t b)))"
  shows "fst (look t b) = BreakerHalfOpen \<and> exhausted (snd (look t b))"
proof (cases "fst (look t b)")
  case BreakerHalfOpen
  then show ?thesis using assms(2) reserve_half by (simp add: reserve_look)
next
  case BreakerClosed
  then show ?thesis using assms(2) reserve_closed by (simp add: reserve_look)
qed (use assms in simp)

lemma granted_not_open: "fst (reserve t b) \<Longrightarrow> fst (look t b) \<noteq> BreakerOpen"
  using reserve_open by fastforce

end

interpretation gate: admission brk_State brk_Reserve brk_Record
    "\<lambda>cb. halfOpenProbes (cfg cb) \<le> probesAdmitted cb"
  by unfold_locales
    (auto simp: brk split: breaker_state.splits if_splits)

end
