(* ===== verification/GoStrings.thy ===== *)
theory GoStrings
  imports GoPrelude
begin

text \<open>
  The functions of Go's \<^verbatim>\<open>strings\<close>, \<^verbatim>\<open>strconv\<close> and \<^verbatim>\<open>net/http\<close> (header maps, requests) that the
  proxy calls. A Go string is a byte sequence, so it is a \<open>string\<close> (bytes are \<open>char\<close>s). Case
  folding and trimming are those of ASCII, which is what Go does on ASCII input; host names,
  header names and encodings are ASCII.
\<close>

named_theorems str \<open>unfoldings of the string functions, for evaluation\<close>

section \<open>Strings\<close>

definition code_of :: "char \<Rightarrow> nat" where
  "code_of c = of_char c"

definition lower_char :: "char \<Rightarrow> char" where
  "lower_char c = (if 65 \<le> code_of c \<and> code_of c \<le> 90 then char_of (code_of c + 32) else c)"

definition upper_char :: "char \<Rightarrow> char" where
  "upper_char c = (if 97 \<le> code_of c \<and> code_of c \<le> 122 then char_of (code_of c - 32) else c)"

definition to_lower :: "string \<Rightarrow> string" where
  "to_lower s = map lower_char s"

definition has_prefix :: "string \<Rightarrow> string \<Rightarrow> bool" where
  "has_prefix s p \<longleftrightarrow> take (length p) s = p"

definition has_suffix :: "string \<Rightarrow> string \<Rightarrow> bool" where
  "has_suffix s p \<longleftrightarrow> length p \<le> length s \<and> drop (length s - length p) s = p"

definition trim_prefix :: "string \<Rightarrow> string \<Rightarrow> string" where
  "trim_prefix s p = (if has_prefix s p then drop (length p) s else s)"

definition contains_any :: "string \<Rightarrow> string \<Rightarrow> bool" where
  "contains_any s cs \<longleftrightarrow> list_ex (\<lambda>c. List.member cs c) s"

fun last_index_char :: "string \<Rightarrow> char \<Rightarrow> nat option" where
  "last_index_char [] c = None"
| "last_index_char (x # xs) c =
     (case last_index_char xs c of
        Some i \<Rightarrow> Some (Suc i)
      | None \<Rightarrow> if x = c then Some 0 else None)"

fun split_on :: "char \<Rightarrow> string \<Rightarrow> string list" where
  "split_on c [] = [[]]"
| "split_on c (x # xs) =
     (if x = c then [] # split_on c xs
      else case split_on c xs of [] \<Rightarrow> [[x]] | y # ys \<Rightarrow> (x # y) # ys)"

definition is_space :: "char \<Rightarrow> bool" where
  "is_space c \<longleftrightarrow> code_of c = 32 \<or> (9 \<le> code_of c \<and> code_of c \<le> 13)"

definition trim_space :: "string \<Rightarrow> string" where
  "trim_space s = rev (dropWhile is_space (rev (dropWhile is_space s)))"

fun join :: "string \<Rightarrow> string list \<Rightarrow> string" where
  "join sep [] = []"
| "join sep [s] = s"
| "join sep (s # t # ss) = s @ sep @ join sep (t # ss)"

text \<open>\<^verbatim>\<open>strconv.Itoa\<close> and \<^verbatim>\<open>%d\<close>.\<close>

definition digit_char :: "nat \<Rightarrow> char" where
  "digit_char d = char_of (48 + d)"

fun itoa_nat :: "nat \<Rightarrow> string" where
  "itoa_nat n = (if n < 10 then [digit_char n] else itoa_nat (n div 10) @ [digit_char (n mod 10)])"

declare itoa_nat.simps [simp del]

definition itoa :: "int \<Rightarrow> string" where
  "itoa i = (if i < 0 then CHR ''-'' # itoa_nat (nat (- i)) else itoa_nat (nat i))"

text \<open>\<^verbatim>\<open>strconv.ParseInt(s, 10, 64)\<close>: an optional sign, at least one digit, a value in range.\<close>

definition is_digit :: "char \<Rightarrow> bool" where
  "is_digit c \<longleftrightarrow> 48 \<le> code_of c \<and> code_of c \<le> 57"

fun parse_digits :: "int \<Rightarrow> string \<Rightarrow> int option" where
  "parse_digits acc [] = Some acc"
| "parse_digits acc (c # cs) =
     (if is_digit c then parse_digits (10 * acc + int (code_of c) - 48) cs else None)"

definition parse_int64 :: "string \<Rightarrow> int option" where
  "parse_int64 s =
     (let (neg, ds) = (case s of
              [] \<Rightarrow> (False, [])
            | c # cs \<Rightarrow> if c = CHR ''-'' then (True, cs) else if c = CHR ''+'' then (False, cs) else (False, s))
      in if ds = [] then None
         else case parse_digits 0 ds of
                None \<Rightarrow> None
              | Some n \<Rightarrow> (let v = (if neg then - n else n) in if in64 v then Some v else None))"

text \<open>\<^verbatim>\<open>net.SplitHostPort\<close>; \<open>None\<close> is any of its address errors.\<close>

definition split_host_port :: "string \<Rightarrow> (string \<times> string) option" where
  "split_host_port hp =
     (case last_index_char hp (CHR '':'') of
        None \<Rightarrow> None
      | Some i \<Rightarrow>
          if hp ! 0 = CHR ''[''
          then (case index_of (CHR '']'') hp of
                  None \<Rightarrow> None
                | Some e \<Rightarrow>
                    if e + 1 \<noteq> i then None
                    else if List.member (drop 1 hp) (CHR ''['') then None
                    else if List.member (drop (e + 1) hp) (CHR '']'') then None
                    else Some (drop 1 (take e hp), drop (i + 1) hp))
          else if List.member (take i hp) (CHR '':'') then None
          else if List.member hp (CHR ''['') then None
          else if List.member hp (CHR '']'') then None
          else Some (take i hp, drop (i + 1) hp))"

subsection \<open>Lemmas\<close>

lemma has_prefix_append [simp]: "has_prefix (p @ s) p"
  by (simp add: has_prefix_def)

lemma has_prefix_conv: "has_prefix s p \<longleftrightarrow> (\<exists>t. s = p @ t)"
  by (metis append_take_drop_id has_prefix_append has_prefix_def)

lemma has_suffix_append [simp]: "has_suffix (s @ p) p"
  by (simp add: has_suffix_def)

lemma has_suffix_conv: "has_suffix s p \<longleftrightarrow> (\<exists>t. s = t @ p)"
proof
  assume "has_suffix s p"
  then have "s = take (length s - length p) s @ p"
    by (metis append_take_drop_id has_suffix_def)
  then show "\<exists>t. s = t @ p" by blast
qed auto

lemma has_suffix_take: "has_suffix s p \<Longrightarrow> take (length s - length p) s @ p = s"
  by (metis append_take_drop_id has_suffix_def)

lemma contains_any_iff: "contains_any s cs \<longleftrightarrow> (\<exists>c \<in> set s. c \<in> set cs)"
  by (auto simp: contains_any_def list_ex_iff)

lemma lower_char_idem [simp]: "lower_char (lower_char c) = lower_char c"
  by (auto simp: lower_char_def code_of_def)

lemma to_lower_idem [simp]: "to_lower (to_lower s) = to_lower s"
  by (simp add: to_lower_def comp_def)

lemma length_to_lower [simp]: "length (to_lower s) = length s"
  by (simp add: to_lower_def)

lemma last_index_char_None [simp]: "last_index_char s c = None \<longleftrightarrow> c \<notin> set s"
  by (induction s) (auto split: option.splits)

lemma last_index_char_Some:
  "last_index_char s c = Some i \<Longrightarrow> i < length s \<and> s ! i = c \<and> c \<notin> set (drop (Suc i) s)"
proof (induction s arbitrary: i)
  case (Cons x xs)
  then show ?case
    by (cases "last_index_char xs c") (auto split: if_splits)
qed simp

lemma last_index_char_append:
  "c \<notin> set t \<Longrightarrow> last_index_char (s @ c # t) c = Some (length s)"
  by (induction s) (auto split: option.splits)

lemma split_on_nonempty [simp]: "split_on c s \<noteq> []"
  by (cases s) (auto split: list.splits)

lemma split_on_no_sep: "t \<in> set (split_on c s) \<Longrightarrow> c \<notin> set t"
  by (induction s arbitrary: t) (fastforce split: if_splits list.splits)+

lemma join_split_on: "join [c] (split_on c s) = s"
proof (induction s)
  case (Cons x xs)
  then show ?case
    by (cases "split_on c xs" rule: list.exhaust; cases "tl (split_on c xs)") auto
qed simp

lemma split_on_id: "c \<notin> set s \<Longrightarrow> split_on c s = [s]"
  by (induction s) auto

lemma split_on_append: "split_on c (s @ c # t) = split_on c s @ split_on c t"
  by (induction s) (auto split: list.split)

lemma split_on_join:
  "ss \<noteq> [] \<Longrightarrow> \<forall>s \<in> set ss. c \<notin> set s \<Longrightarrow> split_on c (join [c] ss) = ss"
proof (induction ss)
  case (Cons s ss)
  then show ?case by (cases ss) (simp_all add: split_on_id split_on_append)
qed simp

section \<open>HTTP headers and requests\<close>

text \<open>
  \<^verbatim>\<open>http.Header\<close> is a map from canonical header names to value lists; \<^verbatim>\<open>Get\<close>, \<^verbatim>\<open>Set\<close>, \<^verbatim>\<open>Add\<close>, \<^verbatim>\<open>Del\<close>
  and \<^verbatim>\<open>Values\<close> canonicalise the name they are given: the first letter and every letter after a
  hyphen in upper case, the others in lower case, and a name with a byte outside the token
  characters of RFC 7230 unchanged.
\<close>

type_synonym header = "string \<rightharpoonup> string list"

definition is_token_char :: "char \<Rightarrow> bool" where
  "is_token_char c \<longleftrightarrow>
     (65 \<le> code_of c \<and> code_of c \<le> 90) \<or> (97 \<le> code_of c \<and> code_of c \<le> 122) \<or> is_digit c \<or>
     List.member ''!#$%&*+-.^_|~'' c \<or> code_of c = 39 \<or> code_of c = 96"

fun canonicalize :: "bool \<Rightarrow> string \<Rightarrow> string" where
  "canonicalize up [] = []"
| "canonicalize up (c # cs) =
     (if up then upper_char c else lower_char c) # canonicalize (c = CHR ''-'') cs"

definition canonical_key :: "string \<Rightarrow> string" where
  "canonical_key s = (if list_all is_token_char s then canonicalize True s else s)"

definition hdr_values :: "header \<Rightarrow> string \<Rightarrow> string list" where
  "hdr_values h k = (case h (canonical_key k) of None \<Rightarrow> [] | Some vs \<Rightarrow> vs)"

definition hdr_get :: "header \<Rightarrow> string \<Rightarrow> string" where
  "hdr_get h k = (case hdr_values h k of [] \<Rightarrow> [] | v # _ \<Rightarrow> v)"

definition hdr_set :: "header \<Rightarrow> string \<Rightarrow> string \<Rightarrow> header" where
  "hdr_set h k v = h(canonical_key k \<mapsto> [v])"

definition hdr_add :: "header \<Rightarrow> string \<Rightarrow> string \<Rightarrow> header" where
  "hdr_add h k v = h(canonical_key k \<mapsto> hdr_values h k @ [v])"

definition hdr_del :: "header \<Rightarrow> string \<Rightarrow> header" where
  "hdr_del h k = h(canonical_key k := None)"

text \<open>
  The parts of \<^verbatim>\<open>*http.Request\<close> the proxy reads. \<open>rPath\<close> is \<^verbatim>\<open>r.URL.Path\<close> and \<open>rEscapedPath\<close>
  what \<^verbatim>\<open>r.URL.EscapedPath()\<close> returns. A body is absent (nil or \<^verbatim>\<open>http.NoBody\<close>), a reader of some
  bytes, a reader that fails before its end, or a reader that has been closed.
\<close>

datatype body = NoBody | Bytes string | Failing string | ClosedBody

record http_request =
  rMethod :: string
  rHost :: string
  rURLScheme :: string
  rURLHost :: string
  rPath :: string
  rEscapedPath :: string
  rHeader :: header
  rRemoteAddr :: string
  rTLS :: bool
  rBody :: body

text \<open>A plain GET request with the given headers, for concrete instances.\<close>

definition sample_request :: "(string \<times> string list) list \<Rightarrow> http_request" where
  "sample_request hs =
     \<lparr>rMethod = ''GET'', rHost = ''example.com'', rURLScheme = [], rURLHost = [], rPath = ''/'', rEscapedPath = ''/'',
      rHeader = map_of hs, rRemoteAddr = ''10.0.0.1:4711'', rTLS = False, rBody = NoBody\<rparr>"

lemma hdr_values_set [simp]:
  "hdr_values (hdr_set h k v) k' = (if canonical_key k' = canonical_key k then [v] else hdr_values h k')"
  by (simp add: hdr_values_def hdr_set_def)

lemma hdr_values_del [simp]:
  "hdr_values (hdr_del h k) k' = (if canonical_key k' = canonical_key k then [] else hdr_values h k')"
  by (simp add: hdr_values_def hdr_del_def)

lemma hdr_values_add [simp]:
  "hdr_values (hdr_add h k v) k' =
     (if canonical_key k' = canonical_key k then hdr_values h k @ [v] else hdr_values h k')"
  by (simp add: hdr_values_def hdr_add_def)

lemma hdr_get_set [simp]:
  "hdr_get (hdr_set h k v) k' = (if canonical_key k' = canonical_key k then v else hdr_get h k')"
  by (simp add: hdr_get_def)

lemma hdr_get_del [simp]:
  "hdr_get (hdr_del h k) k' = (if canonical_key k' = canonical_key k then [] else hdr_get h k')"
  by (simp add: hdr_get_def)

lemmas [str] = to_lower_def lower_char_def upper_char_def code_of_def has_prefix_def has_suffix_def
  trim_prefix_def trim_space_def is_space_def contains_any_def canonical_key_def is_token_char_def
  is_digit_def hdr_values_def hdr_get_def hdr_set_def hdr_add_def hdr_del_def

lemma canonical_key_example: "canonical_key ''x-REQUEST-id'' = ''X-Request-Id''"
  by code_simp

lemma split_host_port_examples:
  "split_host_port ''10.0.0.1:80'' = Some (''10.0.0.1'', ''80'')" "split_host_port ''[::1]:80'' = Some (''::1'', ''80'')"
  "split_host_port ''::1:80'' = None" "split_host_port ''host'' = None"
  by code_simp+

end
