(* ===== verification/Upstream.thy ===== *)
theory Upstream
  imports Breaker GoStrings
begin

text \<open>
  The unit of selection and the selector interface: \<^verbatim>\<open>internal/lb/upstream.go\<close> and
  \<^verbatim>\<open>internal/lb/selector.go\<close>. An \<^verbatim>\<open>*Upstream\<close> is an address (\<open>uid\<close>) into a store (\<open>heap\<close>), so that
  pointer identity, sharing between pools and the writes of the selectors' eligibility checks
  (\<^verbatim>\<open>Breaker.State()\<close> may move a breaker to half-open) are visible in the model. The locale
  \<open>selector\<close> is the contract of the Go interface \<^verbatim>\<open>Selector\<close>; the five algorithms interpret it.
\<close>

section \<open>Upstreams\<close>

record url =
  uScheme :: string
  uHost :: string
  uPath :: string
  uString :: string

record upstream =
  uURL :: url
  uWeight :: int
  uEligible :: bool
  uInFlight :: int
  uLatencyEWMA :: "64 word"
  uLastUpdate :: int
  uBreaker :: breaker

type_synonym uid = nat
type_synonym heap = "uid \<Rightarrow> upstream"

text \<open>
  \<open>mexp\<close> stands for \<^verbatim>\<open>math.Exp\<close>. Every caller passes a positive half-life. The conversion of the
  weighted mean to \<^verbatim>\<open>uint64\<close> truncates.
\<close>

definition RecordLatency :: "(float64 \<Rightarrow> float64) \<Rightarrow> time \<Rightarrow> duration \<Rightarrow> duration \<Rightarrow> upstream \<Rightarrow> upstream" where
  "RecordLatency mexp now latency halfLife u =
     (let obs = word_of_int latency :: 64 word; last = uLastUpdate u
      in if last = 0
         then u\<lparr>uLatencyEWMA := obs, uLastUpdate := s64 now\<rparr>
         else
           let dt0 = s64 (s64 now - last);
               dt = (if dt0 < 0 then 0 else dt0);
               alpha = fsub 1 (mexp (fdiv (- of_integer dt) (of_integer halfLife)));
               old = uLatencyEWMA u;
               newEWMA = fadd (fmul alpha (of_integer (uint obs))) (fmul (fsub 1 alpha) (of_integer (uint old)))
           in u\<lparr>uLatencyEWMA := word_of_int \<lfloor>newEWMA\<rfloor>, uLastUpdate := s64 now\<rparr>)"

definition LatencyNanos :: "upstream \<Rightarrow> 64 word" where
  "LatencyNanos u = uLatencyEWMA u"

definition EligibleForSelection :: "time \<Rightarrow> upstream \<Rightarrow> bool \<times> upstream" where
  "EligibleForSelection now u =
     (if uEligible u
      then let (st, b) = brk_State now (uBreaker u) in (st \<noteq> BreakerOpen, u\<lparr>uBreaker := b\<rparr>)
      else (False, u))"

section \<open>The eligible set\<close>

fun contains :: "uid list \<Rightarrow> uid \<Rightarrow> bool" where
  "contains [] u = False"
| "contains (x # xs) u = (if x = u then True else contains xs u)"

fun eligibleSet :: "time \<Rightarrow> uid list \<Rightarrow> uid list \<Rightarrow> heap \<Rightarrow> uid list \<times> heap" where
  "eligibleSet now [] exclude h = ([], h)"
| "eligibleSet now (u # us) exclude h =
     (let (ok, up) = EligibleForSelection now (h u);
          (rest, h') = eligibleSet now us exclude (h(u := up))
      in if \<not> ok then (rest, h') else if contains exclude u then (rest, h') else (u # rest, h'))"

text \<open>What the filter decides for one upstream, and the writes a pass over a pool leaves behind.\<close>

definition selectable :: "time \<Rightarrow> upstream \<Rightarrow> bool" where
  "selectable now u \<longleftrightarrow> uEligible u \<and> state (advanceLocked now (uBreaker u)) \<noteq> BreakerOpen"

definition looked :: "time \<Rightarrow> upstream \<Rightarrow> upstream" where
  "looked now u = (if uEligible u then u\<lparr>uBreaker := advanceLocked now (uBreaker u)\<rparr> else u)"

definition look_pool :: "time \<Rightarrow> uid list \<Rightarrow> heap \<Rightarrow> heap" where
  "look_pool now pool h = (\<lambda>u. if u \<in> set pool then looked now (h u) else h u)"

definition candidates :: "time \<Rightarrow> uid list \<Rightarrow> uid list \<Rightarrow> heap \<Rightarrow> uid list" where
  "candidates now pool exclude h = filter (\<lambda>u. selectable now (h u) \<and> u \<notin> set exclude) pool"

lemma set_candidates:
  "u \<in> set (candidates now pool exclude h) \<longleftrightarrow> u \<in> set pool \<and> selectable now (h u) \<and> u \<notin> set exclude"
  by (auto simp: candidates_def)

lemma candidates_in_pool: "u \<in> set (candidates now pool exclude h) \<Longrightarrow> u \<in> set pool"
  by (simp add: set_candidates)

lemma distinct_candidates: "distinct pool \<Longrightarrow> distinct (candidates now pool exclude h)"
  by (simp add: candidates_def)

lemma contains_iff [simp]: "contains xs u \<longleftrightarrow> u \<in> set xs"
  by (induction xs) auto

lemma looked_frame [simp]:
  "uURL (looked now u) = uURL u" "uWeight (looked now u) = uWeight u" "uEligible (looked now u) = uEligible u"
  "uInFlight (looked now u) = uInFlight u" "uLatencyEWMA (looked now u) = uLatencyEWMA u"
  "uLastUpdate (looked now u) = uLastUpdate u"
  by (simp_all add: looked_def)

lemma look_pool_frame [simp]:
  "uURL (look_pool now pool h u) = uURL (h u)" "uWeight (look_pool now pool h u) = uWeight (h u)"
  "uEligible (look_pool now pool h u) = uEligible (h u)" "uInFlight (look_pool now pool h u) = uInFlight (h u)"
  "uLatencyEWMA (look_pool now pool h u) = uLatencyEWMA (h u)"
  "uLastUpdate (look_pool now pool h u) = uLastUpdate (h u)"
  by (simp_all add: look_pool_def)

lemma looked_idem [simp]: "looked now (looked now u) = looked now u"
  by (simp add: looked_def)

lemma selectable_looked [simp]: "selectable now (looked now u) = selectable now u"
  by (auto simp: selectable_def looked_def)

lemma EligibleForSelection_eq: "EligibleForSelection now u = (selectable now u, looked now u)"
  by (simp add: EligibleForSelection_def selectable_def looked_def brk_State_def Let_def)

lemma eligibleSet_eq: "eligibleSet now pool exclude h = (candidates now pool exclude h, look_pool now pool h)"
proof (induction pool arbitrary: h)
  case Nil
  then show ?case by (simp add: look_pool_def candidates_def)
next
  case (Cons u us)
  let ?h = "h(u := looked now (h u))"
  have "candidates now us exclude ?h = candidates now us exclude h"
    unfolding candidates_def by (rule filter_cong) auto
  moreover have "look_pool now us ?h = look_pool now (u # us) h"
    by (auto simp: look_pool_def fun_eq_iff)
  ultimately have "eligibleSet now us exclude ?h = (candidates now us exclude h, look_pool now (u # us) h)"
    using Cons.IH [of ?h] by (simp only:)
  then show ?case by (simp add: EligibleForSelection_eq candidates_def)
qed

lemma candidates_look_pool [simp]: "candidates now pool ex (look_pool now pool h) = candidates now pool ex h"
  unfolding candidates_def by (rule filter_cong) (auto simp: look_pool_def)

section \<open>The selector interface\<close>

text \<open>
  The outcomes of \<^verbatim>\<open>Pick\<close>: an upstream, the error \<^verbatim>\<open>ErrNoEligibleUpstream\<close>, a nil upstream with a
  nil error, or a panic. The last two are what a caller of \<^verbatim>\<open>Pick\<close> is not prepared for.
\<close>

datatype pick_result = Picked uid | NoEligibleUpstream | PickedNil | PickPanic

text \<open>
  \<open>n\<close> consecutive picks at one clock reading, collecting their results.
\<close>

fun picks :: "(time \<Rightarrow> uid list \<Rightarrow> 's \<Rightarrow> heap \<Rightarrow> pick_result \<times> 's \<times> heap) \<Rightarrow>
    nat \<Rightarrow> time \<Rightarrow> uid list \<Rightarrow> 's \<Rightarrow> heap \<Rightarrow> pick_result list \<times> 's" where
  "picks pick 0 now ex s h = ([], s)"
| "picks pick (Suc n) now ex s h =
     (let (p, s', h') = pick now ex s h; (ps, s'') = picks pick n now ex s' h' in (p # ps, s''))"

text \<open>
  \<open>pick e now exclude s h\<close>: one call of \<^verbatim>\<open>Pick\<close> on the selector state \<open>s\<close>, at clock reading \<open>now\<close>,
  with the hint's exclude list; \<open>e\<close> is what the algorithm takes from its environment (the
  request, its random draws). \<open>ready\<close> is the selector's invariant; \<open>draws\<close> says that the random
  draws are in the range asked for.
\<close>

locale selector =
  fixes pick :: "'e \<Rightarrow> time \<Rightarrow> uid list \<Rightarrow> 's \<Rightarrow> heap \<Rightarrow> pick_result \<times> 's \<times> heap"
    and pool :: "'s \<Rightarrow> uid list"
    and ready :: "'s \<Rightarrow> heap \<Rightarrow> bool"
    and draws :: "'e \<Rightarrow> nat \<Rightarrow> bool"
  assumes sound: "fst (pick e now ex s h) = Picked u \<Longrightarrow> u \<in> set (candidates now (pool s) ex h)"
    and empty: "candidates now (pool s) ex h = [] \<Longrightarrow> fst (pick e now ex s h) = NoEligibleUpstream"
    and progress: "\<lbrakk> ready s h; candidates now (pool s) ex h \<noteq> [];
        draws e (length (candidates now (pool s) ex h)) \<rbrakk> \<Longrightarrow> \<exists>u. fst (pick e now ex s h) = Picked u"
    and writes: "snd (snd (pick e now ex s h)) = look_pool now (pool s) h"
    and pool_fixed: "pool (fst (snd (pick e now ex s h))) = pool s"
    and ready_kept: "ready s h \<Longrightarrow> ready (fst (snd (pick e now ex s h))) (snd (snd (pick e now ex s h)))"
begin

lemma picked_healthy:
  assumes "fst (pick e now ex s h) = Picked u"
  shows "u \<in> set (pool s) \<and> u \<notin> set ex \<and> uEligible (h u) \<and>
    fst (brk_State now (uBreaker (h u))) \<noteq> BreakerOpen"
  using sound [OF assms] by (auto simp: set_candidates selectable_def brk_State_def Let_def)

lemma picked_iff:
  assumes "ready s h" and "draws e (length (candidates now (pool s) ex h))"
  shows "(\<exists>u. fst (pick e now ex s h) = Picked u) \<longleftrightarrow> candidates now (pool s) ex h \<noteq> []"
proof
  assume "\<exists>u. fst (pick e now ex s h) = Picked u"
  then show "candidates now (pool s) ex h \<noteq> []" using empty [where e = e and now = now and s = s and ex = ex and h = h] by auto
next
  assume "candidates now (pool s) ex h \<noteq> []"
  then show "\<exists>u. fst (pick e now ex s h) = Picked u" using assms by (intro progress)
qed

text \<open>
  A sequence of picks that each exclude the upstreams of the earlier ones, as the retry middleware
  makes them; between two picks the store and the clock may change in any way, the selector's pool
  may not.
\<close>

inductive attempts :: "uid list \<Rightarrow> uid list \<Rightarrow> bool" for p where
  no_attempt: "attempts p []"
| next_attempt: "\<lbrakk> attempts p us; pool s = p; fst (pick e now us s h) = Picked u \<rbrakk> \<Longrightarrow> attempts p (us @ [u])"

lemma attempts_distinct: "attempts p us \<Longrightarrow> distinct us \<and> set us \<subseteq> set p"
proof (induction rule: attempts.induct)
  case (next_attempt us s e now h u)
  then show ?case using picked_healthy by fastforce
qed simp

lemma attempts_bounded: "attempts p us \<Longrightarrow> length us \<le> card (set p)"
  using attempts_distinct by (metis List.finite_set card_mono distinct_card)

end

text \<open>A healthy upstream with a fresh default breaker, for concrete instances.\<close>

definition sample_upstream :: "string \<Rightarrow> int \<Rightarrow> upstream" where
  "sample_upstream name w =
     \<lparr>uURL = \<lparr>uScheme = ''http'', uHost = name, uPath = [], uString = ''http://'' @ name\<rparr>,
      uWeight = w, uEligible = True, uInFlight = 0, uLatencyEWMA = 0, uLastUpdate = 0,
      uBreaker = NewCircuitBreaker DefaultCircuitBreakerConfig\<rparr>"

lemma selectable_sample [simp]: "selectable now (sample_upstream name w)"
  by (simp add: selectable_def sample_upstream_def NewCircuitBreaker_def)

end
