(* ===== verification/RoundRobin.thy ===== *)
theory RoundRobin
  imports Upstream
begin

text \<open>
  The round-robin selector of \<^verbatim>\<open>internal/lb/roundrobin.go\<close>. The counter is an \<^verbatim>\<open>atomic.Uint64\<close>: a
  64-bit word whose increment wraps around.
\<close>

section \<open>Model\<close>

record round_robin =
  rr_pool :: "uid list"
  rr_counter :: "64 word"

definition NewRoundRobin :: "uid list \<Rightarrow> round_robin" where
  "NewRoundRobin pool = \<lparr>rr_pool = pool, rr_counter = 0\<rparr>"

definition rr_Pick :: "unit \<Rightarrow> time \<Rightarrow> uid list \<Rightarrow> round_robin \<Rightarrow> heap \<Rightarrow> pick_result \<times> round_robin \<times> heap" where
  "rr_Pick _ now exclude r h =
     (let (eligible, h') = eligibleSet now (rr_pool r) exclude h
      in case eligible of
           [] \<Rightarrow> (NoEligibleUpstream, r, h')
         | [u] \<Rightarrow> (Picked u, r, h')
         | _ \<Rightarrow> (let c = rr_counter r + 1; idx = unat c mod length eligible
                in (Picked (eligible ! idx), r\<lparr>rr_counter := c\<rparr>, h')))"

section \<open>Properties\<close>

lemma rr_Pick_many:
  assumes "Suc 0 < length (candidates now (rr_pool r) ex h)"
  shows "rr_Pick e now ex r h =
    (Picked (candidates now (rr_pool r) ex h ! (unat (rr_counter r + 1) mod length (candidates now (rr_pool r) ex h))),
     r\<lparr>rr_counter := rr_counter r + 1\<rparr>, look_pool now (rr_pool r) h)"
  using assms by (auto simp: rr_Pick_def eligibleSet_eq Let_def split: list.splits)

interpretation rr: selector rr_Pick rr_pool "\<lambda>_ _. True" "\<lambda>_ _. True"
proof unfold_locales
  fix e now ex s h u
  assume *: "fst (rr_Pick e now ex s h) = Picked u"
  let ?c = "candidates now (rr_pool s) ex h"
  show "u \<in> set ?c"
  proof (cases "Suc 0 < length ?c")
    case True
    then have "unat (rr_counter s + 1) mod length ?c < length ?c" by (intro mod_less_divisor) linarith
    then show ?thesis using * rr_Pick_many [OF True, of e] nth_mem by fastforce
  next
    case False
    with * show ?thesis by (auto simp: rr_Pick_def eligibleSet_eq Let_def split: list.splits)
  qed
qed (auto simp: rr_Pick_def eligibleSet_eq Let_def split: list.splits)

lemma rr_picks_eq:
  assumes "Suc 0 < length (candidates now (rr_pool r) ex h)"
    and "unat (rr_counter r) + n < 2 ^ 64"
  shows "picks (rr_Pick ()) n now ex r h =
    (map (\<lambda>i. Picked (candidates now (rr_pool r) ex h ! ((unat (rr_counter r) + Suc i) mod
        length (candidates now (rr_pool r) ex h)))) [0..<n],
     r\<lparr>rr_counter := rr_counter r + of_nat n\<rparr>)"
  using assms
proof (induction n arbitrary: r h)
  case (Suc n)
  let ?c = "candidates now (rr_pool r) ex h"
  let ?r = "r\<lparr>rr_counter := rr_counter r + 1\<rparr>" and ?h = "look_pool now (rr_pool r) h"
  have u: "unat (rr_counter r + 1) = unat (rr_counter r) + 1"
    using Suc.prems(2) by (simp add: unat_word_ariths)
  have "picks (rr_Pick ()) n now ex ?r ?h =
    (map (\<lambda>i. Picked (candidates now (rr_pool ?r) ex ?h ! ((unat (rr_counter ?r) + Suc i) mod
        length (candidates now (rr_pool ?r) ex ?h)))) [0..<n], ?r\<lparr>rr_counter := rr_counter ?r + of_nat n\<rparr>)"
    using Suc.prems u by (intro Suc.IH) simp_all
  then have "picks (rr_Pick ()) n now ex ?r ?h =
    (map (\<lambda>i. Picked (?c ! ((unat (rr_counter r) + Suc (Suc i)) mod length ?c))) [0..<n],
     r\<lparr>rr_counter := rr_counter r + of_nat (Suc n)\<rparr>)"
    by (simp add: u add.assoc)
  then show ?case
    using rr_Pick_many [OF Suc.prems(1), of "()"] u
    by (simp add: map_upt_Suc del: upt_Suc)
qed simp

lemma rotation_bij:
  assumes "0 < (n :: nat)"
  shows "bij_betw (\<lambda>i. (a + i) mod n) {0..<n} {0..<n}"
proof -
  have le: "i = j" if "i \<le> j" "j < n" "(a + i) mod n = (a + j) mod n" for i j
  proof -
    have "n dvd (a + j) - (a + i)" using that by (intro mod_eq_dvd_iff_nat [THEN iffD1]) simp_all
    then have "n dvd j - i" by simp
    moreover have "j - i < n" using that by simp
    ultimately have "j - i = 0" by (metis dvd_imp_le not_less zero_less_iff_neq_zero)
    with that(1) show ?thesis by simp
  qed
  have "inj_on (\<lambda>i. (a + i) mod n) {0..<n}"
  proof (rule inj_onI)
    fix i j assume "i \<in> {0..<n}" "j \<in> {0..<n}" "(a + i) mod n = (a + j) mod n"
    then show "i = j" using le [of i j] le [of j i] by (cases "i \<le> j") simp_all
  qed
  moreover have "(\<lambda>i. (a + i) mod n) ` {0..<n} \<subseteq> {0..<n}" using assms by auto
  ultimately show ?thesis by (simp add: bij_betw_def endo_inj_surj)
qed

text \<open>
  (C38) Fairness of round-robin: as long as the candidates stay the same and the 64-bit counter does
  not wrap, any window of as many consecutive picks as there are candidates (at least two) picks
  each of them exactly once.
\<close>

theorem round_robin_fair:
  assumes "candidates now (rr_pool r) ex h = cs" and "Suc 0 < length cs"
    and "unat (rr_counter r) + length cs < 2 ^ 64"
  shows "mset (fst (picks (rr_Pick ()) (length cs) now ex r h)) = mset (map Picked cs)"
proof -
  let ?n = "length cs" and ?a = "Suc (unat (rr_counter r))"
  have bij: "bij_betw (\<lambda>i. (?a + i) mod ?n) {0..<?n} {0..<?n}"
    using assms(2) by (intro rotation_bij) linarith
  have "fst (picks (rr_Pick ()) ?n now ex r h) = map (\<lambda>i. Picked (cs ! ((?a + i) mod ?n))) [0..<?n]"
    using rr_picks_eq [of now r ex h ?n] assms by simp
  also have "mset \<dots> = image_mset (\<lambda>i. Picked (cs ! i)) (image_mset (\<lambda>i. (?a + i) mod ?n) (mset_set {0..<?n}))"
    by (simp add: image_mset.compositionality comp_def mset_upt [symmetric] del: mset_upt)
  also have "image_mset (\<lambda>i. (?a + i) mod ?n) (mset_set {0..<?n}) = mset_set {0..<?n}"
    using bij by (simp add: bij_betw_def image_mset_mset_set)
  also have "image_mset (\<lambda>i. Picked (cs ! i)) (mset_set {0..<?n}) = mset (map (\<lambda>i. Picked (cs ! i)) [0..<?n])"
    by simp
  also have "map (\<lambda>i. Picked (cs ! i)) [0..<?n] = map Picked cs"
    by (rule nth_equalityI) simp_all
  finally show ?thesis .
qed

theorem round_robin_fair_witness:
  "mset (fst (picks (rr_Pick ()) 3 0 [] (NewRoundRobin [7, 8, 9]) (\<lambda>_. sample_upstream ''a'' 1)))
   = mset [Picked 7, Picked 8, Picked 9]"
  using round_robin_fair [of 0 "NewRoundRobin [7, 8, 9]" "[]" "\<lambda>_. sample_upstream ''a'' 1" "[7, 8, 9]"]
  by (simp add: NewRoundRobin_def candidates_def numeral_3_eq_3)

end
