(* ===== verification/Weighted.thy ===== *)
theory Weighted
  imports Upstream
begin

text \<open>
  The smooth weighted round-robin selector of \<^verbatim>\<open>internal/lb/weighted.go\<close>. \<open>w_cw\<close> is the
  \<^verbatim>\<open>current_weight\<close> slice, parallel to the pool; its \<^verbatim>\<open>int64\<close> additions wrap around. The loop over the
  eligible upstreams is \<open>wrr_scan\<close>, with the running weight sum, the best candidate so far (its
  upstream and its pool index) and the slice as its state.
\<close>

section \<open>Model\<close>

record weighted_round_robin =
  w_pool :: "uid list"
  w_cw :: "int list"

definition NewWeightedRoundRobin :: "uid list \<Rightarrow> weighted_round_robin" where
  "NewWeightedRoundRobin pool = \<lparr>w_pool = pool, w_cw = replicate (length pool) 0\<rparr>"

fun wrr_scan :: "uid list \<Rightarrow> heap \<Rightarrow> uid list \<Rightarrow> int \<Rightarrow> (uid \<times> nat) option \<Rightarrow> int list
    \<Rightarrow> int \<times> (uid \<times> nat) option \<times> int list" where
  "wrr_scan pool h [] sumWeight best cw = (sumWeight, best, cw)"
| "wrr_scan pool h (u # us) sumWeight best cw =
     (if uWeight (h u) \<le> 0 then wrr_scan pool h us sumWeight best cw
      else case index_of u pool of
             None \<Rightarrow> wrr_scan pool h us sumWeight best cw
           | Some idx \<Rightarrow>
               (let sumWeight' = s64 (sumWeight + uWeight (h u));
                    cw' = cw[idx := s64 (cw ! idx + uWeight (h u))];
                    best' = (case best of
                               None \<Rightarrow> Some (u, idx)
                             | Some (b, bestIx) \<Rightarrow> if cw' ! bestIx < cw' ! idx then Some (u, idx) else best)
                in wrr_scan pool h us sumWeight' best' cw'))"

definition wrr_Pick ::
  "unit \<Rightarrow> time \<Rightarrow> uid list \<Rightarrow> weighted_round_robin \<Rightarrow> heap \<Rightarrow> pick_result \<times> weighted_round_robin \<times> heap" where
  "wrr_Pick _ now exclude w h =
     (let (eligible, h') = eligibleSet now (w_pool w) exclude h
      in case eligible of
           [] \<Rightarrow> (NoEligibleUpstream, w, h')
         | [u] \<Rightarrow> (Picked u, w, h')
         | _ \<Rightarrow>
             (case wrr_scan (w_pool w) h' eligible 0 None (w_cw w) of
                (sumWeight, None, cw) \<Rightarrow> (NoEligibleUpstream, w\<lparr>w_cw := cw\<rparr>, h')
              | (sumWeight, Some (u, ix), cw) \<Rightarrow>
                  (Picked u, w\<lparr>w_cw := cw[ix := s64 (cw ! ix - sumWeight)]\<rparr>, h')))"

section \<open>The scan\<close>

definition pos :: "uid list \<Rightarrow> uid \<Rightarrow> nat" where
  "pos pool u = the (index_of u pool)"

lemma pos_Some: "u \<in> set pool \<Longrightarrow> index_of u pool = Some (pos pool u)"
  by (cases "index_of u pool") (simp_all add: pos_def)

lemma pos_less: "u \<in> set pool \<Longrightarrow> pos pool u < length pool"
  by (drule pos_Some) (auto dest: index_of_SomeD)

lemma nth_pos: "u \<in> set pool \<Longrightarrow> pool ! pos pool u = u"
  by (drule pos_Some) (auto dest: index_of_SomeD)

lemma pos_inject: "u \<in> set pool \<Longrightarrow> v \<in> set pool \<Longrightarrow> pos pool u = pos pool v \<longleftrightarrow> u = v"
  by (metis nth_pos)

lemma wrr_scan_weights:
  "uWeight \<circ> h = uWeight \<circ> h' \<Longrightarrow> wrr_scan pool h us sm best cw = wrr_scan pool h' us sm best cw"
  by (induction us arbitrary: sm best cw) (simp_all add: fun_eq_iff Let_def cong: option.case_cong)

lemma wrr_scan_look [simp]:
  "wrr_scan pool (look_pool now p h) us sm best cw = wrr_scan pool h us sm best cw"
  by (rule wrr_scan_weights) (simp add: fun_eq_iff)

lemma wrr_scan_length: "length (snd (snd (wrr_scan pool h us sm best cw))) = length cw"
  by (induction us arbitrary: sm best cw) (simp_all add: Let_def split: option.split)

lemma wrr_scan_skip:
  "uWeight (h v) \<le> 0 \<or> v \<notin> set pool \<Longrightarrow> wrr_scan pool h (v # us) sm best cw = wrr_scan pool h us sm best cw"
  by (cases "index_of v pool") (auto simp del: index_of_None_iff simp: index_of_None_iff [symmetric])

lemma wrr_scan_best_in:
  "fst (snd (wrr_scan pool h us sm best cw)) \<in> insert best (Some ` (set us \<times> UNIV))"
proof (induction us arbitrary: sm best cw)
  case (Cons v us)
  show ?case
  proof (cases "uWeight (h v) \<le> 0 \<or> v \<notin> set pool")
    case True
    then show ?thesis using Cons.IH [of sm best cw] by (auto simp only: wrr_scan_skip list.set)
  next
    case False
    then obtain i where i: "index_of v pool = Some i" using pos_Some by blast
    define cw' where "cw' = cw[i := s64 (cw ! i + uWeight (h v))]"
    define best' where "best' = (case best of None \<Rightarrow> Some (v, i)
        | Some (b, ix) \<Rightarrow> if cw' ! ix < cw' ! i then Some (v, i) else best)"
    have "best' = best \<or> best' = Some (v, i)" by (auto simp: best'_def split: option.splits)
    then show ?thesis
      using Cons.IH [of "s64 (sm + uWeight (h v))" best' cw'] False i
      by (auto simp: Let_def cw'_def [symmetric] best'_def [symmetric])
  qed
qed simp

lemma wrr_scan_best_ex:
  "best \<noteq> None \<or> (\<exists>u \<in> set us. u \<in> set pool \<and> 0 < uWeight (h u))
   \<Longrightarrow> fst (snd (wrr_scan pool h us sm best cw)) \<noteq> None"
proof (induction us arbitrary: sm best cw)
  case (Cons v us)
  show ?case
  proof (cases "uWeight (h v) \<le> 0 \<or> v \<notin> set pool")
    case True
    with Cons.prems have "best \<noteq> None \<or> (\<exists>u \<in> set us. u \<in> set pool \<and> 0 < uWeight (h u))" by auto
    then show ?thesis using True Cons.IH by (simp only: wrr_scan_skip not_False_eq_True)
  next
    case False
    then obtain i where "index_of v pool = Some i" using pos_Some by blast
    with False show ?thesis by (auto simp: Let_def split: option.split simp del: not_None_eq intro!: Cons.IH)
  qed
qed simp

lemma wrr_scan_frame:
  assumes "wrr_scan pool h us sm best cw = (sm', best', cw')"
  shows "length cw' = length cw"
    and "best' = Some (u, ix) \<Longrightarrow> best = Some (u, ix) \<or> u \<in> set us"
    and "best \<noteq> None \<or> (\<exists>u \<in> set us. u \<in> set pool \<and> 0 < uWeight (h u)) \<Longrightarrow> best' \<noteq> None"
  using wrr_scan_length [of pool h us sm best cw] wrr_scan_best_in [of pool h us sm best cw]
    wrr_scan_best_ex [of best us pool h sm cw] by (auto simp: assms)

definition wrr_ready :: "weighted_round_robin \<Rightarrow> heap \<Rightarrow> bool" where
  "wrr_ready w h \<longleftrightarrow> length (w_cw w) = length (w_pool w) \<and> (\<forall>u \<in> set (w_pool w). 0 < uWeight (h u))"

lemma wrr_Pick_many:
  assumes "Suc 0 < length (candidates now (w_pool w) ex h)"
    and "wrr_scan (w_pool w) h (candidates now (w_pool w) ex h) 0 None (w_cw w) = (sm, best, cw)"
  shows "wrr_Pick e now ex w h =
    (case best of None \<Rightarrow> (NoEligibleUpstream, w\<lparr>w_cw := cw\<rparr>, look_pool now (w_pool w) h)
     | Some (u, ix) \<Rightarrow> (Picked u, w\<lparr>w_cw := cw[ix := s64 (cw ! ix - sm)]\<rparr>, look_pool now (w_pool w) h))"
  using assms by (auto simp: wrr_Pick_def eligibleSet_eq simp del: wrr_scan.simps split: list.splits option.splits)

lemma wrr_Pick_few:
  assumes "\<not> Suc 0 < length (candidates now (w_pool w) ex h)"
  shows "wrr_Pick e now ex w h =
    (case candidates now (w_pool w) ex h of [] \<Rightarrow> NoEligibleUpstream | u # _ \<Rightarrow> Picked u, w, look_pool now (w_pool w) h)"
  using assms by (auto simp: wrr_Pick_def eligibleSet_eq split: list.splits)

interpretation wrr: selector wrr_Pick w_pool wrr_ready "\<lambda>_ _. True"
proof unfold_locales
  fix e now ex s h
  let ?c = "candidates now (w_pool s) ex h" and ?p = "wrr_Pick e now ex s h"
  obtain sm best cw where scan: "wrr_scan (w_pool s) h ?c 0 None (w_cw s) = (sm, best, cw)"
    by (metis prod_cases3)
  note fr = wrr_scan_frame [OF scan]
  have cases: "if Suc 0 < length ?c
    then ?p = (case best of None \<Rightarrow> (NoEligibleUpstream, s\<lparr>w_cw := cw\<rparr>, look_pool now (w_pool s) h)
     | Some (u, ix) \<Rightarrow> (Picked u, s\<lparr>w_cw := cw[ix := s64 (cw ! ix - sm)]\<rparr>, look_pool now (w_pool s) h))
    else ?p = (case ?c of [] \<Rightarrow> NoEligibleUpstream | u # _ \<Rightarrow> Picked u, s, look_pool now (w_pool s) h)"
    using wrr_Pick_many [OF _ scan] wrr_Pick_few [of now s ex h] by auto
  show "u \<in> set ?c" if "fst ?p = Picked u" for u
    using that cases fr(2) by (auto split: if_splits option.splits list.splits)
  show "fst ?p = NoEligibleUpstream" if "?c = []" using that cases by simp
  show "\<exists>u. fst ?p = Picked u" if "wrr_ready s h" "?c \<noteq> []"
  proof (cases "Suc 0 < length ?c")
    case True
    have "hd ?c \<in> set ?c" using that(2) by simp
    moreover have "hd ?c \<in> set (w_pool s)" using calculation by (rule candidates_in_pool)
    ultimately have "best \<noteq> None" using that(1) fr(3) by (auto simp: wrr_ready_def)
    then show ?thesis using True cases by auto
  qed (use that cases in \<open>auto split: list.splits\<close>)
  show "snd (snd ?p) = look_pool now (w_pool s) h" "w_pool (fst (snd ?p)) = w_pool s"
    using cases by (auto split: if_splits option.splits)
  show "wrr_ready (fst (snd ?p)) (snd (snd ?p))" if "wrr_ready s h"
    using that cases fr(1) by (auto simp: wrr_ready_def split: if_splits option.splits)
qed

section \<open>Smoothness\<close>

text \<open>
  What a scan computes when no addition overflows: every scanned slot grows by its upstream's
  weight, and the best candidate has the largest of them.
\<close>

lemma wrr_scan_spec:
  assumes "wrr_scan pool h us sm best cw = (sm', best', cw')"
    and "distinct us" and "set us \<subseteq> set pool" and "length cw = length pool"
    and "\<forall>u \<in> set us. 0 < uWeight (h u) \<and> in64 (cw ! pos pool u + uWeight (h u))"
    and "0 \<le> sm" and "sm + (\<Sum>u \<leftarrow> us. uWeight (h u)) < 2 ^ 63"
    and "\<forall>b ix. best = Some (b, ix) \<longrightarrow> ix = pos pool b \<and> b \<in> set pool - set us"
  shows "sm' = sm + (\<Sum>u \<leftarrow> us. uWeight (h u)) \<and> length cw' = length pool \<and>
    (\<forall>u \<in> set pool. cw' ! pos pool u = cw ! pos pool u + (if u \<in> set us then uWeight (h u) else 0)) \<and>
    (\<forall>b ix. best' = Some (b, ix) \<longrightarrow> ix = pos pool b \<and>
       (\<forall>v \<in> set us \<union> fst ` set_option best. cw' ! pos pool v \<le> cw' ! ix))"
  using assms
proof (induction us arbitrary: sm best cw)
  case (Cons u us)
  let ?w = "uWeight (h u)" and ?i = "pos pool u"
  let ?cw = "cw[?i := cw ! ?i + ?w]"
  define bst where "bst = (case best of None \<Rightarrow> Some (u, ?i)
      | Some (b, ix) \<Rightarrow> if ?cw ! ix < ?cw ! ?i then Some (u, ?i) else best)"
  have u: "u \<in> set pool" "?i < length pool" "u \<notin> set us" using Cons.prems by (auto intro: pos_less)
  have tail: "0 \<le> (\<Sum>u \<leftarrow> us. uWeight (h u))"
    using Cons.prems(5) by (intro sum_list_nonneg) auto
  have nth: "?cw ! pos pool v = cw ! pos pool v + (if v = u then ?w else 0)" if "v \<in> set pool" for v
    using that u Cons.prems(4) pos_inject [of v pool u] by (auto simp: nth_list_update)
  have step: "wrr_scan pool h us (sm + ?w) bst ?cw = (sm', best', cw')"
    using Cons.prems(1,5,6,7) u tail
    by (simp add: pos_Some s64_id in64_def bst_def Let_def)
  have "sm' = sm + ?w + (\<Sum>u \<leftarrow> us. uWeight (h u)) \<and> length cw' = length pool \<and>
    (\<forall>v \<in> set pool. cw' ! pos pool v = ?cw ! pos pool v + (if v \<in> set us then uWeight (h v) else 0)) \<and>
    (\<forall>b ix. best' = Some (b, ix) \<longrightarrow> ix = pos pool b \<and>
       (\<forall>v \<in> set us \<union> fst ` set_option bst. cw' ! pos pool v \<le> cw' ! ix))"
  proof (rule Cons.IH [OF step])
    show "\<forall>v \<in> set us. 0 < uWeight (h v) \<and> in64 (?cw ! pos pool v + uWeight (h v))"
    proof
      fix v assume v: "v \<in> set us"
      then have "?cw ! pos pool v = cw ! pos pool v" using nth [of v] u Cons.prems(3) by auto
      then show "0 < uWeight (h v) \<and> in64 (?cw ! pos pool v + uWeight (h v))" using Cons.prems(5) v by auto
    qed
    show "\<forall>b ix. bst = Some (b, ix) \<longrightarrow> ix = pos pool b \<and> b \<in> set pool - set us"
      using Cons.prems(8) u by (auto simp: bst_def split: option.splits if_splits)
  qed (use Cons.prems in auto)
  note ih = this
  have new: "cw' ! pos pool v \<le> cw' ! ix" if "best' = Some (b, ix)" "v \<in> insert u (fst ` set_option best)" for b ix v
  proof -
    have "bst \<noteq> None" by (auto simp: bst_def split: option.splits)
    then obtain x j where bst: "bst = Some (x, j)" by auto
    then have x: "cw' ! pos pool x \<le> cw' ! ix" using ih that(1) by auto
    have xj: "j = pos pool x \<and> x \<in> set pool - set us \<and> ?cw ! pos pool v \<le> ?cw ! j \<and> v \<in> set pool - set us"
      using bst Cons.prems(8) that(2) u unfolding bst_def by (auto split: option.splits if_splits)
    then have "cw' ! pos pool v = ?cw ! pos pool v" "cw' ! j = ?cw ! j" using ih by auto
    then show ?thesis using x xj by auto
  qed
  have "cw' ! pos pool v \<le> cw' ! ix"
    if "best' = Some (b, ix)" "v \<in> set (u # us) \<union> fst ` set_option best" for b ix v
    using that new [OF that(1), of v] ih by auto
  then have "\<forall>b ix. best' = Some (b, ix) \<longrightarrow> ix = pos pool b \<and>
       (\<forall>v \<in> set (u # us) \<union> fst ` set_option best. cw' ! pos pool v \<le> cw' ! ix)"
    using ih by blast
  moreover have "\<forall>v \<in> set pool. cw' ! pos pool v = cw ! pos pool v + (if v \<in> set (u # us) then uWeight (h v) else 0)"
    using ih nth u(3) by auto
  moreover have "sm' = sm + (\<Sum>u \<leftarrow> u # us. uWeight (h u)) \<and> length cw' = length pool"
    using ih by simp
  ultimately show ?case by blast
qed simp

text \<open>
  \<open>balanced\<close>: over the candidates \<open>cs\<close> the current weights sum to zero and none is as low as
  minus the total weight. A fresh selector is balanced, and a pick keeps it so.
\<close>

definition balanced :: "uid list \<Rightarrow> heap \<Rightarrow> weighted_round_robin \<Rightarrow> bool" where
  "balanced cs h w \<longleftrightarrow>
     length (w_cw w) = length (w_pool w) \<and>
     (\<Sum>u \<leftarrow> cs. w_cw w ! pos (w_pool w) u) = 0 \<and>
     (\<forall>u \<in> set cs. - (\<Sum>v \<leftarrow> cs. uWeight (h v)) < w_cw w ! pos (w_pool w) u)"

definition wrr_stable :: "time \<Rightarrow> uid list \<Rightarrow> uid list \<Rightarrow> weighted_round_robin \<Rightarrow> heap \<Rightarrow> bool" where
  "wrr_stable now ex cs w h \<longleftrightarrow>
     candidates now (w_pool w) ex h = cs \<and> Suc 0 < length cs \<and> distinct (w_pool w) \<and>
     (\<forall>u \<in> set cs. 0 < uWeight (h u)) \<and> int (length cs) * (\<Sum>u \<leftarrow> cs. uWeight (h u)) < 2 ^ 62"

lemma sum_list_le_card:
  "\<forall>x \<in> set xs. (f x :: int) \<le> b \<Longrightarrow> sum_list (map f xs) \<le> int (length xs) * b"
  by (induction xs) (auto simp: algebra_simps)

lemma sum_list_upper:
  assumes "x \<in> set xs" and "sum_list (map f xs) = (0 :: int)" and "\<forall>y \<in> set xs. - b < f y" and "0 \<le> b"
  shows "f x \<le> int (length xs) * b"
proof -
  have "f x = - (sum_list (map f (remove1 x xs)))"
    using sum_list_map_remove1 [OF assms(1), of f] assms(2) by simp
  also have "\<dots> = sum_list (map (\<lambda>y. - f y) (remove1 x xs))" by (simp add: uminus_sum_list_map comp_def)
  also have "\<dots> \<le> int (length (remove1 x xs)) * b"
    using assms(3) set_remove1_subset [of x xs] by (intro sum_list_le_card) fastforce
  also have "\<dots> \<le> int (length xs) * b"
    using assms(4) by (intro mult_right_mono) (simp_all add: length_remove1)
  finally show ?thesis .
qed

lemma sum_list_ex_pos: "0 < sum_list (map f xs) \<Longrightarrow> \<exists>x \<in> set xs. (0 :: int) < f x"
  using sum_list_le_card [of xs f 0] by (rule_tac ccontr) (auto simp: not_less)

lemma sum_list_update_one:
  "distinct xs \<Longrightarrow> b \<in> set xs \<Longrightarrow>
   (\<Sum>x \<leftarrow> xs. f x - (if x = b then (c :: int) else 0)) = sum_list (map f xs) - c"
proof (induction xs)
  case (Cons x xs)
  have "b \<notin> set xs \<Longrightarrow> (\<Sum>x \<leftarrow> xs. f x - (if x = b then c else 0)) = sum_list (map f xs)"
    by (rule arg_cong [where f = sum_list]) auto
  with Cons show ?case by auto
qed simp

lemma wrr_bounds:
  assumes "\<forall>u \<in> set cs. 0 < uWeight (h u)" and "int (length cs) * (\<Sum>v \<leftarrow> cs. uWeight (h v)) < 2 ^ 62" and "Suc 0 < length cs"
    and "(\<Sum>u \<leftarrow> cs. c u) = 0" and "\<forall>u \<in> set cs. - (\<Sum>v \<leftarrow> cs. uWeight (h v)) < c u"
  shows "0 < (\<Sum>v \<leftarrow> cs. uWeight (h v))" "(\<Sum>v \<leftarrow> cs. uWeight (h v)) < 2 ^ 62"
    "u \<in> set cs \<Longrightarrow> uWeight (h u) \<le> (\<Sum>v \<leftarrow> cs. uWeight (h v))" "u \<in> set cs \<Longrightarrow> c u < 2 ^ 62"
proof -
  let ?W = "\<Sum>v \<leftarrow> cs. uWeight (h v)"
  have W0: "0 \<le> ?W" using assms(1) by (intro sum_list_nonneg) auto
  have "?W \<le> int (length cs) * ?W" using mult_right_mono [OF _ W0, of 1 "int (length cs)"] assms(3) by simp
  then show "?W < 2 ^ 62" using assms(2) by linarith
  show w_le: "uWeight (h u) \<le> ?W" if "u \<in> set cs" for u
    using that assms(1) by (intro member_le_sum_list) (auto intro: less_imp_le)
  have "hd cs \<in> set cs" using assms(3) by (cases cs) auto
  then show "0 < ?W" using w_le assms(1) by fastforce
  show "c u < 2 ^ 62" if "u \<in> set cs" for u
    using sum_list_upper [OF that assms(4,5) W0] assms(2) by linarith
qed

lemma wrr_step:
  assumes "wrr_stable now ex cs w h" and "balanced cs h w"
  shows "\<exists>b w'. wrr_Pick e now ex w h = (Picked b, w', look_pool now (w_pool w) h) \<and> b \<in> set cs \<and>
    w_pool w' = w_pool w \<and> length (w_cw w') = length (w_pool w) \<and>
    (\<forall>u \<in> set (w_pool w). w_cw w' ! pos (w_pool w) u = w_cw w ! pos (w_pool w) u +
       (if u \<in> set cs then uWeight (h u) else 0) - (if u = b then (\<Sum>v \<leftarrow> cs. uWeight (h v)) else 0)) \<and>
    balanced cs h w'"
proof -
  let ?p = "w_pool w" and ?W = "\<Sum>v \<leftarrow> cs. uWeight (h v)" and ?c = "\<lambda>u. w_cw w ! pos (w_pool w) u"
  have st: "candidates now ?p ex h = cs" "Suc 0 < length cs" "distinct ?p" "distinct cs" "set cs \<subseteq> set ?p"
    "\<forall>u \<in> set cs. 0 < uWeight (h u)" "int (length cs) * ?W < 2 ^ 62"
    using assms(1) by (auto simp: wrr_stable_def intro: distinct_candidates candidates_in_pool)
  have ba: "length (w_cw w) = length ?p" "(\<Sum>u \<leftarrow> cs. ?c u) = 0" "\<forall>u \<in> set cs. - ?W < ?c u"
    using assms(2) by (auto simp: balanced_def)
  note bounds = wrr_bounds [OF st(6,7,2) ba(2,3)]
  note Wpos = bounds(1) and Wlt = bounds(2) and w_le = bounds(3) and upper = bounds(4)
  obtain sm best cw where scan: "wrr_scan ?p h cs 0 None (w_cw w) = (sm, best, cw)" by (metis prod_cases3)
  have "in64 (?c u + uWeight (h u))" if u: "u \<in> set cs" for u
  proof -
    have "- ?W < ?c u" "?c u < 2 ^ 62" "uWeight (h u) \<le> ?W" "0 < uWeight (h u)"
      using ba(3) upper [OF u] w_le st(6) u by fastforce+
    then show ?thesis using Wlt by (simp add: in64_def)
  qed
  moreover have "0 + ?W < 2 ^ 63" using Wlt by simp
  ultimately have spec: "sm = ?W" "length cw = length ?p"
    "\<forall>u \<in> set ?p. cw ! pos ?p u = ?c u + (if u \<in> set cs then uWeight (h u) else 0)"
    "\<forall>b ix. best = Some (b, ix) \<longrightarrow> ix = pos ?p b \<and> (\<forall>v \<in> set cs. cw ! pos ?p v \<le> cw ! ix)"
    using wrr_scan_spec [OF scan st(4,5) ba(1)] st(6) by simp_all
  have "hd cs \<in> set cs" "hd cs \<in> set ?p" using st(2,5) by (cases cs; auto)+
  then have "best \<noteq> None" using wrr_scan_frame(3) [OF scan] st(6) by auto
  then obtain b ix where best: "best = Some (b, ix)" by auto
  have b: "b \<in> set cs" using wrr_scan_frame(2) [OF scan best] by simp
  have ix: "ix = pos ?p b" and maxi: "\<forall>v \<in> set cs. cw ! pos ?p v \<le> cw ! pos ?p b" using spec best by auto
  let ?w' = "w\<lparr>w_cw := cw[ix := cw ! ix - ?W]\<rparr>"
  have cwb: "cw ! pos ?p u = ?c u + uWeight (h u)" if "u \<in> set cs" for u using spec that st(5) by auto
  have "(\<Sum>u \<leftarrow> cs. ?c u + uWeight (h u)) = ?W" using ba(2) by (simp add: sum_list_addf)
  then obtain x where x: "x \<in> set cs" "0 < ?c x + uWeight (h x)" using sum_list_ex_pos [of "\<lambda>u. ?c u + uWeight (h u)" cs] Wpos by auto
  then have bpos: "0 < cw ! ix" using maxi cwb ix by fastforce
  have "cw ! ix < 2 ^ 62 + ?W" using upper [OF b] w_le [OF b] cwb [OF b] unfolding ix by linarith
  then have "in64 (cw ! ix - ?W)" using bpos Wlt by (simp add: in64_def)
  then have pick: "wrr_Pick e now ex w h = (Picked b, ?w', look_pool now ?p h)"
    using wrr_Pick_many [of now w ex h] st(1,2) scan spec best by (simp add: s64_id)
  have vals: "w_cw ?w' ! pos ?p u = ?c u + (if u \<in> set cs then uWeight (h u) else 0) - (if u = b then ?W else 0)"
    if "u \<in> set ?p" for u
    using that spec ix pos_inject [of u ?p b] b st(5) pos_less [of u ?p] by (auto simp: nth_list_update)
  have vals_cs: "w_cw ?w' ! pos ?p u = ?c u + uWeight (h u) - (if u = b then ?W else 0)" if "u \<in> set cs" for u
    using vals [of u] that st(5) by auto
  have "(\<Sum>u \<leftarrow> cs. w_cw ?w' ! pos ?p u) = (\<Sum>u \<leftarrow> cs. ?c u + uWeight (h u) - (if u = b then ?W else 0))"
    using vals_cs by (intro arg_cong [where f = sum_list] map_cong) auto
  also have "\<dots> = 0" using sum_list_update_one [OF st(4) b] ba(2) by (simp add: sum_list_addf)
  finally have "(\<Sum>u \<leftarrow> cs. w_cw ?w' ! pos ?p u) = 0" .
  moreover have "- ?W < w_cw ?w' ! pos ?p u" if "u \<in> set cs" for u
    using vals_cs [OF that] ba(3) st(6) that bpos ix cwb [OF b] by fastforce
  ultimately have "balanced cs h ?w'" using spec by (simp add: balanced_def)
  then show ?thesis using pick b vals spec by auto
qed

lemma wrr_stable_step:
  assumes "wrr_stable now ex cs w h" and "w_pool w' = w_pool w"
  shows "wrr_stable now ex cs w' (look_pool now (w_pool w) h)"
  using assms by (simp add: wrr_stable_def)

lemma balanced_look: "balanced cs (look_pool now p h) w = balanced cs h w"
  by (simp add: balanced_def)

lemma wrr_picks_account:
  assumes "wrr_stable now ex cs w h" and "balanced cs h w"
  shows "\<exists>us w'. picks (wrr_Pick ()) n now ex w h = (map Picked us, w') \<and> length us = n \<and> set us \<subseteq> set cs \<and>
    w_pool w' = w_pool w \<and> balanced cs h w' \<and>
    (\<forall>u \<in> set cs. w_cw w' ! pos (w_pool w) u = w_cw w ! pos (w_pool w) u +
       int n * uWeight (h u) - int (count_list us u) * (\<Sum>v \<leftarrow> cs. uWeight (h v)))"
  using assms
proof (induction n arbitrary: w h)
  case (Suc n)
  let ?h = "look_pool now (w_pool w) h" and ?W = "\<Sum>v \<leftarrow> cs. uWeight (h v)"
  have cs: "set cs \<subseteq> set (w_pool w)" using Suc.prems(1) by (auto simp: wrr_stable_def intro: candidates_in_pool)
  from wrr_step [OF Suc.prems, of "()"] obtain b w1 where
    s1: "wrr_Pick () now ex w h = (Picked b, w1, ?h)" "b \<in> set cs" "w_pool w1 = w_pool w" "balanced cs h w1"
    and v1: "\<forall>u \<in> set (w_pool w). w_cw w1 ! pos (w_pool w) u = w_cw w ! pos (w_pool w) u +
       (if u \<in> set cs then uWeight (h u) else 0) - (if u = b then ?W else 0)"
    by auto
  have "wrr_stable now ex cs w1 ?h" "balanced cs ?h w1"
    using wrr_stable_step [OF Suc.prems(1) s1(3)] s1(4) by (simp_all add: balanced_look)
  from Suc.IH [OF this] obtain us w' where
    s2: "picks (wrr_Pick ()) n now ex w1 ?h = (map Picked us, w')" "length us = n" "set us \<subseteq> set cs"
      "w_pool w' = w_pool w1" "balanced cs ?h w'"
    and v2: "\<forall>u \<in> set cs. w_cw w' ! pos (w_pool w1) u = w_cw w1 ! pos (w_pool w1) u +
       int n * uWeight (?h u) - int (count_list us u) * (\<Sum>v \<leftarrow> cs. uWeight (?h v))"
    by blast
  have "\<forall>u \<in> set cs. w_cw w' ! pos (w_pool w) u = w_cw w ! pos (w_pool w) u +
       int (Suc n) * uWeight (h u) - int (count_list (b # us) u) * ?W"
  proof
    fix u assume u: "u \<in> set cs"
    then have "w_cw w1 ! pos (w_pool w) u = w_cw w ! pos (w_pool w) u + uWeight (h u) - (if u = b then ?W else 0)"
      using v1 cs by auto
    then show "w_cw w' ! pos (w_pool w) u = w_cw w ! pos (w_pool w) u +
       int (Suc n) * uWeight (h u) - int (count_list (b # us) u) * ?W"
      using v2 s1(3) u by (auto simp: algebra_simps)
  qed
  then show ?case
    using s1 s2 by (intro exI [of _ "b # us"] exI [of _ w']) (simp add: balanced_look)
qed simp

lemma count_list_sum:
  "\<lbrakk> distinct cs; set us \<subseteq> set cs \<rbrakk> \<Longrightarrow> (\<Sum>u \<leftarrow> cs. int (count_list us u)) = int (length us)"
proof (induction us)
  case (Cons x us)
  have "(\<Sum>u \<leftarrow> cs. int (count_list (x # us) u)) = (\<Sum>u \<leftarrow> cs. int (count_list us u) - (if u = x then - 1 else 0))"
    by (rule arg_cong [where f = sum_list]) auto
  also have "\<dots> = (\<Sum>u \<leftarrow> cs. int (count_list us u)) - (- 1)"
    using Cons.prems by (intro sum_list_update_one) auto
  finally show ?case using Cons by simp
qed simp

lemma sum_list_eq_pointwise:
  "\<lbrakk> \<forall>x \<in> set xs. f x \<le> (g x :: int); sum_list (map f xs) = sum_list (map g xs) \<rbrakk> \<Longrightarrow> \<forall>x \<in> set xs. f x = g x"
proof (induction xs)
  case (Cons a xs)
  have "sum_list (map f xs) \<le> sum_list (map g xs)" using Cons.prems(1) by (intro sum_list_mono) auto
  with Cons show ?case by auto
qed simp

lemma count_list_Picked: "count_list (map Picked us) (Picked u) = count_list us u"
  by (induction us) auto

text \<open>
  (C8) Smooth weighted round-robin is exact: while the candidates stay the same, from current
  weights zero, any number \<open>k\<close> of rounds of as many picks as the total weight of the candidates
  picks each candidate exactly \<open>k\<close> times its weight and leaves its current weight at zero again;
  none of the 64-bit additions overflows.
\<close>

theorem weighted_round_robin_exact:
  assumes "wrr_stable now ex cs w h" and "length (w_cw w) = length (w_pool w)"
    and "\<forall>u \<in> set cs. w_cw w ! pos (w_pool w) u = 0"
    and "n = k * nat (\<Sum>v \<leftarrow> cs. uWeight (h v))"
  shows "\<forall>u \<in> set cs.
      int (count_list (fst (picks (wrr_Pick ()) n now ex w h)) (Picked u)) = int k * uWeight (h u) \<and>
      w_cw (snd (picks (wrr_Pick ()) n now ex w h)) ! pos (w_pool w) u = 0"
proof -
  let ?W = "\<Sum>v \<leftarrow> cs. uWeight (h v)"
  have pw: "\<forall>u \<in> set cs. 0 < uWeight (h u)" and cs: "distinct cs" "cs \<noteq> []"
    using assms(1) by (auto simp: wrr_stable_def intro: distinct_candidates)
  have W: "0 < ?W"
  proof -
    have "0 \<le> sum_list (map (\<lambda>v. uWeight (h v)) (tl cs))"
      using pw cs(2) by (intro sum_list_nonneg) (auto dest: list.set_sel(2) intro: less_imp_le)
    then show ?thesis using pw cs(2) by (cases cs) auto
  qed
  have "map (\<lambda>u. w_cw w ! pos (w_pool w) u) cs = map (\<lambda>_. 0) cs" using assms(3) by (intro map_cong) auto
  then have "(\<Sum>u \<leftarrow> cs. w_cw w ! pos (w_pool w) u) = (\<Sum>u \<leftarrow> cs. 0)" by (simp only:)
  then have bal: "balanced cs h w" using assms(2,3) W by (simp add: balanced_def)
  from wrr_picks_account [OF assms(1) bal, of n] obtain us w' where
    p: "picks (wrr_Pick ()) n now ex w h = (map Picked us, w')" "length us = n" "set us \<subseteq> set cs"
      "w_pool w' = w_pool w" "balanced cs h w'"
    and v: "\<forall>u \<in> set cs. w_cw w' ! pos (w_pool w) u = w_cw w ! pos (w_pool w) u +
       int n * uWeight (h u) - int (count_list us u) * ?W" by blast
  have n: "int n = int k * ?W" using assms(4) W by simp
  have v': "w_cw w' ! pos (w_pool w) u = (int k * uWeight (h u) - int (count_list us u)) * ?W" if "u \<in> set cs" for u
    using v assms(3) that n by (simp add: algebra_simps)
  have le: "\<forall>u \<in> set cs. int (count_list us u) \<le> int k * uWeight (h u)"
  proof
    fix u assume u: "u \<in> set cs"
    have "(- 1) * ?W < (int k * uWeight (h u) - int (count_list us u)) * ?W"
      using p(4,5) v' [OF u] u by (auto simp: balanced_def)
    then have "- 1 < int k * uWeight (h u) - int (count_list us u)" using W by (simp only: mult_less_cancel_right_pos)
    then show "int (count_list us u) \<le> int k * uWeight (h u)" by simp
  qed
  have "(\<Sum>u \<leftarrow> cs. int (count_list us u)) = (\<Sum>u \<leftarrow> cs. int k * uWeight (h u))"
    using count_list_sum [OF cs(1) p(3)] p(2) n by (simp add: sum_list_const_mult)
  from sum_list_eq_pointwise [OF le this] have "\<forall>u \<in> set cs. int (count_list us u) = int k * uWeight (h u)" .
  then show ?thesis using p(1) v' by (simp add: count_list_Picked)
qed

text \<open>Weights 5, 1, 1: the interleaving the documentation gives.\<close>

definition heap511 :: heap where
  "heap511 u = sample_upstream ''a'' (if u = 0 then 5 else 1)"

theorem weighted_round_robin_exact_witness:
  "count_list (fst (picks (wrr_Pick ()) 14 0 [] (NewWeightedRoundRobin [0, 1, 2]) heap511)) (Picked 0) = 10"
proof -
  let ?w = "NewWeightedRoundRobin [0, 1, 2]"
  have st: "wrr_stable 0 [] [0, 1, 2] ?w heap511"
    by (simp add: wrr_stable_def candidates_def heap511_def NewWeightedRoundRobin_def)
      (simp add: sample_upstream_def)
  have z: "\<forall>u \<in> set [0, 1, 2]. w_cw ?w ! pos (w_pool ?w) u = 0" "length (w_cw ?w) = length (w_pool ?w)"
    by (auto simp: NewWeightedRoundRobin_def pos_def)
  have n: "14 = 2 * nat (\<Sum>v \<leftarrow> [0, 1, 2]. uWeight (heap511 v))"
    by (simp add: heap511_def sample_upstream_def)
  have "uWeight (heap511 0) = 5" by (simp add: heap511_def sample_upstream_def)
  then show ?thesis using weighted_round_robin_exact [OF st z(2,1) n] by simp
qed

section \<open>Upstreams without a positive weight\<close>

lemma wrr_scan_no_weight:
  "\<forall>u \<in> set us. uWeight (h u) \<le> 0 \<Longrightarrow> wrr_scan pool h us sm best cw = (sm, best, cw)"
  by (induction us) auto

lemma wrr_Pick_no_weight:
  assumes "Suc 0 < length (candidates now (w_pool w) ex h)"
    and "\<forall>u \<in> set (candidates now (w_pool w) ex h). uWeight (h u) \<le> 0"
  shows "fst (wrr_Pick e now ex w h) = NoEligibleUpstream"
  using wrr_Pick_many [OF assms(1) wrr_scan_no_weight [OF assms(2)]] by simp

end
