(* ===== verification/LeastConnections.thy ===== *)
theory LeastConnections
  imports Upstream
begin

text \<open>
  The least-connections selector of \<^verbatim>\<open>internal/lb/leastconnections.go\<close>. \<^verbatim>\<open>Pick\<close> reads every in-flight
  counter once per pass over the eligible set, without a lock, so \<open>lc_Pick_loads\<close> takes the values
  each pass reads: \<open>ld p u\<close> is what pass \<open>p\<close> loads from upstream \<open>u\<close> (1: minimum, 2: tie count,
  3: the single minimum, 4: the drawn tie). \<open>lc_Pick\<close> is the call that no other goroutine
  interferes with: all passes read the store. \<open>draw n\<close> stands for \<^verbatim>\<open>rng.IntN(n)\<close>, which panics for
  \<open>n = 0\<close>.
\<close>

section \<open>Model\<close>

record least_connections =
  l_pool :: "uid list"

definition NewLeastConnections :: "uid list \<Rightarrow> least_connections" where
  "NewLeastConnections pool = \<lparr>l_pool = pool\<rparr>"

fun min_load :: "(uid \<Rightarrow> int) \<Rightarrow> uid list \<Rightarrow> int \<Rightarrow> int" where
  "min_load ld [] m = m"
| "min_load ld (u # us) m = min_load ld us (if ld u < m then ld u else m)"

fun first_with :: "(uid \<Rightarrow> int) \<Rightarrow> int \<Rightarrow> uid list \<Rightarrow> uid option" where
  "first_with ld m [] = None"
| "first_with ld m (u # us) = (if ld u = m then Some u else first_with ld m us)"

fun nth_with :: "(uid \<Rightarrow> int) \<Rightarrow> int \<Rightarrow> nat \<Rightarrow> nat \<Rightarrow> uid list \<Rightarrow> uid option" where
  "nth_with ld m pick seen [] = None"
| "nth_with ld m pick seen (u # us) =
     (if ld u \<noteq> m then nth_with ld m pick seen us
      else if seen = pick then Some u
      else nth_with ld m pick (seen + 1) us)"

definition lc_choose :: "(nat \<Rightarrow> uid \<Rightarrow> int) \<Rightarrow> (nat \<Rightarrow> nat) \<Rightarrow> uid list \<Rightarrow> pick_result" where
  "lc_choose ld draw eligible =
     (let minInflight = min_load (ld 1) eligible max_int64;
          tieCount = length (filter (\<lambda>u. ld 2 u = minInflight) eligible);
          single = (if tieCount = 1 then first_with (ld 3) minInflight eligible else None)
      in case single of
           Some u \<Rightarrow> Picked u
         | None \<Rightarrow>
             if tieCount = 0 then PickPanic
             else (case nth_with (ld 4) minInflight (draw tieCount) 0 eligible of
                     Some u \<Rightarrow> Picked u
                   | None \<Rightarrow> Picked (hd eligible)))"

definition lc_Pick_loads ::
  "(nat \<Rightarrow> uid \<Rightarrow> int) \<Rightarrow> (nat \<Rightarrow> nat) \<Rightarrow> time \<Rightarrow> uid list \<Rightarrow> least_connections \<Rightarrow> heap
    \<Rightarrow> pick_result \<times> least_connections \<times> heap" where
  "lc_Pick_loads ld draw now exclude l h =
     (let (eligible, h') = eligibleSet now (l_pool l) exclude h
      in case eligible of
           [] \<Rightarrow> (NoEligibleUpstream, l, h')
         | [u] \<Rightarrow> (Picked u, l, h')
         | _ \<Rightarrow> (lc_choose ld draw eligible, l, h'))"

definition lc_Pick ::
  "(nat \<Rightarrow> nat) \<Rightarrow> time \<Rightarrow> uid list \<Rightarrow> least_connections \<Rightarrow> heap \<Rightarrow> pick_result \<times> least_connections \<times> heap" where
  "lc_Pick draw now exclude l h = lc_Pick_loads (\<lambda>_ u. uInFlight (h u)) draw now exclude l h"

section \<open>The passes\<close>

lemma min_load_eq: "min_load ld us m = Min (insert m (ld ` set us))"
proof (induction us arbitrary: m)
  case (Cons u us)
  have "min_load ld (u # us) m = Min (insert (min (ld u) m) (ld ` set us))"
    using Cons.IH by (auto simp: min_def)
  also have "\<dots> = Min (insert m (ld ` set (u # us)))"
    by (cases "us = []") (simp_all add: min.assoc min.left_commute min.commute)
  finally show ?case .
qed simp

lemma min_load_le: "u \<in> set us \<Longrightarrow> min_load ld us m \<le> ld u"
  by (simp add: min_load_eq)

lemma min_load_attained:
  assumes "us \<noteq> []" and "\<forall>u \<in> set us. ld u \<le> m"
  shows "\<exists>u \<in> set us. ld u = min_load ld us m"
proof -
  have "Min (insert m (ld ` set us)) \<in> insert m (ld ` set us)" by (intro Min_in) auto
  then show ?thesis
  proof
    assume eq: "Min (insert m (ld ` set us)) = m"
    obtain u where u: "u \<in> set us" using assms(1) by (cases us) auto
    then have "m \<le> ld u" using eq by (metis Min_le List.finite_set finite_imageI finite_insert imageI insertI2)
    with u assms(2) have "ld u = m" by (simp add: antisym)
    with u eq show ?thesis by (auto simp: min_load_eq)
  qed (auto simp: min_load_eq)
qed

lemma first_with_Some: "first_with ld m us = Some u \<Longrightarrow> u \<in> set us \<and> ld u = m"
  by (induction us) (auto split: if_splits)

lemma first_with_filter: "first_with ld m us = (case filter (\<lambda>u. ld u = m) us of [] \<Rightarrow> None | u # _ \<Rightarrow> Some u)"
  by (induction us) auto

lemma nth_with_filter:
  "seen \<le> pick \<Longrightarrow> nth_with ld m pick seen us =
     (let ties = filter (\<lambda>u. ld u = m) us in if pick - seen < length ties then Some (ties ! (pick - seen)) else None)"
proof (induction us arbitrary: seen)
  case (Cons u us)
  then show ?case by (cases "ld u = m"; cases "seen = pick") (auto simp: Let_def nth_Cons' Suc_diff_Suc)
qed simp

lemma lc_Pick_loads_eq:
  "lc_Pick_loads ld draw now ex l h =
    (let cs = candidates now (l_pool l) ex h
     in (if cs = [] then NoEligibleUpstream else if length cs = 1 then Picked (hd cs) else lc_choose ld draw cs,
         l, look_pool now (l_pool l) h))"
  by (simp add: lc_Pick_loads_def eligibleSet_eq split: list.split)

lemma lc_choose_in: "cs \<noteq> [] \<Longrightarrow> lc_choose ld draw cs = Picked u \<Longrightarrow> u \<in> set cs"
  by (auto simp: lc_choose_def Let_def nth_with_filter dest!: first_with_Some
      split: if_splits option.splits) (meson filter_is_subset nth_mem subsetD)+

text \<open>Without interference the call returns the drawn one of the ties for the minimum.\<close>

lemma lc_choose_sequential:
  assumes "cs \<noteq> []" and "\<forall>u \<in> set cs. ld u \<le> max_int64"
    and "ties = filter (\<lambda>u. ld u = Min (ld ` set cs)) cs" and "\<forall>n > 0. draw n < n"
  shows "lc_choose (\<lambda>_. ld) draw cs = Picked (ties ! draw (length ties)) \<and> draw (length ties) < length ties"
proof -
  define m where "m = min_load ld cs max_int64"
  have "Min (ld ` set cs) \<le> max_int64" using assms(1,2) by (auto simp: Min_le_iff intro: hd_in_set)
  then have "m = Min (ld ` set cs)" using assms(1) by (simp add: m_def min_load_eq min_absorb2)
  then have ties: "filter (\<lambda>u. ld u = m) cs = ties" using assms(3) by simp
  have "ties \<noteq> []" using min_load_attained [OF assms(1,2)] unfolding ties [symmetric] filter_empty_conv m_def by auto
  then have t: "0 < length ties" by simp
  then have d: "draw (length ties) < length ties" using assms(4) by simp
  have n: "nth_with ld m (draw (length ties)) 0 cs = Some (ties ! draw (length ties))"
    using d by (simp add: nth_with_filter ties)
  have f: "first_with ld m cs = Some (ties ! 0)" using t by (cases ties) (simp_all add: first_with_filter ties)
  have "lc_choose (\<lambda>_. ld) draw cs = Picked (ties ! draw (length ties))"
    using t d f n unfolding lc_choose_def m_def [symmetric] Let_def ties
    by (cases "length ties = 1") simp_all
  with d show ?thesis by simp
qed

definition lc_ready :: "least_connections \<Rightarrow> heap \<Rightarrow> bool" where
  "lc_ready l h \<longleftrightarrow> (\<forall>u \<in> set (l_pool l). uInFlight (h u) \<le> max_int64)"

definition in_range :: "(nat \<Rightarrow> nat) \<Rightarrow> nat \<Rightarrow> bool" where
  "in_range draw n \<longleftrightarrow> (\<forall>k > 0. draw k < k)"

lemma lc_Pick_many:
  assumes "lc_ready l h" and "candidates now (l_pool l) ex h = cs" and "Suc 0 < length cs"
    and "ties = filter (\<lambda>u. uInFlight (h u) = Min ((\<lambda>u. uInFlight (h u)) ` set cs)) cs"
    and "\<forall>n > 0. draw n < n"
  shows "fst (lc_Pick draw now ex l h) = Picked (ties ! draw (length ties)) \<and> draw (length ties) < length ties"
proof -
  have "\<forall>u \<in> set cs. uInFlight (h u) \<le> max_int64"
    using assms(1,2) by (auto simp: lc_ready_def dest: candidates_in_pool)
  moreover have "cs \<noteq> []" using assms(3) by auto
  ultimately show ?thesis
    using lc_choose_sequential [of cs "\<lambda>u. uInFlight (h u)" ties draw] assms
    by (simp add: lc_Pick_def lc_Pick_loads_eq Let_def)
qed

interpretation lc: selector lc_Pick l_pool lc_ready in_range
proof unfold_locales
  fix e now ex and s :: least_connections and h
  let ?c = "candidates now (l_pool s) ex h"
  show "\<exists>u. fst (lc_Pick e now ex s h) = Picked u" if "lc_ready s h" "?c \<noteq> []" "in_range e (length ?c)"
  proof (cases "Suc 0 < length ?c")
    case True
    then show ?thesis using lc_Pick_many [OF that(1) refl True refl] that(3) by (auto simp: in_range_def)
  next
    case False
    then show ?thesis using that(2) by (simp add: lc_Pick_def lc_Pick_loads_eq Let_def) (metis length_0_conv less_one linorder_neqE_nat One_nat_def)
  qed
  show "u \<in> set ?c" if "fst (lc_Pick e now ex s h) = Picked u" for u
    using that lc_choose_in [of ?c] by (auto simp: lc_Pick_def lc_Pick_loads_eq Let_def split: if_splits)
qed (auto simp: lc_Pick_def lc_Pick_loads_eq Let_def lc_ready_def)

section \<open>Properties\<close>

text \<open>
  Least-connections, undisturbed, with at least two candidates: the draw \<open>i\<close> of the random
  generator selects the \<open>i\<close>-th of the candidates with the smallest in-flight count, so the
  pick is one with the smallest count and a uniform draw breaks ties uniformly.
\<close>

theorem least_connections_uniform_minimum:
  assumes "lc_ready l h" and "candidates now (l_pool l) ex h = cs" and "Suc 0 < length cs"
    and "\<forall>n > 0. draw n < n"
  shows "\<exists>ties. ties = filter (\<lambda>u. \<forall>v \<in> set cs. uInFlight (h u) \<le> uInFlight (h v)) cs \<and>
    draw (length ties) < length ties \<and> fst (lc_Pick draw now ex l h) = Picked (ties ! draw (length ties))"
proof -
  let ?f = "\<lambda>u. uInFlight (h u)"
  have "?f u = Min (?f ` set cs) \<longleftrightarrow> (\<forall>v \<in> set cs. ?f u \<le> ?f v)" if "u \<in> set cs" for u
    using that by (auto intro!: Min_eqI [symmetric])
  then have eq: "filter (\<lambda>u. ?f u = Min (?f ` set cs)) cs = filter (\<lambda>u. \<forall>v \<in> set cs. ?f u \<le> ?f v) cs"
    by (auto intro: filter_cong)
  show ?thesis using lc_Pick_many [OF assms(1,2,3) refl assms(4)] unfolding eq by blast
qed

definition heap_loads :: "int list \<Rightarrow> heap" where
  "heap_loads ls u = (sample_upstream ''a'' 1)\<lparr>uInFlight := (if u < length ls then ls ! u else 0)\<rparr>"

lemma selectable_loads [simp]: "selectable now (heap_loads ls u)"
  by (simp add: heap_loads_def selectable_def sample_upstream_def NewCircuitBreaker_def)

theorem least_connections_uniform_minimum_witness:
  "fst (lc_Pick (\<lambda>n. n - 1) 0 [] (NewLeastConnections [0, 1, 2]) (heap_loads [4, 1, 1])) = Picked 2"
proof -
  let ?l = "NewLeastConnections [0, 1, 2]" and ?h = "heap_loads [4, 1, 1]"
  have "lc_ready ?l ?h" by (simp add: lc_ready_def NewLeastConnections_def heap_loads_def)
  moreover have "candidates 0 (l_pool ?l) [] ?h = [0, 1, 2]"
    by (simp add: candidates_def NewLeastConnections_def)
  ultimately show ?thesis
    using least_connections_uniform_minimum [of ?l ?h 0 "[]" "[0, 1, 2]" "\<lambda>n. n - 1"]
    by (simp add: heap_loads_def)
qed

text \<open>
  The unlocked second read can crash the request: if between the first and the second pass
  every candidate's in-flight count rises above the minimum the first pass saw (two candidates and
  one new request on each are enough), the tie count is zero and \<^verbatim>\<open>Pick\<close> panics in \<^verbatim>\<open>rng.IntN(0)\<close>,
  whatever the generator would draw.
\<close>

theorem least_connections_race_panics:
  assumes "candidates now (l_pool l) ex h = cs" and "Suc 0 < length cs"
    and "\<forall>u \<in> set cs. min_load (ld 1) cs max_int64 < ld 2 u"
  shows "fst (lc_Pick_loads ld draw now ex l h) = PickPanic"
proof -
  define m where "m = min_load (ld 1) cs max_int64"
  have "filter (\<lambda>u. ld 2 u = m) cs = []" using assms(3) by (auto simp: filter_empty_conv m_def)
  then have "lc_choose ld draw cs = PickPanic" unfolding lc_choose_def m_def [symmetric] Let_def by simp
  moreover have "cs \<noteq> []" using assms(2) by auto
  ultimately show ?thesis using assms(1,2) by (simp add: lc_Pick_loads_eq Let_def)
qed

theorem least_connections_race_panics_witness:
  "fst (lc_Pick_loads (\<lambda>p u. if p = 1 then 0 else 1) (\<lambda>n. 0) 0 []
      (NewLeastConnections [0, 1]) (heap_loads [0, 0])) = PickPanic"
  by (rule least_connections_race_panics [where cs = "[0, 1]"])
    (simp_all add: candidates_def NewLeastConnections_def)

end
