(* ===== verification/P2C.thy ===== *)
theory P2C
  imports Upstream
begin

text \<open>
  The power-of-two-choices selector of \<^verbatim>\<open>internal/lb/p2c.go\<close>. The environment of a pick is the pair
  of draws \<^verbatim>\<open>rng.IntN(n)\<close> and \<^verbatim>\<open>rng.IntN(n - 1)\<close>. Scores are \<^verbatim>\<open>uint64\<close> products and wrap. An index
  outside the eligible slice panics.
\<close>

section \<open>Model\<close>

record p2c =
  p_pool :: "uid list"
  p_halfLife :: duration

definition NewP2C :: "uid list \<Rightarrow> duration \<Rightarrow> p2c" where
  "NewP2C pool halfLife = \<lparr>p_pool = pool, p_halfLife = halfLife\<rparr>"

definition score :: "upstream \<Rightarrow> 64 word" where
  "score u = LatencyNanos u * word_of_int (1 + uInFlight u)"

definition p2c_Pick :: "nat \<times> nat \<Rightarrow> time \<Rightarrow> uid list \<Rightarrow> p2c \<Rightarrow> heap \<Rightarrow> pick_result \<times> p2c \<times> heap" where
  "p2c_Pick draw now exclude p h =
     (let (eligible, h') = eligibleSet now (p_pool p) exclude h
      in case eligible of
           [] \<Rightarrow> (NoEligibleUpstream, p, h')
         | [u] \<Rightarrow> (Picked u, p, h')
         | _ \<Rightarrow>
             let i = fst draw;
                 j = (if snd draw \<ge> i then snd draw + 1 else snd draw)
             in if i < length eligible \<and> j < length eligible
                then let a = eligible ! i; b = eligible ! j
                     in if score (h' a) \<le> score (h' b) then (Picked a, p, h') else (Picked b, p, h')
                else (PickPanic, p, h'))"

definition p2c_RecordOutcome :: "(float64 \<Rightarrow> float64) \<Rightarrow> time \<Rightarrow> p2c \<Rightarrow> uid \<Rightarrow> duration \<Rightarrow> heap \<Rightarrow> heap" where
  "p2c_RecordOutcome mexp now p u latency h = h(u := RecordLatency mexp now latency (p_halfLife p) (h u))"

section \<open>The draws\<close>

definition p2c_draws :: "nat \<times> nat \<Rightarrow> nat \<Rightarrow> bool" where
  "p2c_draws draw n \<longleftrightarrow> fst draw < n \<and> (1 < n \<longrightarrow> snd draw < n - 1)"

definition drawn_pair :: "nat \<times> nat \<Rightarrow> nat \<times> nat" where
  "drawn_pair draw = (fst draw, if snd draw \<ge> fst draw then snd draw + 1 else snd draw)"

lemma drawn_pair_bij:
  "bij_betw drawn_pair ({..<n} \<times> {..<n - 1}) {(i, j). i < n \<and> j < n \<and> i \<noteq> j}"
proof -
  let ?g = "\<lambda>(i, j). (i, if j > i then j - 1 else j) :: nat \<times> nat"
  show ?thesis
  proof (rule bij_betw_byWitness [where f' = ?g])
    show "drawn_pair ` ({..<n} \<times> {..<n - 1}) \<subseteq> {(i, j). i < n \<and> j < n \<and> i \<noteq> j}"
      by (auto simp: drawn_pair_def split: if_splits)
    show "?g ` {(i, j). i < n \<and> j < n \<and> i \<noteq> j} \<subseteq> {..<n} \<times> {..<n - 1}" by auto
  qed (auto simp: drawn_pair_def)
qed

lemma score_look_pool [simp]: "score (look_pool now pool h u) = score (h u)"
  by (simp add: score_def LatencyNanos_def)

lemma p2c_Pick_eq:
  "p2c_Pick draw now ex p h =
    (let cs = candidates now (p_pool p) ex h; (i, j) = drawn_pair draw
     in (if cs = [] then NoEligibleUpstream else if length cs = 1 then Picked (hd cs)
         else if i < length cs \<and> j < length cs
         then Picked (if score (h (cs ! i)) \<le> score (h (cs ! j)) then cs ! i else cs ! j) else PickPanic,
         p, look_pool now (p_pool p) h))"
  by (simp add: p2c_Pick_def eligibleSet_eq drawn_pair_def Let_def split: list.split)

lemma p2c_draws_pair:
  assumes "p2c_draws draw n" and "1 < n" and "drawn_pair draw = (i, j)"
  shows "i < n \<and> j < n \<and> i \<noteq> j"
  using assms by (auto simp: p2c_draws_def drawn_pair_def split: if_splits)

lemma p2c_Pick_pair:
  assumes "candidates now (p_pool p) ex h = cs" and "1 < length cs" and "p2c_draws draw (length cs)"
    and "drawn_pair draw = (i, j)"
  shows "fst (p2c_Pick draw now ex p h) =
    Picked (if score (h (cs ! i)) \<le> score (h (cs ! j)) then cs ! i else cs ! j)"
proof -
  have "i < length cs \<and> j < length cs" using p2c_draws_pair [OF assms(3,2,4)] by simp
  moreover have "cs \<noteq> []" using assms(2) by auto
  ultimately show ?thesis using assms(1,2,4) by (simp add: p2c_Pick_eq Let_def)
qed

interpretation p2c: selector p2c_Pick p_pool "\<lambda>_ _. True" p2c_draws
proof unfold_locales
  fix e :: "nat \<times> nat" and now ex and s :: p2c and h
  let ?c = "candidates now (p_pool s) ex h"
  show "\<exists>u. fst (p2c_Pick e now ex s h) = Picked u" if "?c \<noteq> []" "p2c_draws e (length ?c)"
  proof (cases "1 < length ?c")
    case True
    obtain i j where "drawn_pair e = (i, j)" by fastforce
    with p2c_Pick_pair [OF refl True that(2)] show ?thesis by blast
  next
    case False
    then have "length ?c = 1" using that(1) by (simp add: le_Suc_eq not_less)
    with that(1) show ?thesis by (auto simp: p2c_Pick_eq Let_def split: prod.split)
  qed
  show "u \<in> set ?c" if "fst (p2c_Pick e now ex s h) = Picked u" for u
    using that by (auto simp: p2c_Pick_eq Let_def split: if_splits prod.splits)
qed (auto simp: p2c_Pick_eq Let_def split: prod.splits)

section \<open>Properties\<close>

text \<open>
  Power of two choices: with at least two candidates, the two draws name two different
  candidates, every ordered pair of different candidates is named by exactly one pair of draws (so
  uniform draws sample the pairs uniformly), and the pick is the one of the two with the smaller
  score, the first on a tie.
\<close>

theorem p2c_two_choices:
  assumes "candidates now (p_pool p) ex h = cs" and "1 < length cs"
  shows "bij_betw drawn_pair {d. p2c_draws d (length cs)} {(i, j). i < length cs \<and> j < length cs \<and> i \<noteq> j} \<and>
    (\<forall>d i j. p2c_draws d (length cs) \<and> drawn_pair d = (i, j) \<longrightarrow>
      fst (p2c_Pick d now ex p h) = Picked (if score (h (cs ! i)) \<le> score (h (cs ! j)) then cs ! i else cs ! j))"
proof -
  have "{d. p2c_draws d (length cs)} = {..<length cs} \<times> {..<length cs - 1}"
    using assms(2) by (auto simp: p2c_draws_def)
  then show ?thesis using drawn_pair_bij [of "length cs"] p2c_Pick_pair [OF assms] by simp
qed

definition heap_scored :: "nat list \<Rightarrow> heap" where
  "heap_scored ls u = (sample_upstream ''a'' 1)\<lparr>uLatencyEWMA := of_nat (if u < length ls then ls ! u else 0)\<rparr>"

lemma selectable_scored [simp]: "selectable now (heap_scored ls u)"
  by (simp add: heap_scored_def selectable_def sample_upstream_def NewCircuitBreaker_def)

lemma candidates_scored [simp]: "candidates now pool [] (heap_scored ls) = pool"
  by (simp add: candidates_def)

theorem p2c_two_choices_witness:
  "fst (p2c_Pick (0, 1) 0 [] (NewP2C [0, 1, 2] second) (heap_scored [9, 5, 7])) = Picked 2"
proof -
  let ?p = "NewP2C [0, 1, 2] second" and ?h = "heap_scored [9, 5, 7]"
  have "candidates 0 (p_pool ?p) [] ?h = [0, 1, 2]" by (simp add: NewP2C_def)
  from p2c_two_choices [OF this, THEN conjunct2, rule_format, of "(0, 1)" 0 2] show ?thesis
    by (simp add: p2c_draws_def drawn_pair_def score_def LatencyNanos_def heap_scored_def sample_upstream_def)
qed

text \<open>
  A candidate whose score is strictly larger than that of every other candidate is never
  picked while there is another candidate.
\<close>

theorem p2c_avoids_the_worst:
  assumes "distinct (p_pool p)" and "candidates now (p_pool p) ex h = cs" and "1 < length cs"
    and "p2c_draws d (length cs)" and "\<forall>v \<in> set cs. v \<noteq> w \<longrightarrow> score (h v) < score (h w)"
  shows "fst (p2c_Pick d now ex p h) \<noteq> Picked w"
proof
  obtain i j where d: "drawn_pair d = (i, j)" by fastforce
  have ij: "i < length cs" "j < length cs" "i \<noteq> j" using p2c_draws_pair [OF assms(4,3) d] by auto
  have dist: "cs ! i \<noteq> cs ! j" using ij distinct_candidates [OF assms(1)] assms(2) nth_eq_iff_index_eq by metis
  assume "fst (p2c_Pick d now ex p h) = Picked w"
  then have "w = (if score (h (cs ! i)) \<le> score (h (cs ! j)) then cs ! i else cs ! j)"
    using p2c_Pick_pair [OF assms(2,3,4) d] by simp
  moreover have "cs ! i \<in> set cs" "cs ! j \<in> set cs" using ij by auto
  ultimately show False using assms(5) dist by (metis leD less_imp_le)
qed

theorem p2c_avoids_the_worst_witness:
  "fst (p2c_Pick (0, 0) 0 [] (NewP2C [0, 1, 2] second) (heap_scored [9, 5, 7])) \<noteq> Picked 0"
  by (rule p2c_avoids_the_worst [where cs = "[0, 1, 2]"])
    (simp_all add: NewP2C_def p2c_draws_def score_def LatencyNanos_def heap_scored_def sample_upstream_def)

text \<open>
  Without recorded latencies the algorithm does not look at load: if no candidate's latency
  average has been updated (the L7 proxy never calls \<^verbatim>\<open>RecordOutcome\<close> or \<^verbatim>\<open>RecordLatency\<close>), every score
  is zero and the pick is the first draw, whatever the in-flight counts.
\<close>

theorem p2c_without_latency_is_random:
  assumes "candidates now (p_pool p) ex h = cs" and "1 < length cs" and "p2c_draws d (length cs)"
    and "\<forall>u \<in> set cs. uLatencyEWMA (h u) = 0"
  shows "fst (p2c_Pick d now ex p h) = Picked (cs ! fst d)"
proof -
  obtain i j where d: "drawn_pair d = (i, j)" by fastforce
  have ij: "i < length cs" "j < length cs" using p2c_draws_pair [OF assms(3,2) d] by auto
  have "i = fst d" using d by (simp add: drawn_pair_def)
  moreover have "score (h (cs ! i)) = 0" using assms(4) ij by (simp add: score_def LatencyNanos_def)
  ultimately show ?thesis using p2c_Pick_pair [OF assms(1,2,3) d] by simp
qed

theorem p2c_without_latency_is_random_witness:
  "fst (p2c_Pick (1, 0) 0 [] (NewP2C [0, 1] second) ((heap_scored [0, 0])(1 := (sample_upstream ''b'' 1)\<lparr>uInFlight := 99\<rparr>)))
    = Picked 1"
proof -
  let ?h = "(heap_scored [0, 0])(1 := (sample_upstream ''b'' 1)\<lparr>uInFlight := 99\<rparr>)"
  have "selectable 0 (?h 1)" by (simp add: selectable_def sample_upstream_def NewCircuitBreaker_def)
  then have "candidates 0 (p_pool (NewP2C [0, 1] second)) [] ?h = [0, 1]"
    by (simp add: NewP2C_def candidates_def)
  from p2c_without_latency_is_random [OF this] show ?thesis
    by (simp add: p2c_draws_def heap_scored_def sample_upstream_def)
qed

end
