(* ===== verification/Sha256.thy ===== *)
theory Sha256
  imports GoPrelude
begin

unbundle bit_operations_syntax

text \<open>
  \<^verbatim>\<open>crypto/sha256\<close> (FIPS 180-4), which places the virtual nodes and the keys of the consistent-hash
  selector on its ring, and \<^verbatim>\<open>encoding/binary\<close>'s big-endian conversions. Bytes are characters.
\<close>

type_synonym w32 = "32 word"

text \<open>The round constants and the initial state, in decimal.\<close>

definition sha_K :: "w32 list" where
  "sha_K =
    [1116352408, 1899447441, 3049323471, 3921009573, 961987163, 1508970993,
     2453635748, 2870763221, 3624381080, 310598401, 607225278, 1426881987,
     1925078388, 2162078206, 2614888103, 3248222580, 3835390401, 4022224774,
     264347078, 604807628, 770255983, 1249150122, 1555081692, 1996064986,
     2554220882, 2821834349, 2952996808, 3210313671, 3336571891, 3584528711,
     113926993, 338241895, 666307205, 773529912, 1294757372, 1396182291,
     1695183700, 1986661051, 2177026350, 2456956037, 2730485921, 2820302411,
     3259730800, 3345764771, 3516065817, 3600352804, 4094571909, 275423344,
     430227734, 506948616, 659060556, 883997877, 958139571, 1322822218,
     1537002063, 1747873779, 1955562222, 2024104815, 2227730452, 2361852424,
     2428436474, 2756734187, 3204031479, 3329325298]"

definition sha_H :: "w32 list" where
  "sha_H =
    [1779033703, 3144134277, 1013904242, 2773480762, 1359893119, 2600822924,
     528734635, 1541459225]"

definition rotr :: "nat \<Rightarrow> w32 \<Rightarrow> w32" where
  "rotr n x = drop_bit n x OR push_bit (32 - n) x"

definition w32_of_bytes :: "char list \<Rightarrow> w32" where
  "w32_of_bytes bs = foldl (\<lambda>w b. push_bit 8 w OR of_nat (of_char b)) 0 bs"

definition byte_at :: "nat \<Rightarrow> 'a::len word \<Rightarrow> char" where
  "byte_at i w = char_of (unat (drop_bit (8 * i) w AND 255))"

text \<open>\<^verbatim>\<open>binary.BigEndian\<close>'s \<^verbatim>\<open>PutUint32\<close>, \<^verbatim>\<open>PutUint64\<close> and \<^verbatim>\<open>Uint64\<close>.\<close>

definition put_uint32 :: "w32 \<Rightarrow> char list" where
  "put_uint32 w = map (\<lambda>i. byte_at i w) [3, 2, 1, 0]"

definition put_uint64 :: "64 word \<Rightarrow> char list" where
  "put_uint64 w = map (\<lambda>i. byte_at i w) [7, 6, 5, 4, 3, 2, 1, 0]"

definition get_uint64 :: "char list \<Rightarrow> 64 word" where
  "get_uint64 bs = foldl (\<lambda>w b. push_bit 8 w OR of_nat (of_char b)) 0 (take 8 bs)"

text \<open>Padding: a one bit, zeros, and the message length in bits, to a multiple of 64 bytes.\<close>

definition sha_pad :: "char list \<Rightarrow> char list" where
  "sha_pad m = m @ [char_of (128 :: nat)] @ replicate ((119 - length m mod 64) mod 64) (char_of (0 :: nat))
     @ put_uint64 (of_nat (8 * length m))"

fun chunks :: "nat \<Rightarrow> 'a list \<Rightarrow> 'a list list" where
  "chunks n xs = (if n = 0 \<or> xs = [] then [] else take n xs # chunks n (drop n xs))"

declare chunks.simps [simp del]

text \<open>
  The message schedule, newest word first: \<open>W t = \<sigma>1 (W (t - 2)) + W (t - 7) + \<sigma>0 (W (t - 15)) + W (t - 16)\<close>.
\<close>

fun schedule :: "nat \<Rightarrow> w32 list \<Rightarrow> w32 list" where
  "schedule 0 w = w"
| "schedule (Suc k) w =
     (let a = w ! 1; b = w ! 14;
          s1 = rotr 17 a XOR rotr 19 a XOR drop_bit 10 a;
          s0 = rotr 7 b XOR rotr 18 b XOR drop_bit 3 b
      in schedule k ((s1 + w ! 6 + s0 + w ! 15) # w))"

type_synonym sha_regs = "w32 \<times> w32 \<times> w32 \<times> w32 \<times> w32 \<times> w32 \<times> w32 \<times> w32"

definition sha_round :: "sha_regs \<Rightarrow> w32 \<times> w32 \<Rightarrow> sha_regs" where
  "sha_round r kw =
     (case r of (a, b, c, d, e, f, g, h) \<Rightarrow>
        let t1 = h + (rotr 6 e XOR rotr 11 e XOR rotr 25 e) + ((e AND f) XOR (NOT e AND g)) + fst kw + snd kw;
            t2 = (rotr 2 a XOR rotr 13 a XOR rotr 22 a) + ((a AND b) XOR (a AND c) XOR (b AND c))
        in (t1 + t2, a, b, c, d + t1, e, f, g))"

definition sha_block :: "w32 list \<Rightarrow> char list \<Rightarrow> w32 list" where
  "sha_block H bs =
     (let ws = rev (schedule 48 (rev (map w32_of_bytes (chunks 4 bs))));
          r0 = (H ! 0, H ! 1, H ! 2, H ! 3, H ! 4, H ! 5, H ! 6, H ! 7)
      in case foldl sha_round r0 (zip sha_K ws) of
           (a, b, c, d, e, f, g, h) \<Rightarrow> map2 (+) H [a, b, c, d, e, f, g, h])"

definition sha256 :: "char list \<Rightarrow> char list" where
  "sha256 m = concat (map put_uint32 (foldl sha_block sha_H (chunks 64 (sha_pad m))))"

text \<open>The padded message is a whole number of blocks.\<close>

lemma length_sha_pad: "64 dvd length (sha_pad m)"
proof -
  define q r where "q = length m div 64" and "r = length m mod 64"
  have m: "length m = 64 * q + r" and r: "r < 64" by (simp_all add: q_def r_def)
  have "length (sha_pad m) = 64 * q + r + 9 + (119 - r) mod 64"
    using m by (simp add: sha_pad_def put_uint64_def r_def)
  moreover have "(119 - r) mod 64 = (if r \<le> 55 then 55 - r else 119 - r)"
    using r mod_if [of "119 - r" 64] by simp
  ultimately have "length (sha_pad m) = 64 * (if r \<le> 55 then q + 1 else q + 2)" using r by simp
  then show ?thesis by (metis dvd_triv_left)
qed

end
