(* ===== verification/ConsistentHash.thy ===== *)
theory ConsistentHash
  imports Upstream Sha256
begin

text \<open>
  The bounded-load consistent-hash selector of \<^verbatim>\<open>internal/lb/consistenthash.go\<close>: key extractors, ring
  construction, the binary search for the clockwise start, the walk under the load cap and the
  fallback. A nil key is \<open>None\<close>. \<^verbatim>\<open>sort.Slice\<close> is not stable, so the order of entries with equal
  positions is not determined by the code: the sorting function is an argument, and \<open>sorts_ring\<close>
  is what its documentation promises. As in \<open>LeastConnections\<close>, \<open>ld p u\<close> is the in-flight count that
  pass \<open>p\<close> (1: total, 2: walk, 3: fallback) loads.
\<close>

section \<open>Key extractors\<close>

text \<open>\<^verbatim>\<open>net/http\<close>: the values of the cookies with a given name, in the order of the request's \<^verbatim>\<open>Cookie\<close> lines.\<close>

definition is_lws :: "char \<Rightarrow> bool" where
  "is_lws c \<longleftrightarrow> code_of c = 32 \<or> code_of c = 9 \<or> code_of c = 10 \<or> code_of c = 13"

definition trim_lws :: "string \<Rightarrow> string" where
  "trim_lws s = rev (dropWhile is_lws (rev (dropWhile is_lws s)))"

definition cut_at :: "char \<Rightarrow> string \<Rightarrow> string \<times> string" where
  "cut_at c s = (takeWhile (\<lambda>x. x \<noteq> c) s, drop 1 (dropWhile (\<lambda>x. x \<noteq> c) s))"

definition valid_cookie_byte :: "char \<Rightarrow> bool" where
  "valid_cookie_byte c \<longleftrightarrow>
     32 \<le> code_of c \<and> code_of c < 127 \<and> code_of c \<noteq> 34 \<and> code_of c \<noteq> 59 \<and> code_of c \<noteq> 92"

definition parse_cookie_value :: "string \<Rightarrow> string option" where
  "parse_cookie_value raw =
     (let v = (if 1 < length raw \<and> code_of (hd raw) = 34 \<and> code_of (last raw) = 34 then butlast (tl raw) else raw)
      in if list_all valid_cookie_byte v then Some v else None)"

definition read_cookie :: "string \<Rightarrow> string \<Rightarrow> string option" where
  "read_cookie name part =
     (let (n, v) = cut_at (CHR ''='') (trim_lws part); n' = trim_lws n
      in if n' \<noteq> [] \<and> list_all is_token_char n' \<and> n' = name then parse_cookie_value v else None)"

definition request_cookie :: "http_request \<Rightarrow> string \<Rightarrow> string option" where
  "request_cookie req name =
     (case List.map_filter (read_cookie name) (concat (map (split_on (CHR '';'')) (hdr_values (rHeader req) ''Cookie''))) of
        [] \<Rightarrow> None
      | v # _ \<Rightarrow> Some v)"

type_synonym key_extractor = "http_request \<Rightarrow> string option"

definition HeaderKey :: "string \<Rightarrow> key_extractor" where
  "HeaderKey name req = (let v = hdr_get (rHeader req) name in if v = [] then None else Some v)"

definition CookieKey :: "string \<Rightarrow> key_extractor" where
  "CookieKey name req = request_cookie req name"

fun lastColon_from :: "string \<Rightarrow> nat \<Rightarrow> int" where
  "lastColon_from s 0 = -1"
| "lastColon_from s (Suc i) = (if s ! i = CHR '':'' then int i else lastColon_from s i)"

definition lastColon :: "string \<Rightarrow> int" where
  "lastColon s = lastColon_from s (length s)"

definition ClientIPKey :: "http_request \<Rightarrow> string" where
  "ClientIPKey req =
     (let ra = rRemoteAddr req; i = lastColon ra in if i \<ge> 0 then take (nat i) ra else ra)"

section \<open>The ring\<close>

type_synonym ring = "(64 word \<times> uid) list"

record consistent_hash =
  c_upstreams :: "uid list"
  c_ring :: ring
  c_epsilon :: float64
  c_extract :: key_extractor

definition hashVirtualNode :: "string \<Rightarrow> nat \<Rightarrow> 64 word" where
  "hashVirtualNode url index = get_uint64 (sha256 (url @ put_uint32 (of_nat index)))"

definition hashKey :: "string \<Rightarrow> 64 word" where
  "hashKey key = get_uint64 (sha256 key)"

definition ring_entries :: "heap \<Rightarrow> uid list \<Rightarrow> int \<Rightarrow> ring" where
  "ring_entries h pool virtualNodes =
     concat (map (\<lambda>u. map (\<lambda>i. (hashVirtualNode (uString (uURL (h u))) i, u)) [0..<nat virtualNodes]) pool)"

definition NewConsistentHashBounded ::
  "(ring \<Rightarrow> ring) \<Rightarrow> heap \<Rightarrow> uid list \<Rightarrow> int \<Rightarrow> float64 \<Rightarrow> key_extractor \<Rightarrow> consistent_hash" where
  "NewConsistentHashBounded sort_slice h pool virtualNodes epsilon extract =
     \<lparr>c_upstreams = pool, c_ring = sort_slice (ring_entries h pool virtualNodes),
      c_epsilon = epsilon, c_extract = extract\<rparr>"

definition sorts_ring :: "(ring \<Rightarrow> ring) \<Rightarrow> bool" where
  "sorts_ring sort_slice \<longleftrightarrow> (\<forall>r. mset (sort_slice r) = mset r \<and> sorted (map fst (sort_slice r)))"

text \<open>\<^verbatim>\<open>sort.Search\<close>.\<close>

function search_loop :: "(nat \<Rightarrow> bool) \<Rightarrow> nat \<Rightarrow> nat \<Rightarrow> nat" where
  "search_loop f i j =
     (if i < j
      then let m = (i + j) div 2 in if \<not> f m then search_loop f (m + 1) j else search_loop f i m
      else i)"
  by auto

termination by (relation "measure (\<lambda>(f, i, j). j - i)") auto

declare search_loop.simps [simp del]

definition sort_Search :: "nat \<Rightarrow> (nat \<Rightarrow> bool) \<Rightarrow> nat" where
  "sort_Search n f = search_loop f 0 n"

section \<open>Pick\<close>

definition sum_loads :: "(uid \<Rightarrow> int) \<Rightarrow> uid list \<Rightarrow> int" where
  "sum_loads ld us = foldl (\<lambda>t u. s64 (t + ld u)) 0 us"

definition ch_capacity :: "float64 \<Rightarrow> (uid \<Rightarrow> int) \<Rightarrow> uid list \<Rightarrow> int" where
  "ch_capacity epsilon ld eligible =
     (let meanInflight = fdiv (of_integer (sum_loads ld eligible)) (of_integer (int (length eligible)));
          capacity = \<lceil>fmul (fadd 1 epsilon) meanInflight\<rceil>
      in if capacity < 1 then 1 else capacity)"

definition ring_start :: "ring \<Rightarrow> 64 word \<Rightarrow> nat" where
  "ring_start r pos =
     (let n = length r; start = sort_Search n (\<lambda>i. fst (r ! i) \<ge> pos) in if start = n then 0 else start)"

fun ring_walk :: "(uid \<Rightarrow> int) \<Rightarrow> int \<Rightarrow> uid list \<Rightarrow> uid list \<Rightarrow> uid list \<Rightarrow> uid option" where
  "ring_walk ld capacity eligible visited [] = None"
| "ring_walk ld capacity eligible visited (u # us) =
     (if \<not> List.member eligible u then ring_walk ld capacity eligible visited us
      else if List.member visited u then ring_walk ld capacity eligible visited us
      else if s64 (ld u + 1) \<le> capacity then Some u
      else ring_walk ld capacity eligible (u # visited) us)"

fun least_loaded :: "(uid \<Rightarrow> int) \<Rightarrow> uid list \<Rightarrow> uid option \<Rightarrow> int \<Rightarrow> uid option" where
  "least_loaded ld [] best bestInflight = best"
| "least_loaded ld (u # us) best bestInflight =
     (if ld u < bestInflight then least_loaded ld us (Some u) (ld u)
      else least_loaded ld us best bestInflight)"

definition ring_order :: "ring \<Rightarrow> nat \<Rightarrow> uid list" where
  "ring_order r start = map (\<lambda>i. snd (r ! ((start + i) mod length r))) [0..<length r]"

definition ch_choose :: "(nat \<Rightarrow> uid \<Rightarrow> int) \<Rightarrow> http_request \<Rightarrow> consistent_hash \<Rightarrow> uid list \<Rightarrow> pick_result" where
  "ch_choose ld req c eligible =
     (let key = (case c_extract c req of None \<Rightarrow> ClientIPKey req | Some k \<Rightarrow> k);
          pos = hashKey key;
          capacity = ch_capacity (c_epsilon c) (ld 1) eligible;
          start = ring_start (c_ring c) pos
      in case ring_walk (ld 2) capacity eligible [] (ring_order (c_ring c) start) of
           Some u \<Rightarrow> Picked u
         | None \<Rightarrow> (case least_loaded (ld 3) eligible None max_int64 of Some u \<Rightarrow> Picked u | None \<Rightarrow> PickedNil))"

definition ch_Pick_loads ::
  "(nat \<Rightarrow> uid \<Rightarrow> int) \<Rightarrow> http_request \<Rightarrow> time \<Rightarrow> uid list \<Rightarrow> consistent_hash \<Rightarrow> heap
    \<Rightarrow> pick_result \<times> consistent_hash \<times> heap" where
  "ch_Pick_loads ld req now exclude c h =
     (let (eligible, h') = eligibleSet now (c_upstreams c) exclude h
      in case eligible of
           [] \<Rightarrow> (NoEligibleUpstream, c, h')
         | [u] \<Rightarrow> (Picked u, c, h')
         | _ \<Rightarrow> (ch_choose ld req c eligible, c, h'))"

definition ch_Pick ::
  "http_request \<Rightarrow> time \<Rightarrow> uid list \<Rightarrow> consistent_hash \<Rightarrow> heap \<Rightarrow> pick_result \<times> consistent_hash \<times> heap" where
  "ch_Pick req now exclude c h = ch_Pick_loads (\<lambda>_ u. uInFlight (h u)) req now exclude c h"

section \<open>The binary search\<close>

lemma search_loop_least:
  assumes "i \<le> j" and "\<forall>a b. a \<le> b \<and> b < n \<and> f a \<longrightarrow> f b" and "j \<le> n"
    and "\<forall>k < i. \<not> f k" and "\<forall>k. j \<le> k \<and> k < n \<longrightarrow> f k"
  shows "search_loop f i j \<le> n \<and> (\<forall>k < search_loop f i j. \<not> f k) \<and>
    (\<forall>k. search_loop f i j \<le> k \<and> k < n \<longrightarrow> f k)"
  using assms
proof (induction f i j rule: search_loop.induct)
  case (1 f i j)
  define m where "m = (i + j) div 2"
  show ?case
  proof (cases "i < j")
    case False
    then have "search_loop f i j = j" using "1.prems"(1) by (subst search_loop.simps) simp
    then show ?thesis using "1.prems" False by simp
  next
    case True
    then have m: "i \<le> m" "m < j" by (auto simp: m_def)
    show ?thesis
    proof (cases "f m")
      case True
      have "search_loop f i j = search_loop f i m" using \<open>i < j\<close> True by (subst search_loop.simps) (simp add: m_def)
      moreover have "\<forall>k. m \<le> k \<and> k < n \<longrightarrow> f k" using "1.prems"(2) True by blast
      moreover have "\<not> \<not> f m" "m \<le> n" using True m(2) "1.prems"(3) by simp_all
      ultimately show ?thesis
        using "1.IH"(2) [OF \<open>i < j\<close> m_def _ m(1) "1.prems"(2) _ "1.prems"(4)] by presburger
    next
      case False
      have "search_loop f i j = search_loop f (m + 1) j" using \<open>i < j\<close> False by (subst search_loop.simps) (simp add: m_def)
      moreover have "\<forall>k < m + 1. \<not> f k" using "1.prems"(2,3) False m(2) by (metis less_Suc_eq_le add.right_neutral add_Suc_right One_nat_def less_le_trans)
      moreover have "m + 1 \<le> j" using m(2) by simp
      ultimately show ?thesis
        using "1.IH"(1) [OF \<open>i < j\<close> m_def False _ "1.prems"(2,3) _ "1.prems"(5)] by presburger
    qed
  qed
qed

lemma sort_Search_least:
  assumes "\<forall>a b. a \<le> b \<and> b < n \<and> f a \<longrightarrow> f b"
  shows "sort_Search n f \<le> n" and "k < sort_Search n f \<Longrightarrow> \<not> f k"
    and "sort_Search n f \<le> k \<Longrightarrow> k < n \<Longrightarrow> f k"
proof -
  have "search_loop f 0 n \<le> n \<and> (\<forall>k < search_loop f 0 n. \<not> f k) \<and> (\<forall>k. search_loop f 0 n \<le> k \<and> k < n \<longrightarrow> f k)"
    by (rule search_loop_least [OF le0 assms order_refl]) auto
  then show "sort_Search n f \<le> n" and "k < sort_Search n f \<Longrightarrow> \<not> f k"
    and "sort_Search n f \<le> k \<Longrightarrow> k < n \<Longrightarrow> f k"
    unfolding sort_Search_def by blast+
qed

lemma ring_start_clockwise:
  assumes "sorted (map fst r)" and "r \<noteq> []"
  shows "ring_start r pos < length r \<and>
    (fst (r ! ring_start r pos) \<ge> pos \<and> (\<forall>k < ring_start r pos. fst (r ! k) < pos) \<or>
     ring_start r pos = 0 \<and> (\<forall>k < length r. fst (r ! k) < pos))"
proof -
  let ?f = "\<lambda>i. fst (r ! i) \<ge> pos"
  have "?f b" if "a \<le> b" "b < length r" "?f a" for a b
    using that sorted_nth_mono [OF assms(1), of a b] by simp
  then have mono: "\<forall>a b. a \<le> b \<and> b < length r \<and> ?f a \<longrightarrow> ?f b" by blast
  define s where "s = sort_Search (length r) ?f"
  have S: "s \<le> length r" "\<And>k. k < s \<Longrightarrow> \<not> ?f k" "\<And>k. s \<le> k \<Longrightarrow> k < length r \<Longrightarrow> ?f k"
    unfolding s_def by (rule sort_Search_least [of "length r" ?f, OF mono]; assumption)+
  have start: "ring_start r pos = (if s = length r then 0 else s)" by (simp add: ring_start_def s_def Let_def)
  show ?thesis
  proof (cases "s = length r")
    case True
    then show ?thesis using S(2) assms(2) start by (auto simp: not_le)
  next
    case False
    then have "s < length r" using S(1) by simp
    then show ?thesis using S start False by (auto simp: not_le)
  qed
qed

section \<open>The walk and the fallback\<close>

lemma ring_order_rotate: "ring_order r s = map snd (rotate s r)"
  by (cases "r = []") (auto simp: ring_order_def nth_rotate add.commute intro!: nth_equalityI)

lemma set_ring_order [simp]: "set (ring_order r s) = snd ` set r"
  by (simp add: ring_order_rotate)

text \<open>The walk returns the first upstream of the order that is eligible and under the cap.\<close>

lemma ring_walk_find:
  "(\<forall>v \<in> set visited. \<not> s64 (ld v + 1) \<le> cap) \<Longrightarrow>
   ring_walk ld cap el visited us = find (\<lambda>u. u \<in> set el \<and> s64 (ld u + 1) \<le> cap) us"
  by (induction us arbitrary: visited) auto

lemma least_loaded_Some:
  "least_loaded ld us best b = Some u \<Longrightarrow> (u \<in> set us \<and> ld u < b \<and> (\<forall>v \<in> set us. ld u \<le> ld v)) \<or>
     (best = Some u \<and> (\<forall>v \<in> set us. b \<le> ld v))"
  by (induction us arbitrary: best b) (fastforce split: if_splits)+

lemma least_loaded_None: "least_loaded ld us best b = None \<longleftrightarrow> best = None \<and> (\<forall>v \<in> set us. b \<le> ld v)"
  by (induction us arbitrary: best b) (auto split: if_splits)

lemma ch_choose_cases:
  assumes "\<forall>u \<in> set cs. ld 3 u < max_int64" and "cs \<noteq> []"
  shows "\<exists>u. ch_choose ld req c cs = Picked u \<and> u \<in> set cs \<and>
    (s64 (ld 2 u + 1) \<le> ch_capacity (c_epsilon c) (ld 1) cs \<or>
     (\<forall>v \<in> set cs \<inter> snd ` set (c_ring c). \<not> s64 (ld 2 v + 1) \<le> ch_capacity (c_epsilon c) (ld 1) cs) \<and>
     (\<forall>v \<in> set cs. ld 3 u \<le> ld 3 v))"
proof -
  define cap where "cap = ch_capacity (c_epsilon c) (ld 1) cs"
  define k where "k = (case c_extract c req of None \<Rightarrow> ClientIPKey req | Some k \<Rightarrow> k)"
  define ord where "ord = ring_order (c_ring c) (ring_start (c_ring c) (hashKey k))"
  define mx where "mx = max_int64"
  have ch: "ch_choose ld req c cs = (case find (\<lambda>u. u \<in> set cs \<and> s64 (ld 2 u + 1) \<le> cap) ord of
      Some u \<Rightarrow> Picked u
    | None \<Rightarrow> (case least_loaded (ld 3) cs None mx of Some u \<Rightarrow> Picked u | None \<Rightarrow> PickedNil))"
    unfolding ch_choose_def Let_def k_def [symmetric] ord_def [symmetric] cap_def [symmetric] mx_def [symmetric]
    by (simp add: ring_walk_find)
  show ?thesis
  proof (cases "find (\<lambda>u. u \<in> set cs \<and> s64 (ld 2 u + 1) \<le> cap) ord")
    case (Some u)
    then have "u \<in> set cs \<and> s64 (ld 2 u + 1) \<le> cap" by (auto simp: find_Some_iff)
    with Some ch show ?thesis by (auto simp: cap_def)
  next
    case None
    then have over: "\<forall>v \<in> set cs \<inter> snd ` set (c_ring c). \<not> s64 (ld 2 v + 1) \<le> cap"
      by (auto simp: find_None_iff ord_def)
    have "hd cs \<in> set cs" "ld 3 (hd cs) < mx" using assms by (simp_all add: mx_def)
    then have "least_loaded (ld 3) cs None mx \<noteq> None" by (auto simp: least_loaded_None not_le intro!: bexI)
    then obtain u where u: "least_loaded (ld 3) cs None mx = Some u" by blast
    with least_loaded_Some [OF this] None ch over show ?thesis by (auto simp: cap_def)
  qed
qed

lemma ch_Pick_loads_eq:
  "ch_Pick_loads ld req now ex c h =
    (let cs = candidates now (c_upstreams c) ex h
     in (if cs = [] then NoEligibleUpstream else if length cs = 1 then Picked (hd cs) else ch_choose ld req c cs,
         c, look_pool now (c_upstreams c) h))"
  by (simp add: ch_Pick_loads_def eligibleSet_eq split: list.split)

definition ch_ready :: "consistent_hash \<Rightarrow> heap \<Rightarrow> bool" where
  "ch_ready c h \<longleftrightarrow> (\<forall>u \<in> set (c_upstreams c). uInFlight (h u) < max_int64)"

lemma ch_choose_in: "cs \<noteq> [] \<Longrightarrow> ch_choose ld req c cs = Picked u \<Longrightarrow> u \<in> set cs"
  by (auto simp: ch_choose_def Let_def ring_walk_find find_Some_iff dest: least_loaded_Some split: option.splits)

interpretation ch: selector ch_Pick c_upstreams ch_ready "\<lambda>_ _. True"
proof unfold_locales
  fix e :: http_request and now ex and s :: consistent_hash and h
  let ?c = "candidates now (c_upstreams s) ex h"
  show "\<exists>u. fst (ch_Pick e now ex s h) = Picked u" if "ch_ready s h" "?c \<noteq> []"
  proof (cases "length ?c = 1")
    case False
    have "\<forall>u \<in> set ?c. uInFlight (h u) < max_int64" using that(1) by (auto simp: ch_ready_def dest: candidates_in_pool)
    from ch_choose_cases [where ld = "\<lambda>_ u. uInFlight (h u)", OF this that(2)] obtain u
      where "ch_choose (\<lambda>_ u. uInFlight (h u)) e s ?c = Picked u" by blast
    with False that(2) show ?thesis by (simp add: ch_Pick_def ch_Pick_loads_eq Let_def)
  qed (use that(2) in \<open>simp add: ch_Pick_def ch_Pick_loads_eq Let_def\<close>)
  show "u \<in> set ?c" if "fst (ch_Pick e now ex s h) = Picked u" for u
    using that ch_choose_in [of ?c] by (auto simp: ch_Pick_def ch_Pick_loads_eq Let_def split: if_splits)
qed (auto simp: ch_Pick_def ch_Pick_loads_eq Let_def ch_ready_def)

section \<open>The load cap\<close>

lemma sum_loads_eq:
  assumes "\<forall>u \<in> set us. 0 \<le> ld u" and "(\<Sum>u \<leftarrow> us. ld u) < 2 ^ 53"
  shows "sum_loads ld us = (\<Sum>u \<leftarrow> us. ld u)"
proof -
  have "foldl (\<lambda>t u. s64 (t + ld u)) t us = t + (\<Sum>u \<leftarrow> us. ld u)"
    if "0 \<le> t" "\<forall>u \<in> set us. 0 \<le> ld u" "t + (\<Sum>u \<leftarrow> us. ld u) < 2 ^ 53" for t us
    using that
  proof (induction us arbitrary: t)
    case (Cons u us)
    have "0 \<le> (\<Sum>u \<leftarrow> us. ld u)" using Cons.prems(2) by (intro sum_list_nonneg) auto
    then have "in64 (t + ld u)" using Cons.prems by (simp add: in64_def)
    then show ?case using Cons by (simp add: s64_id)
  qed simp
  from this [of 0 us] assms show ?thesis by (simp add: sum_loads_def)
qed

lemma sum_list_lower: "\<forall>u \<in> set us. m \<le> f u \<Longrightarrow> int (length us) * m \<le> (\<Sum>u \<leftarrow> us. f u)"
  by (induction us) (auto simp: algebra_simps intro: add_mono)

text \<open>
  The cap leaves room on the least loaded candidate: with \<^verbatim>\<open>epsilon\<close> at least \<open>2 ^ -20\<close> the rounding of
  the two \<^verbatim>\<open>float64\<close> operations cannot eat the slack.
\<close>

lemma capacity_above_minimum:
  assumes "us \<noteq> []" and "\<forall>u \<in> set us. m \<le> ld u" and "0 \<le> m" and "m < 2 ^ 32"
    and "(\<Sum>u \<leftarrow> us. ld u) < 2 ^ 53" and "length us < 2 ^ 53" and "1 / 2 ^ 20 \<le> eps"
  shows "m + 1 \<le> ch_capacity eps ld us"
proof (cases "m = 0")
  case False
  define t n where "t = (\<Sum>u \<leftarrow> us. ld u)" and "n = int (length us)"
  have n: "0 < n" "n < 2 ^ 53" using assms(1,6) by (simp_all add: n_def)
  have nm: "n * m \<le> t" using sum_list_lower [OF assms(2)] by (simp add: t_def n_def)
  have "0 \<le> n * m" using n assms(3) by simp
  then have t: "sum_loads ld us = t" "\<bar>t\<bar> < 2 ^ 53"
    using sum_loads_eq [of us ld] assms(2,3,5) nm unfolding t_def [symmetric] by fastforce+
  have "of_int (n * m) \<le> (of_int t :: rat)" using nm by (simp only: of_int_le_iff)
  then have "of_int m \<le> (of_int t / of_int n :: rat)" using n by (simp add: pos_le_divide_eq mult.commute)
  then have mean: "of_int m \<le> fdiv (of_int t) (of_int n)"
    using rnd_mono [of "of_int m" "of_int t / of_int n"] rnd_of_int [of m] assms(3,4) by simp
  let ?q = "1 + 1 / 2 ^ 20 :: rat"
  have "rnd ?q \<le> fadd 1 eps" using assms(7) by (intro rnd_mono) simp
  moreover have "rnd ?q = ?q" by code_simp
  ultimately have eps: "?q \<le> fadd 1 eps" by simp
  have "?q * of_int m \<le> fadd 1 eps * fdiv (of_int t) (of_int n)"
    using eps mean assms(3) by (intro mult_mono) simp_all
  then have "rnd (?q * of_int m) \<le> fmul (fadd 1 eps) (fdiv (of_int t) (of_int n))" by (rule rnd_mono)
  moreover have "rnd (?q * of_int m) = ?q * of_int m"
  proof (rule rnd_representable)
    show "?q * of_int m = of_int ((2 ^ 20 + 1) * m) * pow2 (- 20)" by (simp add: pow2_def algebra_simps)
  qed (use assms(3,4) in simp_all)
  moreover have "of_int m < ?q * of_int m" using False assms(3) by simp
  moreover define C where "C = \<lceil>fmul (fadd 1 eps) (fdiv (of_int t) (of_int n))\<rceil>"
  ultimately have "m < C" by (simp add: less_ceiling_iff)
  moreover have "of_integer t = of_int t" "of_integer n = of_int n" using t n by (simp_all add: rnd_of_int)
  then have "ch_capacity eps ld us = (if C < 1 then 1 else C)"
    unfolding ch_capacity_def Let_def t n_def [symmetric] C_def by (simp only:)
  ultimately show ?thesis using assms(3) by simp
qed (simp add: ch_capacity_def Let_def)

section \<open>Properties\<close>

lemma set_ring_entries: "snd ` set (ring_entries h pool vn) = (if vn \<le> 0 then {} else set pool)"
  by (auto simp: ring_entries_def image_iff intro!: exI [of _ 0])

lemma sorts_ring_set: "sorts_ring f \<Longrightarrow> set (f r) = set r"
  by (metis set_mset_mset sorts_ring_def)

lemma ring_of_new:
  assumes "sorts_ring f" and "c = NewConsistentHashBounded f h0 pool vn eps ext" and "0 < vn"
  shows "c_upstreams c = pool" "snd ` set (c_ring c) = set pool" "sorted (map fst (c_ring c))" "c_epsilon c = eps"
  using assms set_ring_entries [of h0 pool vn] by (auto simp: NewConsistentHashBounded_def sorts_ring_set sorts_ring_def)

lemma ch_Pick_many:
  "\<lbrakk> candidates now (c_upstreams c) ex h = cs; 1 < length cs \<rbrakk> \<Longrightarrow>
   fst (ch_Pick req now ex c h) = ch_choose (\<lambda>_ u. uInFlight (h u)) req c cs"
  by (auto simp: ch_Pick_def ch_Pick_loads_eq Let_def)



lemma find_first: "\<forall>x \<in> set xs. \<not> P x \<Longrightarrow> P y \<Longrightarrow> find P (xs @ y # ys) = Some y"
  by (induction xs) auto

text \<open>Clockwise distance on the ring is subtraction modulo \<open>2 ^ 64\<close>.\<close>

lemma distance_mono:
  fixes a b pos :: "64 word"
  assumes "a \<le> b" and "pos \<le> a \<or> b < pos"
  shows "a - pos \<le> b - pos"
  using assms by (auto simp: word_le_nat_alt word_less_nat_alt unat_sub_if')

lemma distance_wraps:
  fixes a b pos :: "64 word"
  assumes "a < pos" and "pos \<le> b"
  shows "b - pos \<le> a - pos"
proof -
  have "unat b < 2 ^ 64" using unsigned_less [of b, where ?'a = nat] by simp
  then show ?thesis using assms by (auto simp: word_le_nat_alt word_less_nat_alt unat_sub_if')
qed

lemma rotate_sorted_distance:
  assumes "sorted (map fst r)"
  shows "sorted (map (\<lambda>e. fst e - pos) (rotate (ring_start r pos) r))"
proof (cases "r = []")
  case False
  define s where "s = ring_start r pos"
  have before: "fst (r ! k) < pos" if "k < s" for k
    using ring_start_clockwise [OF assms False, of pos] that by (auto simp: s_def)
  have s: "s < length r" using ring_start_clockwise [OF assms False, of pos] by (simp add: s_def)
  have after: "pos \<le> fst (r ! k) \<or> s = 0 \<and> (\<forall>k < length r. fst (r ! k) < pos)" if "s \<le> k" "k < length r" for k
    using ring_start_clockwise [OF assms False, of pos] sorted_nth_mono [OF assms, of s k] that
    by (auto simp: s_def [symmetric] intro: order_trans)
  have "fst (r ! i) - pos \<le> fst (r ! j) - pos" if "i \<le> j" "j < length r" "s \<le> i \<or> j < s" for i j
  proof (rule distance_mono)
    show "fst (r ! i) \<le> fst (r ! j)" using sorted_nth_mono [OF assms, of i j] that by simp
    show "pos \<le> fst (r ! i) \<or> fst (r ! j) < pos" using after [of i] before [of j] that by auto
  qed
  moreover have wraps: "fst (r ! i) - pos \<le> fst (r ! j) - pos" if "j < s" "s \<le> i" "i < length r" for i j
    using after [of i] before [of j] that by (intro distance_wraps) auto
  moreover from calculation have "sorted (map (\<lambda>e. fst e - pos) (drop s r))" "sorted (map (\<lambda>e. fst e - pos) (take s r))"
    by (auto simp: sorted_iff_nth_mono)
  moreover have "fst x - pos \<le> fst y - pos" if xy: "x \<in> set (drop s r)" "y \<in> set (take s r)" for x y
  proof -
    obtain i j where "x = r ! (s + i)" "i < length r - s" "y = r ! j" "j < s"
      using xy s by (auto simp: in_set_conv_nth)
    then show ?thesis using wraps [of j "s + i"] by simp
  qed
  ultimately show ?thesis
    unfolding s_def [symmetric] using s by (simp add: rotate_drop_take sorted_append)
qed simp

text \<open>
  Clockwise ownership: when every candidate is within the cap, the pick is the owner of the
  key: the upstream of a ring entry whose clockwise distance from the key's hash (subtraction
  modulo \<open>2 ^ 64\<close>) is smallest among the entries of all candidates.
\<close>

theorem consistent_hash_owner:
  assumes "sorts_ring f" and "c = NewConsistentHashBounded f h0 pool vn eps ext" and "0 < vn"
    and "candidates now pool ex h = cs" and "1 < length cs"
    and "\<forall>u \<in> set cs. s64 (uInFlight (h u) + 1) \<le> ch_capacity eps (\<lambda>u. uInFlight (h u)) cs"
    and "pos = hashKey (case ext req of None \<Rightarrow> ClientIPKey req | Some k \<Rightarrow> k)"
  shows "\<exists>p u. (p, u) \<in> set (c_ring c) \<and> u \<in> set cs \<and> fst (ch_Pick req now ex c h) = Picked u \<and>
    (\<forall>(q, v) \<in> set (c_ring c). v \<in> set cs \<longrightarrow> p - pos \<le> q - pos)"
proof -
  note ring = ring_of_new [OF assms(1,2,3)]
  define es where "es = rotate (ring_start (c_ring c) pos) (c_ring c)"
  have [simp]: "set es = set (c_ring c)" by (simp add: es_def)
  have ext: "c_extract c = ext" using assms(2) by (simp add: NewConsistentHashBounded_def)
  obtain w where w: "w \<in> set cs" using assms(5) by (cases cs) auto
  then have "w \<in> snd ` set es" using ring(2) assms(4) candidates_in_pool by fastforce
  with w have "\<exists>e \<in> set es. snd e \<in> set cs" by auto
  then obtain xs e ys where split: "es = xs @ e # ys" "snd e \<in> set cs" "\<forall>x \<in> set xs. snd x \<notin> set cs"
    using split_list_first_prop [of es "\<lambda>e. snd e \<in> set cs"] by auto
  have "find (\<lambda>u. u \<in> set cs \<and> s64 (uInFlight (h u) + 1) \<le> ch_capacity eps (\<lambda>u. uInFlight (h u)) cs) (map snd es) = Some (snd e)"
    using split assms(6) by (auto intro!: find_first)
  then have pick: "fst (ch_Pick req now ex c h) = Picked (snd e)"
    using ch_Pick_many [of now c ex h cs req] assms(4,5,7) ring(1,4)
    by (simp add: ch_choose_def ext Let_def ring_walk_find ring_order_rotate es_def)
  have sorted: "sorted (map (\<lambda>e. fst e - pos) es)" unfolding es_def by (rule rotate_sorted_distance [OF ring(3)])
  have "fst e - pos \<le> q - pos" if "(q, v) \<in> set (c_ring c)" "v \<in> set cs" for q v
    using sorted that split by (auto simp: sorted_append simp flip: \<open>set es = set (c_ring c)\<close>)
  moreover have "e \<in> set (c_ring c)" using split(1) by (simp flip: \<open>set es = set (c_ring c)\<close>)
  ultimately show ?thesis using pick split(2) by (intro exI [of _ "fst e"] exI [of _ "snd e"]) auto
qed

lemma ch_capacity_ge_1: "1 \<le> ch_capacity eps ld cs"
  by (simp add: ch_capacity_def Let_def)

theorem consistent_hash_owner_witness:
  "\<exists>u \<in> {0, 1}. fst (ch_Pick (sample_request []) 0 [] (NewConsistentHashBounded (sort_key fst) (\<lambda>u. sample_upstream ''a'' 1) [0, 1] 2 (1/4) (HeaderKey ''k'')) (\<lambda>u. sample_upstream ''a'' 1)) = Picked u"
proof -
  have [simp]: "s64 1 = 1" "uInFlight (sample_upstream ''a'' 1) = 0" by (simp_all add: s64_def sample_upstream_def)
  have c: "candidates 0 [0, 1] [] (\<lambda>u. sample_upstream ''a'' 1) = [0, 1]" by (simp add: candidates_def)
  show ?thesis
    using consistent_hash_owner [OF _ refl _ c, where f = "sort_key fst" and vn = 2 and eps = "1/4"
        and ext = "HeaderKey ''k''" and ?h0.0 = "\<lambda>u. sample_upstream ''a'' 1" and req = "sample_request []"] by (auto simp: sorts_ring_def ch_capacity_ge_1)
qed

lemma find_restrict: "\<lbrakk> find P xs = Some u; Q u; \<And>x. Q x \<Longrightarrow> P x \<rbrakk> \<Longrightarrow> find Q xs = Some u"
  by (induction xs) (auto split: if_splits)

lemma ch_Pick_idle:
  assumes "\<forall>w \<in> set (c_upstreams c). uInFlight (h w) = 0" and "set (c_upstreams c) \<subseteq> snd ` set (c_ring c)"
  shows "fst (ch_Pick req now ex c h) =
    (case find (\<lambda>u. u \<in> set (candidates now (c_upstreams c) ex h))
        (ring_order (c_ring c) (ring_start (c_ring c) (hashKey (case c_extract c req of None \<Rightarrow> ClientIPKey req | Some k \<Rightarrow> k))))
     of None \<Rightarrow> NoEligibleUpstream | Some u \<Rightarrow> Picked u)"
    (is "_ = (case find _ ?ord of None \<Rightarrow> _ | Some u \<Rightarrow> _)")
proof -
  let ?cs = "candidates now (c_upstreams c) ex h"
  have s: "s64 1 = 1" by (simp add: s64_def)
  have load: "s64 (uInFlight (h u) + 1) \<le> ch_capacity (c_epsilon c) (\<lambda>u. uInFlight (h u)) ?cs" if "u \<in> set ?cs" for u
    using assms(1) candidates_in_pool [OF that] by (simp add: s ch_capacity_ge_1)
  have ring: "set ?cs \<subseteq> set ?ord" using assms(2) by (auto dest: candidates_in_pool)
  consider "?cs = []" | x where "?cs = [x]" | "1 < length ?cs" by (cases ?cs rule: list.exhaust; cases "tl ?cs") auto
  then show ?thesis
  proof cases
    case 1
    then show ?thesis by (auto simp: ch_Pick_def ch_Pick_loads_eq find_None_iff split: option.split dest: sym)
  next
    case (2 x)
    then have "find (\<lambda>u. u \<in> set ?cs) ?ord = Some x"
      using ring by (cases "find (\<lambda>u. u \<in> set ?cs) ?ord") (auto simp: find_None_iff find_Some_iff)
    with 2 show ?thesis by (simp add: ch_Pick_def ch_Pick_loads_eq Let_def)
  next
    case 3
    then have "hd ?cs \<in> set ?cs" by (intro hd_in_set) auto
    then have "find (\<lambda>u. u \<in> set ?cs) ?ord \<noteq> None" using ring unfolding find_None_iff by blast
    then obtain u where u: "find (\<lambda>u. u \<in> set ?cs) ?ord = Some u" by blast
    then have "u \<in> set ?cs" by (auto simp: find_Some_iff)
    with u load have "find (\<lambda>u. u \<in> set ?cs \<and> s64 (uInFlight (h u) + 1) \<le> ch_capacity (c_epsilon c) (\<lambda>u. uInFlight (h u)) ?cs) ?ord = Some u"
      by (intro find_restrict [OF u]) auto
    with u 3 show ?thesis by (simp add: ch_Pick_many [OF refl 3] ch_choose_def Let_def ring_walk_find)
  qed
qed

text \<open>
  (C39) Minimal disruption: on an idle pool, if a key maps to upstream \<open>u\<close> then it still maps to \<open>u\<close>
  after any other upstream \<open>v\<close> is withdrawn (here through the exclude list); only the keys of \<open>v\<close> move.
\<close>

theorem consistent_hash_minimal_disruption:
  assumes "sorts_ring f" and "c = NewConsistentHashBounded f h0 pool vn eps ext" and "0 < vn"
    and "\<forall>w \<in> set pool. uInFlight (h w) = 0"
    and "fst (ch_Pick req now ex c h) = Picked u" and "u \<noteq> v"
  shows "fst (ch_Pick req now (v # ex) c h) = Picked u"
proof -
  note ring = ring_of_new [OF assms(1,2,3)]
  define ord where "ord = ring_order (c_ring c) (ring_start (c_ring c) (hashKey (case c_extract c req of None \<Rightarrow> ClientIPKey req | Some k \<Rightarrow> k)))"
  have idle: "fst (ch_Pick req now ex' c h) =
    (case find (\<lambda>u. u \<in> set (candidates now pool ex' h)) ord of None \<Rightarrow> NoEligibleUpstream | Some u \<Rightarrow> Picked u)" for ex'
    using ch_Pick_idle [of c h req now ex'] assms(4) ring unfolding ord_def by simp
  from assms(5) have u: "find (\<lambda>u. u \<in> set (candidates now pool ex h)) ord = Some u"
    unfolding idle by (auto split: option.splits)
  then have "u \<in> set (candidates now pool ex h)" by (auto simp: find_Some_iff)
  then have "find (\<lambda>u. u \<in> set (candidates now pool (v # ex) h)) ord = Some u"
    using assms(6) by (intro find_restrict [OF u]) (auto simp: set_candidates)
  then show ?thesis unfolding idle by simp
qed

theorem consistent_hash_minimal_disruption_witness:
  "\<exists>u \<in> {0, 1, 2}. \<forall>v. v \<noteq> u \<longrightarrow> fst (ch_Pick (sample_request []) 0 [v] (NewConsistentHashBounded (sort_key fst) (\<lambda>u. sample_upstream ''a'' 1) [0, 1, 2] 2 (1/4) (CookieKey ''s''))
     (\<lambda>u. sample_upstream ''a'' 1)) = Picked u"
proof -
  let ?h = "\<lambda>u :: uid. sample_upstream ''a'' 1"
  let ?c = "NewConsistentHashBounded (sort_key fst) (\<lambda>u. sample_upstream ''a'' 1) [0, 1, 2] 2 (1/4) (CookieKey ''s'')"
  have up: "c_upstreams ?c = [0, 1, 2]" by (simp add: NewConsistentHashBounded_def)
  have srt: "sorts_ring (sort_key fst)" by (simp add: sorts_ring_def)
  have "candidates 0 (c_upstreams ?c) [] ?h = [0, 1, 2]" unfolding up by (simp add: candidates_def)
  moreover have "ch_ready ?c ?h" by (simp add: ch_ready_def sample_upstream_def)
  ultimately obtain u where u: "fst (ch_Pick (sample_request []) 0 [] ?c ?h) = Picked u" using ch.progress [of ?c ?h 0 "[]"] by auto
  then have "u \<in> {0, 1, 2}" using ch.picked_healthy [OF u] up by auto
  moreover have "fst (ch_Pick (sample_request []) 0 [v] ?c ?h) = Picked u" if "v \<noteq> u" for v
    by (rule consistent_hash_minimal_disruption [OF srt refl _ _ u]) (use that in \<open>auto simp: sample_upstream_def\<close>)
  ultimately show ?thesis by blast
qed

end
