(* ===== verification/Selectors.thy ===== *)
theory Selectors
  imports RoundRobin Weighted LeastConnections P2C ConsistentHash
begin

text \<open>
  A pool's selector: a value of the Go interface type \<^verbatim>\<open>lb.Selector\<close> (\<^verbatim>\<open>internal/lb/selector.go\<close>) is one of
  the five algorithms, and \<^verbatim>\<open>Pick\<close> on it is a dynamic dispatch. What an algorithm takes from its
  environment (the request, the random draws) is one record here. The dispatching \<open>sel_Pick\<close>
  again interprets the locale \<open>selector\<close>, from the interpretations of the five.
\<close>

datatype any_selector =
  SelRoundRobin round_robin
| SelWeighted weighted_round_robin
| SelLeastConnections least_connections
| SelP2C p2c
| SelConsistentHash consistent_hash

record pick_env =
  peRequest :: http_request
  peDraw :: "nat \<Rightarrow> nat"
  pePair :: "nat \<times> nat"

fun sel_pool :: "any_selector \<Rightarrow> uid list" where
  "sel_pool (SelRoundRobin s) = rr_pool s"
| "sel_pool (SelWeighted s) = w_pool s"
| "sel_pool (SelLeastConnections s) = l_pool s"
| "sel_pool (SelP2C s) = p_pool s"
| "sel_pool (SelConsistentHash s) = c_upstreams s"

fun sel_Pick :: "pick_env \<Rightarrow> time \<Rightarrow> uid list \<Rightarrow> any_selector \<Rightarrow> heap \<Rightarrow> pick_result \<times> any_selector \<times> heap" where
  "sel_Pick e now ex (SelRoundRobin s) h = apsnd (apfst SelRoundRobin) (rr_Pick () now ex s h)"
| "sel_Pick e now ex (SelWeighted s) h = apsnd (apfst SelWeighted) (wrr_Pick () now ex s h)"
| "sel_Pick e now ex (SelLeastConnections s) h = apsnd (apfst SelLeastConnections) (lc_Pick (peDraw e) now ex s h)"
| "sel_Pick e now ex (SelP2C s) h = apsnd (apfst SelP2C) (p2c_Pick (pePair e) now ex s h)"
| "sel_Pick e now ex (SelConsistentHash s) h = apsnd (apfst SelConsistentHash) (ch_Pick (peRequest e) now ex s h)"

fun sel_ready :: "any_selector \<Rightarrow> heap \<Rightarrow> bool" where
  "sel_ready (SelRoundRobin s) h = True"
| "sel_ready (SelWeighted s) h = wrr_ready s h"
| "sel_ready (SelLeastConnections s) h = lc_ready s h"
| "sel_ready (SelP2C s) h = True"
| "sel_ready (SelConsistentHash s) h = ch_ready s h"

definition sel_draws :: "pick_env \<Rightarrow> nat \<Rightarrow> bool" where
  "sel_draws e n \<longleftrightarrow> in_range (peDraw e) n \<and> p2c_draws (pePair e) n"

interpretation sel: selector sel_Pick sel_pool sel_ready sel_draws
proof unfold_locales
  fix e now ex s h u
  show "fst (sel_Pick e now ex s h) = Picked u \<Longrightarrow> u \<in> set (candidates now (sel_pool s) ex h)"
    by (cases s) (simp_all add: rr.sound wrr.sound lc.sound p2c.sound ch.sound)
  show "candidates now (sel_pool s) ex h = [] \<Longrightarrow> fst (sel_Pick e now ex s h) = NoEligibleUpstream"
    by (cases s) (simp_all add: rr.empty wrr.empty lc.empty p2c.empty ch.empty)
  show "snd (snd (sel_Pick e now ex s h)) = look_pool now (sel_pool s) h"
    by (cases s) (simp_all add: rr.writes wrr.writes lc.writes p2c.writes ch.writes)
  show "sel_pool (fst (snd (sel_Pick e now ex s h))) = sel_pool s"
    by (cases s) (simp_all add: rr.pool_fixed wrr.pool_fixed lc.pool_fixed p2c.pool_fixed ch.pool_fixed)
  show "sel_ready (fst (snd (sel_Pick e now ex s h))) (snd (snd (sel_Pick e now ex s h)))" if "sel_ready s h"
    using that by (cases s) (simp_all add: wrr.ready_kept lc.ready_kept ch.ready_kept)
  show "\<exists>u. fst (sel_Pick e now ex s h) = Picked u"
    if "sel_ready s h" "candidates now (sel_pool s) ex h \<noteq> []" "sel_draws e (length (candidates now (sel_pool s) ex h))"
    using that by (cases s) (simp_all add: sel_draws_def rr.progress wrr.progress lc.progress p2c.progress ch.progress)
qed

end
