(* ===== verification/Router.thy ===== *)
theory Router
  imports GoStrings "HOL-Library.List_Lexorder" "HOL-Library.Char_ord"
begin

text \<open>
  The request matcher of \<^verbatim>\<open>internal/router/router.go\<close>: route validation, the host buckets, the stable
  sort of a bucket and the descent of \<^verbatim>\<open>Match\<close>. \<^verbatim>\<open>NewRouter\<close> collects the wildcard buckets by ranging
  over a Go map and then sorts them with the unstable \<^verbatim>\<open>sort.Slice\<close>: the order of suffixes of equal
  length is not determined by the code, so the arrangement is an argument and \<open>arranges\<close> is what the
  two operations promise. The main theorem says that \<^verbatim>\<open>Match\<close> implements a specification in which
  no such order occurs.
\<close>

section \<open>Model\<close>

record header_predicate =
  hpName :: string
  hpValue :: string

record 'h route =
  rtName :: string
  rtHostPattern :: string
  rtPathPrefix :: string
  rtHeaderPredicates :: "header_predicate list"
  rtHandler :: 'h

record 'h route_match =
  mRoute :: "'h route"
  mPathTail :: string
  mHost :: string

type_synonym 'h buckets = "(string \<times> 'h route list) list"

record 'h router =
  hostExact :: "'h buckets"
  hostWildcards :: "'h buckets"

datatype router_error =
  DuplicateRoute string string string string string
| UnreachableRoute string string string string

definition predicatesKey :: "header_predicate list \<Rightarrow> string" where
  "predicatesKey ps =
     (if ps = [] then []
      else join '';'' (sort (map (\<lambda>p. to_lower (hpName p) @ ''='' @ hpValue p) ps)))"

definition route_key :: "'h route \<Rightarrow> string \<times> string \<times> string" where
  "route_key r = (to_lower (rtHostPattern r), rtPathPrefix r, predicatesKey (rtHeaderPredicates r))"

definition host_prefix :: "'h route \<Rightarrow> string \<times> string" where
  "host_prefix r = (to_lower (rtHostPattern r), rtPathPrefix r)"

fun validate_duplicates :: "(string \<times> string \<times> string \<rightharpoonup> string) \<Rightarrow> 'h route list \<Rightarrow> router_error option" where
  "validate_duplicates seen [] = None"
| "validate_duplicates seen (r # rs) =
     (case seen (route_key r) of
        Some name \<Rightarrow> Some (DuplicateRoute (rtHostPattern r) (rtPathPrefix r) (predicatesKey (rtHeaderPredicates r)) name (rtName r))
      | None \<Rightarrow> validate_duplicates (seen(route_key r \<mapsto> rtName r)) rs)"

fun validate_reachable :: "(string \<times> string \<rightharpoonup> string) \<Rightarrow> 'h route list \<Rightarrow> router_error option" where
  "validate_reachable openCatchAll [] = None"
| "validate_reachable openCatchAll (r # rs) =
     (if rtHeaderPredicates r = [] then validate_reachable (openCatchAll(host_prefix r \<mapsto> rtName r)) rs
      else case openCatchAll (host_prefix r) of
             Some name \<Rightarrow> Some (UnreachableRoute (rtName r) name (rtHostPattern r) (rtPathPrefix r))
           | None \<Rightarrow> validate_reachable openCatchAll rs)"

definition validate :: "'h route list \<Rightarrow> router_error option" where
  "validate routes =
     (case validate_duplicates Map.empty routes of
        Some e \<Rightarrow> Some e
      | None \<Rightarrow> validate_reachable Map.empty routes)"

text \<open>The order of \<^verbatim>\<open>sortRoutes\<close>: longer prefixes first, then more predicates first; the sort is stable.\<close>

definition bucket_order :: "'h route \<Rightarrow> int \<times> int" where
  "bucket_order r = (- int (length (rtPathPrefix r)), - int (length (rtHeaderPredicates r)))"

definition sortRoutes :: "'h route list \<Rightarrow> 'h route list" where
  "sortRoutes routes = sort_key bucket_order routes"

fun bucket_append :: "string \<Rightarrow> 'h route \<Rightarrow> 'h buckets \<Rightarrow> 'h buckets" where
  "bucket_append k r [] = [(k, [r])]"
| "bucket_append k r ((k', rs) # bs) = (if k' = k then (k', rs @ [r]) # bs else (k', rs) # bucket_append k r bs)"

definition add_route :: "'h buckets \<times> 'h buckets \<Rightarrow> 'h route \<Rightarrow> 'h buckets \<times> 'h buckets" where
  "add_route bs route =
     (let host = to_lower (rtHostPattern route)
      in if has_prefix host ''*.''
         then let suffix = drop 1 host in (fst bs, bucket_append suffix route (snd bs))
         else (bucket_append host route (fst bs), snd bs))"

definition NewRouter :: "('h buckets \<Rightarrow> 'h buckets) \<Rightarrow> 'h route list \<Rightarrow> router_error + 'h router" where
  "NewRouter arrange routes =
     (case validate routes of
        Some e \<Rightarrow> Inl e
      | None \<Rightarrow>
          let (exact, wild) = foldl add_route ([], []) routes
          in Inr \<lparr>hostExact = map (\<lambda>(k, rs). (k, sortRoutes rs)) exact,
                  hostWildcards = arrange (map (\<lambda>(k, rs). (k, sortRoutes rs)) wild)\<rparr>)"

definition arranges :: "('h buckets \<Rightarrow> 'h buckets) \<Rightarrow> bool" where
  "arranges arrange \<longleftrightarrow>
     (\<forall>bs. mset (arrange bs) = mset bs \<and> sorted_wrt (\<lambda>a b. length (fst a) \<ge> length (fst b)) (arrange bs))"

definition matchesWildcard :: "string \<Rightarrow> string \<Rightarrow> bool" where
  "matchesWildcard host suffix =
     (if \<not> has_suffix host suffix then False
      else let prefix = take (length host - length suffix) host
           in if prefix = [] then False else \<not> List.member prefix (CHR ''.''))"

definition pathMatchesPrefix :: "string \<Rightarrow> string \<Rightarrow> bool" where
  "pathMatchesPrefix path prefix =
     (if has_suffix prefix ''/'' then has_prefix path prefix
      else if path = prefix then True
      else if length path > length prefix \<and> has_prefix path prefix \<and> path ! length prefix = CHR ''/'' then True
      else False)"

definition stripPrefix :: "string \<Rightarrow> string \<Rightarrow> string" where
  "stripPrefix path prefix =
     (if has_suffix prefix ''/'' then ''/'' @ trim_prefix path prefix
      else let tail = trim_prefix path prefix in if tail = [] then ''/'' else tail)"

fun predicatesMatch :: "header_predicate list \<Rightarrow> header \<Rightarrow> bool" where
  "predicatesMatch [] h = True"
| "predicatesMatch (p # ps) h =
     (if \<not> List.member (hdr_values h (hpName p)) (hpValue p) then False else predicatesMatch ps h)"

definition canonicalizeHost :: "string \<Rightarrow> string" where
  "canonicalizeHost h0 =
     (let h = to_lower h0 in case last_index_char h (CHR '':'') of Some i \<Rightarrow> take i h | None \<Rightarrow> h)"

fun matchInBucket :: "'h route list \<Rightarrow> http_request \<Rightarrow> string \<Rightarrow> string \<Rightarrow> 'h route_match option" where
  "matchInBucket [] req path host = None"
| "matchInBucket (route # routes) req path host =
     (if \<not> pathMatchesPrefix path (rtPathPrefix route) then matchInBucket routes req path host
      else if \<not> predicatesMatch (rtHeaderPredicates route) (rHeader req) then matchInBucket routes req path host
      else Some \<lparr>mRoute = route, mPathTail = stripPrefix path (rtPathPrefix route), mHost = host\<rparr>)"

fun match_wildcards :: "'h buckets \<Rightarrow> http_request \<Rightarrow> string \<Rightarrow> string \<Rightarrow> 'h route_match option" where
  "match_wildcards [] req path host = None"
| "match_wildcards ((suffix, routes) # ws) req path host =
     (if \<not> matchesWildcard host suffix then match_wildcards ws req path host
      else case matchInBucket routes req path host of
             Some m \<Rightarrow> Some m
           | None \<Rightarrow> match_wildcards ws req path host)"

definition request_path :: "http_request \<Rightarrow> string" where
  "request_path req = (if rEscapedPath req = [] then ''/'' else rEscapedPath req)"

definition Match :: "'h router \<Rightarrow> http_request \<Rightarrow> 'h route_match option" where
  "Match r req =
     (let host = canonicalizeHost (rHost req); path = request_path req
      in case (case map_of (hostExact r) host of
                 Some list \<Rightarrow> matchInBucket list req path host
               | None \<Rightarrow> None) of
           Some m \<Rightarrow> Some m
         | None \<Rightarrow> match_wildcards (hostWildcards r) req path host)"

section \<open>Specification\<close>

text \<open>
  A route applies to a request when its host pattern, prefix and predicates do. Precedence is the
  lexicographic order on (wildcard, prefix length, number of predicates); among equals the
  configuration order decides. The specification picks the first applicable route in that order.
\<close>

definition is_wildcard :: "'h route \<Rightarrow> bool" where
  "is_wildcard r \<longleftrightarrow> has_prefix (to_lower (rtHostPattern r)) ''*.''"

definition host_applies :: "string \<Rightarrow> 'h route \<Rightarrow> bool" where
  "host_applies host r \<longleftrightarrow>
     (if is_wildcard r then matchesWildcard host (drop 1 (to_lower (rtHostPattern r)))
      else to_lower (rtHostPattern r) = host)"

definition rest_applies :: "http_request \<Rightarrow> 'h route \<Rightarrow> bool" where
  "rest_applies req r \<longleftrightarrow>
     pathMatchesPrefix (request_path req) (rtPathPrefix r) \<and> predicatesMatch (rtHeaderPredicates r) (rHeader req)"

definition applies :: "http_request \<Rightarrow> 'h route \<Rightarrow> bool" where
  "applies req r \<longleftrightarrow> host_applies (canonicalizeHost (rHost req)) r \<and> rest_applies req r"

definition precedence :: "'h route \<Rightarrow> int \<times> int \<times> int" where
  "precedence r = (if is_wildcard r then 1 else 0, bucket_order r)"

definition the_match :: "http_request \<Rightarrow> 'h route \<Rightarrow> 'h route_match" where
  "the_match req r =
     \<lparr>mRoute = r, mPathTail = stripPrefix (request_path req) (rtPathPrefix r), mHost = canonicalizeHost (rHost req)\<rparr>"

definition first_of :: "'a list \<Rightarrow> 'a option" where
  "first_of xs = (case xs of [] \<Rightarrow> None | x # _ \<Rightarrow> Some x)"

definition route_spec :: "'h route list \<Rightarrow> http_request \<Rightarrow> 'h route_match option" where
  "route_spec routes req = map_option (the_match req) (first_of (sort_key precedence (filter (applies req) routes)))"

section \<open>Buckets\<close>

lemma map_of_bucket_append:
  "map_of (bucket_append k r bs) k' =
     (if k' = k then Some ((case map_of bs k of None \<Rightarrow> [] | Some rs \<Rightarrow> rs) @ [r]) else map_of bs k')"
  by (induction k r bs rule: bucket_append.induct) auto

lemma keys_bucket_append:
  "distinct (map fst bs) \<Longrightarrow> distinct (map fst (bucket_append k r bs)) \<and>
     fst ` set (bucket_append k r bs) = insert k (fst ` set bs)"
  by (induction k r bs rule: bucket_append.induct) auto

definition bucket_of :: "'h route list \<Rightarrow> ('h route \<Rightarrow> bool) \<Rightarrow> 'h route list option" where
  "bucket_of routes P = (let rs = filter P routes in if rs = [] then None else Some rs)"

lemma bucket_of_snoc:
  "bucket_of (rs @ [r]) P =
     (if P r then Some ((case bucket_of rs P of None \<Rightarrow> [] | Some xs \<Rightarrow> xs) @ [r]) else bucket_of rs P)"
  by (simp add: bucket_of_def Let_def)

lemma build_buckets:
  assumes "foldl add_route ([], []) routes = (exact, wild)"
  shows "distinct (map fst wild) \<and>
    (\<forall>k. map_of exact k = bucket_of routes (\<lambda>r. \<not> is_wildcard r \<and> to_lower (rtHostPattern r) = k)) \<and>
    (\<forall>k. map_of wild k = bucket_of routes (\<lambda>r. is_wildcard r \<and> drop 1 (to_lower (rtHostPattern r)) = k))"
  using assms
proof (induction routes arbitrary: exact wild rule: rev_induct)
  case Nil
  then show ?case by (simp add: bucket_of_def)
next
  case (snoc r rs)
  obtain e w where ew: "foldl add_route ([], []) rs = (e, w)" by fastforce
  note IH = snoc.IH [OF ew]
  have step: "add_route (e, w) r = (exact, wild)" using snoc.prems ew by simp
  show ?case
  proof (cases "is_wildcard r")
    case True
    then have "exact = e" "wild = bucket_append (drop 1 (to_lower (rtHostPattern r))) r w"
      using step by (simp_all add: add_route_def is_wildcard_def Let_def)
    then show ?thesis using IH True keys_bucket_append [of w "drop 1 (to_lower (rtHostPattern r))" r]
      by (auto simp: map_of_bucket_append bucket_of_snoc)
  next
    case False
    then have "exact = bucket_append (to_lower (rtHostPattern r)) r e" "wild = w"
      using step by (simp_all add: add_route_def is_wildcard_def Let_def)
    then show ?thesis using IH False by (auto simp: map_of_bucket_append bucket_of_snoc)
  qed
qed

lemma matchInBucket_find:
  "matchInBucket rs req (request_path req) (canonicalizeHost (rHost req)) =
     map_option (the_match req) (find (rest_applies req) rs)"
  by (induction rs) (auto simp: rest_applies_def the_match_def)

lemma find_first_of: "find P xs = first_of (filter P xs)"
  by (induction xs) (auto simp: first_of_def)

lemma find_sortRoutes: "find P (sortRoutes rs) = first_of (sort_key bucket_order (filter P rs))"
  by (simp add: find_first_of sortRoutes_def filter_sort)

text \<open>A host matches at most one wildcard suffix: the one that starts at its first dot.\<close>

lemma matchesWildcard_iff:
  "matchesWildcard host suffix \<longleftrightarrow> (\<exists>l. host = l @ suffix \<and> l \<noteq> [] \<and> CHR ''.'' \<notin> set l)"
  by (auto simp: matchesWildcard_def Let_def has_suffix_conv)

lemma matchesWildcard_unique:
  assumes "matchesWildcard host (CHR ''.'' # s)" and "matchesWildcard host (CHR ''.'' # t)"
  shows "s = t"
proof -
  obtain l where l: "host = l @ CHR ''.'' # s" "CHR ''.'' \<notin> set l" using assms(1) by (auto simp: matchesWildcard_iff)
  obtain m where m: "host = m @ CHR ''.'' # t" "CHR ''.'' \<notin> set m" using assms(2) unfolding matchesWildcard_iff by blast
  have "takeWhile (\<lambda>c. c \<noteq> CHR ''.'') (l @ CHR ''.'' # s) = l" using l(2) by (auto simp: takeWhile_append takeWhile_tail)
  moreover have "takeWhile (\<lambda>c. c \<noteq> CHR ''.'') (m @ CHR ''.'' # t) = m" using m(2) by (auto simp: takeWhile_append takeWhile_tail)
  ultimately have "l = m" using l(1) m(1) by simp
  then show ?thesis using l(1) m(1) by simp
qed

lemma wildcard_suffix: "is_wildcard r \<Longrightarrow> \<exists>t. drop 1 (to_lower (rtHostPattern r)) = CHR ''.'' # t"
  by (auto simp: is_wildcard_def has_prefix_conv)

lemma match_wildcards_none:
  "\<forall>b \<in> set ws. \<not> matchesWildcard host (fst b) \<Longrightarrow> match_wildcards ws req path host = None"
  by (induction ws req path host rule: match_wildcards.induct) auto

lemma match_wildcards_unique:
  "\<lbrakk> (s, rs) \<in> set ws; matchesWildcard host s; distinct (map fst ws); \<forall>b \<in> set ws. matchesWildcard host (fst b) \<longrightarrow> fst b = s \<rbrakk>
    \<Longrightarrow> match_wildcards ws req path host = matchInBucket rs req path host"
proof (induction ws req path host rule: match_wildcards.induct)
  case (2 suffix routes ws req path host)
  show ?case
  proof (cases "suffix = s")
    case True
    then have "rs = routes" using 2(3,5) by (auto simp: rev_image_eqI)
    moreover have "match_wildcards ws req path host = None"
      using 2(5,6) True by (intro match_wildcards_none) (auto simp: rev_image_eqI)
    ultimately show ?thesis using 2(4) True by (auto split: option.split)
  next
    case False
    then have "(s, rs) \<in> set ws" and nm: "\<not> matchesWildcard host suffix" using 2(3,6) by auto
    moreover have "distinct (map fst ws)" "\<forall>b \<in> set ws. matchesWildcard host (fst b) \<longrightarrow> fst b = s" using 2(5,6) by simp_all
    ultimately have "match_wildcards ws req path host = matchInBucket rs req path host"
      using "2.IH"(1) [OF nm _ 2(4)] by blast
    with nm show ?thesis by simp
  qed
qed simp

lemma bucket_of_map: "map_option f (bucket_of routes P) = (let rs = filter P routes in if rs = [] then None else Some (f rs))"
  by (simp add: bucket_of_def Let_def)

text \<open>The two halves of \<^verbatim>\<open>Match\<close> find the first applicable exact and the first applicable wildcard route.\<close>

lemma match_exact:
  assumes "foldl add_route ([], []) routes = (exact, wild)"
  shows "(case map_of (map (\<lambda>(k, rs). (k, sortRoutes rs)) exact) (canonicalizeHost (rHost req)) of
      Some list \<Rightarrow> matchInBucket list req (request_path req) (canonicalizeHost (rHost req)) | None \<Rightarrow> None) =
    map_option (the_match req) (first_of (sort_key bucket_order (filter (\<lambda>r. applies req r \<and> \<not> is_wildcard r) routes)))"
proof -
  let ?h = "canonicalizeHost (rHost req)"
  let ?P = "\<lambda>r. \<not> is_wildcard r \<and> to_lower (rtHostPattern r) = ?h"
  have "map_of (map (\<lambda>(k, rs). (k, sortRoutes rs)) exact) ?h = map_option sortRoutes (bucket_of routes ?P)"
    using build_buckets [OF assms] by (simp add: map_of_map)
  moreover have "filter (\<lambda>r. applies req r \<and> \<not> is_wildcard r) routes = filter (rest_applies req) (filter ?P routes)"
    by (auto simp: applies_def host_applies_def intro: filter_cong)
  ultimately show ?thesis
    by (cases "filter ?P routes = []")
      (simp_all only: bucket_of_def Let_def matchInBucket_find find_sortRoutes option.map option.case if_True if_False,
       simp add: first_of_def)
qed

lemma match_wild:
  assumes "foldl add_route ([], []) routes = (exact, wild)" and "arranges arrange"
  shows "match_wildcards (arrange (map (\<lambda>(k, rs). (k, sortRoutes rs)) wild)) req (request_path req) (canonicalizeHost (rHost req)) =
    map_option (the_match req) (first_of (sort_key bucket_order (filter (\<lambda>r. applies req r \<and> is_wildcard r) routes)))"
    (is "match_wildcards ?ws req _ ?h = ?rhs")
proof -
  let ?suffix = "\<lambda>r. drop 1 (to_lower (rtHostPattern r))"
  let ?B = "\<lambda>s. filter (\<lambda>r. is_wildcard r \<and> ?suffix r = s) routes"
  have wild: "distinct (map fst wild)" "\<And>k. map_of wild k = bucket_of routes (\<lambda>r. is_wildcard r \<and> ?suffix r = k)"
    using build_buckets [OF assms(1)] by auto
  have perm: "mset ?ws = mset (map (\<lambda>(k, rs). (k, sortRoutes rs)) wild)" using assms(2) by (simp add: arranges_def)
  have "mset (map fst ?ws) = mset (map fst wild)" unfolding mset_map perm by (simp flip: mset_map add: comp_def case_prod_beta)
  then have dist: "distinct (map fst ?ws)" using wild(1) by (metis mset_eq_imp_distinct_iff)
  have entries: "(s, rs) \<in> set ?ws \<longleftrightarrow> ?B s \<noteq> [] \<and> rs = sortRoutes (?B s)" for s rs
  proof -
    have "(s, rs) \<in> set ?ws \<longleftrightarrow> (\<exists>xs. (s, xs) \<in> set wild \<and> rs = sortRoutes xs)"
      using mset_eq_setD [OF perm] by auto
    also have "\<dots> \<longleftrightarrow> (\<exists>xs. map_of wild s = Some xs \<and> rs = sortRoutes xs)"
      using wild(1) by (metis map_of_eq_Some_iff)
    finally show ?thesis unfolding wild(2) by (auto simp: bucket_of_def Let_def)
  qed
  have keys: "\<exists>t. s = CHR ''.'' # t" if "?B s \<noteq> []" for s
    using that wildcard_suffix by (fastforce simp: filter_empty_conv)
  show ?thesis
  proof (cases "\<exists>s rs. (s, rs) \<in> set ?ws \<and> matchesWildcard ?h s")
    case True
    then obtain s rs where s: "(s, rs) \<in> set ?ws" "matchesWildcard ?h s" by blast
    then have rs: "rs = sortRoutes (?B s)" and sk: "\<exists>t. s = CHR ''.'' # t" using entries keys by auto
    have uniq: "u = s" if "\<exists>t. u = CHR ''.'' # t" "matchesWildcard ?h u" for u
      using that sk s(2) matchesWildcard_unique by blast
    have "filter (\<lambda>r. applies req r \<and> is_wildcard r) routes = filter (rest_applies req) (?B s)"
      using s(2) uniq wildcard_suffix by (auto simp: applies_def host_applies_def intro!: filter_cong)
    moreover have "match_wildcards ?ws req (request_path req) ?h = matchInBucket rs req (request_path req) ?h"
      by (rule match_wildcards_unique [OF s dist]) (use entries keys uniq in fastforce)
    ultimately show ?thesis by (simp add: matchInBucket_find rs find_sortRoutes)
  next
    case False
    have "\<not> (applies req r \<and> is_wildcard r)" if "r \<in> set routes" for r
    proof
      assume r: "applies req r \<and> is_wildcard r"
      then have "?B (?suffix r) \<noteq> []" using that by (auto simp: filter_empty_conv)
      with entries False have "\<not> matchesWildcard ?h (?suffix r)" by blast
      with r show False by (auto simp: applies_def host_applies_def)
    qed
    then have "filter (\<lambda>r. applies req r \<and> is_wildcard r) routes = []" by (simp add: filter_empty_conv)
    moreover have "match_wildcards ?ws req (request_path req) ?h = None"
      by (rule match_wildcards_none) (use False in auto)
    ultimately show ?thesis by (simp add: first_of_def)
  qed
qed

lemma sorted_precedence:
  assumes "\<forall>x \<in> set xs. is_wildcard x = c"
  shows "sorted (map precedence (sort_key bucket_order xs))"
proof -
  let ?ys = "sort_key bucket_order xs"
  have "map precedence ?ys = map (\<lambda>k. (if c then 1 else 0, k)) (map bucket_order ?ys)"
    using assms by (auto simp: precedence_def)
  moreover have pair: "sorted (map (\<lambda>k. (a :: int, k)) zs)" if "sorted zs" for a and zs :: "(int \<times> int) list"
    using that by (induction zs) auto
  ultimately show ?thesis by (simp only: pair [OF sorted_sort_key])
qed

lemma filter_precedence:
  "filter (\<lambda>x. precedence k = precedence x) (sort_key bucket_order xs) = filter (\<lambda>x. precedence k = precedence x) xs"
proof -
  let ?zs = "filter (\<lambda>x. precedence k = precedence x) xs"
  have "map bucket_order ?zs = map (\<lambda>_. bucket_order k) ?zs" by (auto simp: precedence_def)
  moreover have "sorted (map (\<lambda>_. bucket_order k) zs)" for zs :: "'a route list" by (induction zs) auto
  ultimately have "sorted (map bucket_order ?zs)" by (simp only:)
  then show ?thesis by (simp add: filter_sort sort_key_id_if_sorted)
qed

lemma sort_precedence:
  "sort_key precedence rs =
     sort_key bucket_order (filter (\<lambda>r. \<not> is_wildcard r) rs) @ sort_key bucket_order (filter is_wildcard rs)"
proof (rule properties_for_sort_key)
  let ?e = "sort_key bucket_order (filter (\<lambda>r. \<not> is_wildcard r) rs)"
    and ?w = "sort_key bucket_order (filter is_wildcard rs)"
  show "mset (?e @ ?w) = mset rs" by (simp add: add.commute flip: multiset_partition)
  have "sorted (map precedence ?e)" by (rule sorted_precedence [where c = False]) simp
  moreover have "sorted (map precedence ?w)" by (rule sorted_precedence [where c = True]) simp
  ultimately show "sorted (map precedence (?e @ ?w))" by (auto simp: sorted_append precedence_def)
  show "filter (\<lambda>x. precedence k = precedence x) (?e @ ?w) = filter (\<lambda>x. precedence k = precedence x) rs" for k
  proof -
    have eq: "(\<not> is_wildcard x \<and> precedence k = precedence x) = (precedence k = precedence x \<and> \<not> is_wildcard k)"
      "(is_wildcard x \<and> precedence k = precedence x) = (precedence k = precedence x \<and> is_wildcard k)" for x
      by (auto simp: precedence_def split: if_splits)
    show ?thesis unfolding filter_append filter_precedence filter_filter eq by (cases "is_wildcard k") simp_all
  qed
qed

lemma Match_eq_spec:
  assumes "NewRouter arrange routes = Inr r" and "arranges arrange"
  shows "Match r req = route_spec routes req"
proof -
  obtain exact wild where b: "foldl add_route ([], []) routes = (exact, wild)" by fastforce
  have r: "r = \<lparr>hostExact = map (\<lambda>(k, rs). (k, sortRoutes rs)) exact,
      hostWildcards = arrange (map (\<lambda>(k, rs). (k, sortRoutes rs)) wild)\<rparr>"
    using assms(1) b by (auto simp: NewRouter_def split: option.splits)
  have app: "first_of (xs @ ys) = (case first_of xs of Some x \<Rightarrow> Some x | None \<Rightarrow> first_of ys)" for xs ys :: "'a route list"
    by (simp add: first_of_def split: list.split)
  show ?thesis
    unfolding Match_def Let_def r route_spec_def sort_precedence app filter_filter
      match_exact [OF b] match_wild [OF b assms(2)] router.simps
    by (simp split: option.split)
qed


definition sample_route :: "string \<Rightarrow> string \<Rightarrow> string \<Rightarrow> header_predicate list \<Rightarrow> unit route" where
  "sample_route name host prefix preds =
     \<lparr>rtName = name, rtHostPattern = host, rtPathPrefix = prefix, rtHeaderPredicates = preds, rtHandler = ()\<rparr>"

lemma arranges_stable: "arranges (sort_key (\<lambda>b. - int (length (fst b))) :: 'h buckets \<Rightarrow> 'h buckets)"
proof -
  have "sorted (map (\<lambda>b. - int (length (fst b))) (sort_key (\<lambda>b. - int (length (fst b))) bs))" for bs :: "'h buckets" by simp
  then show ?thesis unfolding arranges_def sorted_map sorted_wrt_map by simp
qed


section \<open>Validation\<close>

lemma validate_duplicates_None:
  "validate_duplicates seen rs = None \<longleftrightarrow> distinct (map route_key rs) \<and> (\<forall>r \<in> set rs. seen (route_key r) = None)"
proof (induction rs arbitrary: seen)
  case (Cons r rs)
  define sn where "sn = seen(route_key r \<mapsto> rtName r)"
  have at: "sn k = None \<longleftrightarrow> k \<noteq> route_key r \<and> seen k = None" for k by (simp add: sn_def)
  show ?case using Cons [of sn] by (cases "seen (route_key r)") (auto simp: at image_iff simp flip: sn_def)
qed simp

lemma validate_reachable_None:
  "validate_reachable seen rs = None \<longleftrightarrow>
     (\<forall>r \<in> set rs. rtHeaderPredicates r \<noteq> [] \<longrightarrow> seen (host_prefix r) = None) \<and>
     sorted_wrt (\<lambda>r s. rtHeaderPredicates r = [] \<and> rtHeaderPredicates s \<noteq> [] \<longrightarrow> host_prefix r \<noteq> host_prefix s) rs"
proof (induction rs arbitrary: seen)
  case (Cons r rs)
  show ?case
  proof (cases "rtHeaderPredicates r = []")
    case True
    define sn where "sn = seen(host_prefix r \<mapsto> rtName r)"
    have at: "sn k = None \<longleftrightarrow> k \<noteq> host_prefix r \<and> seen k = None" for k by (simp add: sn_def)
    show ?thesis using Cons [of sn] True by (auto simp: at simp flip: sn_def)
  next
    case False
    then show ?thesis using Cons [of seen] by (cases "seen (host_prefix r)") auto
  qed
qed simp

text \<open>
  Construction succeeds exactly on the documented route lists: no two routes with the same
  (host, prefix, predicates) key, and no predicate-free route in front of a predicated route with
  the same host and prefix.
\<close>

theorem new_router_accepts_iff:
  "(\<exists>r. NewRouter arrange routes = Inr r) \<longleftrightarrow>
    (\<forall>i j. i < j \<and> j < length routes \<longrightarrow> route_key (routes ! i) \<noteq> route_key (routes ! j) \<and>
      \<not> (rtHeaderPredicates (routes ! i) = [] \<and> rtHeaderPredicates (routes ! j) \<noteq> [] \<and>
         host_prefix (routes ! i) = host_prefix (routes ! j)))"
proof -
  have "(\<exists>r. NewRouter arrange routes = Inr r) \<longleftrightarrow> validate routes = None"
    by (auto simp: NewRouter_def split: option.splits prod.splits)
  also have "\<dots> \<longleftrightarrow> distinct (map route_key routes) \<and>
      sorted_wrt (\<lambda>r s. rtHeaderPredicates r = [] \<and> rtHeaderPredicates s \<noteq> [] \<longrightarrow> host_prefix r \<noteq> host_prefix s) routes"
    using validate_duplicates_None [of Map.empty routes] validate_reachable_None [of Map.empty routes]
    by (cases "validate_duplicates Map.empty routes") (simp_all add: validate_def)
  also have "distinct (map route_key routes) \<longleftrightarrow> sorted_wrt (\<lambda>r s. route_key r \<noteq> route_key s) routes"
    by (induction routes) auto
  finally show ?thesis unfolding sorted_wrt_iff_nth_less by auto
qed

theorem new_router_accepts_iff_witness:
  "\<exists>r. NewRouter id [sample_route ''p'' ''h'' ''/'' [\<lparr>hpName = ''X'', hpValue = ''1''\<rparr>], sample_route ''c'' ''h'' ''/'' []] = Inr r"
proof -
  have "route_key (sample_route ''p'' ''h'' ''/'' [\<lparr>hpName = ''X'', hpValue = ''1''\<rparr>]) \<noteq> route_key (sample_route ''c'' ''h'' ''/'' [])"
    by code_simp
  then show ?thesis
    unfolding new_router_accepts_iff by (auto simp: less_Suc_eq nth_Cons' sample_route_def)
qed

text \<open>
  The duplicate key does not separate predicate lists: two routes whose predicates accept
  different requests have the same key, so the second is rejected as a duplicate of the first.
\<close>

theorem predicates_key_collision:
  "predicatesKey [\<lparr>hpName = ''a'', hpValue = ''1;b=2''\<rparr>] = predicatesKey [\<lparr>hpName = ''a'', hpValue = ''1''\<rparr>, \<lparr>hpName = ''b'', hpValue = ''2''\<rparr>] \<and>
   predicatesMatch [\<lparr>hpName = ''a'', hpValue = ''1;b=2''\<rparr>] [''A'' \<mapsto> [''1;b=2'']] \<and>
   \<not> predicatesMatch [\<lparr>hpName = ''a'', hpValue = ''1''\<rparr>, \<lparr>hpName = ''b'', hpValue = ''2''\<rparr>] [''A'' \<mapsto> [''1;b=2'']]"
  by code_simp

section \<open>Paths\<close>

text \<open>
  Prefix matching respects path segments, and the tail handed to the upstream is what follows
  the prefix: \<^verbatim>\<open>/v1\<close> matches itself and whatever continues with a slash, \<^verbatim>\<open>/v1/\<close> whatever starts with
  it; a matched path is the prefix followed by the tail (less the slash the two share), and the tail
  always starts with a slash.
\<close>

theorem path_prefix_and_tail:
  "(\<not> has_suffix prefix ''/'' \<longrightarrow>
      (pathMatchesPrefix path prefix \<longleftrightarrow> path = prefix \<or> (\<exists>t. path = prefix @ ''/'' @ t)) \<and>
      (pathMatchesPrefix path prefix \<longrightarrow> path = prefix \<and> stripPrefix path prefix = ''/'' \<or> path = prefix @ stripPrefix path prefix)) \<and>
   (has_suffix prefix ''/'' \<longrightarrow>
      (pathMatchesPrefix path prefix \<longleftrightarrow> (\<exists>t. path = prefix @ t)) \<and>
      (pathMatchesPrefix path prefix \<longrightarrow> path = butlast prefix @ stripPrefix path prefix)) \<and>
   (pathMatchesPrefix path prefix \<longrightarrow> has_prefix (stripPrefix path prefix) ''/'')"
proof -
  have slash: "\<exists>q. prefix = q @ ''/''" if "has_suffix prefix ''/''" using that by (simp add: has_suffix_conv)
  have m: "pathMatchesPrefix path prefix \<longleftrightarrow> path = prefix \<or> (\<exists>t. path = prefix @ ''/'' @ t)" if "\<not> has_suffix prefix ''/''"
    using that by (auto simp: pathMatchesPrefix_def has_prefix_conv nth_append neq_Nil_conv)
  show ?thesis
  proof (cases "has_suffix prefix ''/''")
    case True
    then show ?thesis using slash
      by (auto simp: pathMatchesPrefix_def stripPrefix_def has_prefix_conv trim_prefix_def)
  next
    case False
    then show ?thesis using m by (auto simp: stripPrefix_def Let_def trim_prefix_def has_prefix_conv)
  qed
qed

theorem path_prefix_and_tail_witness:
  "pathMatchesPrefix ''/v1/x'' ''/v1'' \<and> \<not> pathMatchesPrefix ''/v1x'' ''/v1'' \<and> stripPrefix ''/v1/x'' ''/v1'' = ''/x''"
proof -
  have "\<not> has_suffix ''/v1'' ''/''" by code_simp
  then show ?thesis
    using path_prefix_and_tail [of "''/v1''" "''/v1/x''"] path_prefix_and_tail [of "''/v1''" "''/v1x''"] by auto
qed

end
