(* ===== verification/Config.thy ===== *)
theory Config
  imports Router GoFloat
begin

text \<open>
  The configuration of \<^verbatim>\<open>internal/config/config.go\<close>: its records, the validation pipeline and the manager
  that holds the active configuration. The YAML decoder is a third-party package and an argument of
  \<^verbatim>\<open>Load\<close>. A Go map in the configuration (\<^verbatim>\<open>add_request\<close>, \<^verbatim>\<open>add_response\<close>) is the list of its entries in one
  iteration order. A validation error carries its YAML path as the code prints it and a value for its
  message.
\<close>

section \<open>Records\<close>

record tcp_listener_config =
  tlName :: string
  tlBind :: string
  tlPool :: string

record selector_config =
  sAlgorithm :: string
  sEWMAHalfLife :: duration
  sHashKey :: string
  sEpsilon :: float64
  sVirtualNodes :: int

record tcp_upstream_config =
  tuAddress :: string
  tuWeight :: int

record tcp_pool_config =
  tpName :: string
  tpSelector :: selector_config
  tpUpstreams :: "tcp_upstream_config list"
  tpConnectTimeout :: duration

record tls_cert =
  tcCert :: string
  tcKey :: string
  tcHosts :: "string list"

record autocert_config =
  acCacheDir :: string
  acAllowedHosts :: "string list"
  acEmail :: string

record tls_config =
  tlsCerts :: "tls_cert list"
  tlsMinVersion :: string
  tlsAutocert :: "autocert_config option"

record listener_timeouts =
  ltReadHeader :: duration
  ltRead :: duration
  ltWrite :: duration
  ltIdle :: duration
  ltMaxHeaderBytes :: int

record listener_config =
  lName :: string
  lBind :: string
  lTLS :: "tls_config option"
  lTimeouts :: listener_timeouts
  lEnableHTTP3 :: bool

record upstream_tls_config =
  utCAFile :: string
  utClientCertFile :: string
  utClientKeyFile :: string
  utServerName :: string
  utInsecureSkipVerify :: bool

record upstream_config =
  ucURL :: string
  ucWeight :: int

record active_health_config =
  ahPath :: string
  ahMethod :: string
  ahInterval :: duration
  ahTimeout :: duration
  ahHealthyThreshold :: int
  ahUnhealthyThreshold :: int
  ahExpectedStatus :: "int list"

record passive_health_config =
  phErrorThreshold :: float64
  phLatencyP99Threshold :: duration
  phHalfLife :: duration

record health_config =
  hActive :: "active_health_config option"
  hPassive :: "passive_health_config option"

record pool_config =
  pName :: string
  pSelector :: selector_config
  pUpstreams :: "upstream_config list"
  pHealth :: health_config
  pConnectTimeout :: duration
  pUpstreamTLS :: "upstream_tls_config option"

record compress_config =
  cMinBytes :: int
  cSkipContentTypes :: "string list"

record rate_limit_config =
  rlScope :: string
  rlPerIPRPS :: int
  rlBurst :: int
  rlTrustProxyHops :: int

record retry_config =
  rcMaxAttempts :: int
  rcRetryMethods :: "string list"
  rcRetryOn :: "int list"
  rcHedgeAfter :: duration
  rcHedgeAfterPercentile :: float64
  rcHedgeableMethods :: "string list"
  rcMaxReplayableBody :: int

record header_transform_config =
  htAddRequest :: "(string \<times> string) list"
  htRemoveRequest :: "string list"
  htAddResponse :: "(string \<times> string) list"
  htRemoveResponse :: "string list"

record middleware_config =
  mcRateLimit :: "rate_limit_config option"
  mcRetry :: "retry_config option"
  mcHeaderTransform :: "header_transform_config option"
  mcCompress :: "compress_config option"

record route_config =
  rName :: string
  rcHost :: string
  rPathPrefix :: string
  rHeaderPredicates :: "header_predicate list"
  rPool :: string
  rMiddleware :: "middleware_config list"
  rTotalTimeout :: duration

record config =
  Listeners :: "listener_config list"
  Pools :: "pool_config list"
  Routes :: "route_config list"
  TCPListeners :: "tcp_listener_config list"
  TCPPools :: "tcp_pool_config list"

datatype validation_msg =
  BindInUse string string
| MinVersionBelow string
| HTTP3NeedsTLS
| DuplicatePool string
| UnknownAlgorithm string
| HashKeyRequired
| PassiveNeedsActive
| IntervalNotAboveTimeout duration duration
| NegativeDuration duration
| CertKeyTogether
| Required
| DuplicateTCPPool string
| UpstreamRequired
| InvalidHostPort string
| UnknownTCPPool string
| UnknownPool string string
| DuplicateRouteConfig string string
| CRLFInAddRequest string
| CRLFInAddResponse string

record validation_error =
  vePath :: string
  veMsg :: validation_msg

section \<open>Validation\<close>

definition at_index :: "string \<Rightarrow> nat \<Rightarrow> string \<Rightarrow> string" where
  "at_index list i field = list @ ''['' @ itoa (int i) @ '']'' @ field"

definition verr :: "string \<Rightarrow> validation_msg \<Rightarrow> validation_error option" where
  "verr path msg = Some \<lparr>vePath = path, veMsg = msg\<rparr>"

definition validTLSVersion :: "string \<Rightarrow> bool" where
  "validTLSVersion v \<longleftrightarrow> v = ''1.2'' \<or> v = ''1.3''"

fun validateListeners_from :: "nat \<Rightarrow> (string \<rightharpoonup> string) \<Rightarrow> listener_config list \<Rightarrow> validation_error option" where
  "validateListeners_from i binds [] = None"
| "validateListeners_from i binds (l # ls) =
     (case binds (lBind l) of
        Some existing \<Rightarrow> verr (at_index ''listeners'' i ''.bind'') (BindInUse (lBind l) existing)
      | None \<Rightarrow>
          if (case lTLS l of None \<Rightarrow> False | Some t \<Rightarrow> tlsMinVersion t \<noteq> [] \<and> \<not> validTLSVersion (tlsMinVersion t))
          then verr (at_index ''listeners'' i ''.tls.min_version'') (MinVersionBelow (tlsMinVersion (the (lTLS l))))
          else if lEnableHTTP3 l \<and> lTLS l = None
          then verr (at_index ''listeners'' i ''.enable_http3'') HTTP3NeedsTLS
          else validateListeners_from (i + 1) (binds(lBind l \<mapsto> lName l)) ls)"

definition validateListeners :: "listener_config list \<Rightarrow> validation_error option" where
  "validateListeners ls = validateListeners_from 0 Map.empty ls"

definition knownAlgorithms :: "string list" where
  "knownAlgorithms = [[], ''round-robin'', ''weighted-rr'', ''least-conn'', ''p2c-ewma'', ''consistent-hash-bounded'']"

fun validatePools_from :: "nat \<Rightarrow> string list \<Rightarrow> pool_config list \<Rightarrow> validation_error option" where
  "validatePools_from i names [] = None"
| "validatePools_from i names (p # ps) =
     (if List.member names (pName p) then verr (at_index ''upstream_pools'' i ''.name'') (DuplicatePool (pName p))
      else if \<not> List.member knownAlgorithms (sAlgorithm (pSelector p))
      then verr (at_index ''upstream_pools'' i ''.selector.algorithm'') (UnknownAlgorithm (sAlgorithm (pSelector p)))
      else if sAlgorithm (pSelector p) = ''consistent-hash-bounded'' \<and> sHashKey (pSelector p) = []
      then verr (at_index ''upstream_pools'' i ''.selector.hash_key'') HashKeyRequired
      else if hPassive (pHealth p) \<noteq> None \<and> hActive (pHealth p) = None
      then verr (at_index ''upstream_pools'' i ''.health.passive'') PassiveNeedsActive
      else if (case hActive (pHealth p) of
                 None \<Rightarrow> False
               | Some a \<Rightarrow> ahInterval a > 0 \<and> ahTimeout a > 0 \<and> ahInterval a \<le> ahTimeout a)
      then verr (at_index ''upstream_pools'' i ''.health.active.interval'')
             (IntervalNotAboveTimeout (ahInterval (the (hActive (pHealth p)))) (ahTimeout (the (hActive (pHealth p)))))
      else if pConnectTimeout p < 0
      then verr (at_index ''upstream_pools'' i ''.connect_timeout'') (NegativeDuration (pConnectTimeout p))
      else if (case pUpstreamTLS p of
                 None \<Rightarrow> False
               | Some t \<Rightarrow> (utClientCertFile t \<noteq> []) \<noteq> (utClientKeyFile t \<noteq> []))
      then verr (at_index ''upstream_pools'' i ''.upstream_tls'') CertKeyTogether
      else validatePools_from (i + 1) (pName p # names) ps)"

definition validatePools :: "pool_config list \<Rightarrow> validation_error option" where
  "validatePools ps = validatePools_from 0 [] ps"

fun validateTCPUpstreams :: "nat \<Rightarrow> nat \<Rightarrow> tcp_upstream_config list \<Rightarrow> validation_error option" where
  "validateTCPUpstreams i j [] = None"
| "validateTCPUpstreams i j (u # us) =
     (if tuAddress u = [] then verr (at_index (at_index ''tcp_pools'' i ''.upstreams'') j ''.address'') Required
      else if split_host_port (tuAddress u) = None
      then verr (at_index (at_index ''tcp_pools'' i ''.upstreams'') j ''.address'') (InvalidHostPort (tuAddress u))
      else validateTCPUpstreams i (j + 1) us)"

fun validateTCPPools :: "nat \<Rightarrow> string list \<Rightarrow> tcp_pool_config list \<Rightarrow> validation_error option" where
  "validateTCPPools i poolNames [] = None"
| "validateTCPPools i poolNames (p # ps) =
     (if tpName p = [] then verr (at_index ''tcp_pools'' i ''.name'') Required
      else if List.member poolNames (tpName p) then verr (at_index ''tcp_pools'' i ''.name'') (DuplicateTCPPool (tpName p))
      else if tpUpstreams p = [] then verr (at_index ''tcp_pools'' i ''.upstreams'') UpstreamRequired
      else case validateTCPUpstreams i 0 (tpUpstreams p) of
             Some e \<Rightarrow> Some e
           | None \<Rightarrow>
               if tpConnectTimeout p < 0
               then verr (at_index ''tcp_pools'' i ''.connect_timeout'') (NegativeDuration (tpConnectTimeout p))
               else validateTCPPools (i + 1) (tpName p # poolNames) ps)"

fun validateTCPListeners ::
  "nat \<Rightarrow> (string \<rightharpoonup> string) \<Rightarrow> string list \<Rightarrow> tcp_listener_config list \<Rightarrow> validation_error option" where
  "validateTCPListeners i binds poolNames [] = None"
| "validateTCPListeners i binds poolNames (l # ls) =
     (if tlName l = [] then verr (at_index ''tcp_listeners'' i ''.name'') Required
      else if tlBind l = [] then verr (at_index ''tcp_listeners'' i ''.bind'') Required
      else case binds (tlBind l) of
             Some existing \<Rightarrow> verr (at_index ''tcp_listeners'' i ''.bind'') (BindInUse (tlBind l) existing)
           | None \<Rightarrow>
               if \<not> List.member poolNames (tlPool l)
               then verr (at_index ''tcp_listeners'' i ''.pool'') (UnknownTCPPool (tlPool l))
               else validateTCPListeners (i + 1) (binds(tlBind l \<mapsto> tlName l)) poolNames ls)"

definition validateTCP :: "tcp_listener_config list \<Rightarrow> tcp_pool_config list \<Rightarrow> validation_error option" where
  "validateTCP listeners pools =
     (case validateTCPPools 0 [] pools of
        Some e \<Rightarrow> Some e
      | None \<Rightarrow> validateTCPListeners 0 Map.empty (map tpName pools) listeners)"

definition crlf :: string where
  "crlf = [CHR 0x0D, CHR 0x0A]"

definition scanHeaderValues :: "header_transform_config \<Rightarrow> validation_msg option" where
  "scanHeaderValues h =
     (case find (\<lambda>(n, v). contains_any v crlf) (htAddRequest h) of
        Some (n, v) \<Rightarrow> Some (CRLFInAddRequest n)
      | None \<Rightarrow> (case find (\<lambda>(n, v). contains_any v crlf) (htAddResponse h) of
                   Some (n, v) \<Rightarrow> Some (CRLFInAddResponse n)
                 | None \<Rightarrow> None))"

fun scanMiddleware :: "middleware_config list \<Rightarrow> validation_msg option" where
  "scanMiddleware [] = None"
| "scanMiddleware (m # ms) =
     (case mcHeaderTransform m of
        None \<Rightarrow> scanMiddleware ms
      | Some h \<Rightarrow> (case scanHeaderValues h of Some e \<Rightarrow> Some e | None \<Rightarrow> scanMiddleware ms))"

text \<open>The insertion sort of \<^verbatim>\<open>predicatesKey\<close>, by swaps of neighbours in the slice.\<close>

fun sift_down :: "nat \<Rightarrow> string list \<Rightarrow> string list" where
  "sift_down 0 parts = parts"
| "sift_down (Suc j) parts =
     (if parts ! j > parts ! Suc j then sift_down j (parts[j := parts ! Suc j, Suc j := parts ! j]) else parts)"

definition insertion_sort :: "string list \<Rightarrow> string list" where
  "insertion_sort parts = foldl (\<lambda>ps i. sift_down i ps) parts [1..<length parts]"

definition cfg_predicatesKey :: "header_predicate list \<Rightarrow> string" where
  "cfg_predicatesKey ps =
     (if ps = [] then []
      else join '';'' (insertion_sort (map (\<lambda>p. to_lower (hpName p) @ ''='' @ hpValue p) ps)))"

definition cfg_route_key :: "route_config \<Rightarrow> string \<times> string \<times> string" where
  "cfg_route_key r = (to_lower (rcHost r), rPathPrefix r, cfg_predicatesKey (rHeaderPredicates r))"

fun validateRoutes_from ::
  "nat \<Rightarrow> (string \<times> string \<times> string \<rightharpoonup> string) \<Rightarrow> string list \<Rightarrow> route_config list \<Rightarrow> validation_error option" where
  "validateRoutes_from i seen poolNames [] = None"
| "validateRoutes_from i seen poolNames (r # rs) =
     (if \<not> List.member poolNames (rPool r) then verr (at_index ''routes'' i ''.pool'') (UnknownPool (rName r) (rPool r))
      else case seen (cfg_route_key r) of
             Some existing \<Rightarrow> verr (at_index ''routes'' i []) (DuplicateRouteConfig (rName r) existing)
           | None \<Rightarrow>
               (case scanMiddleware (rMiddleware r) of
                  Some e \<Rightarrow> verr (at_index ''routes'' i ''.middleware.headers'') e
                | None \<Rightarrow>
                    if rTotalTimeout r < 0
                    then verr (at_index ''routes'' i ''.timeouts.total'') (NegativeDuration (rTotalTimeout r))
                    else validateRoutes_from (i + 1) (seen(cfg_route_key r \<mapsto> rName r)) poolNames rs))"

definition validateRoutes :: "route_config list \<Rightarrow> pool_config list \<Rightarrow> validation_error option" where
  "validateRoutes routes pools = validateRoutes_from 0 Map.empty (map pName pools) routes"

definition Validate :: "config \<Rightarrow> validation_error option" where
  "Validate c =
     (case validateListeners (Listeners c) of
        Some e \<Rightarrow> Some e
      | None \<Rightarrow>
          (case validatePools (Pools c) of
             Some e \<Rightarrow> Some e
           | None \<Rightarrow>
               (case validateTCP (TCPListeners c) (TCPPools c) of
                  Some e \<Rightarrow> Some e
                | None \<Rightarrow> validateRoutes (Routes c) (Pools c))))"

section \<open>Loading and the manager\<close>

datatype 'e load_error = ParseError 'e | InvalidConfig validation_error

definition Load :: "('s \<Rightarrow> 'e + config) \<Rightarrow> 's \<Rightarrow> 'e load_error + config" where
  "Load decode r =
     (case decode r of
        Inl e \<Rightarrow> Inl (ParseError e)
      | Inr cfg \<Rightarrow> (case Validate cfg of Some e \<Rightarrow> Inl (InvalidConfig e) | None \<Rightarrow> Inr cfg))"

record manager =
  active :: config

definition NewManager :: "config \<Rightarrow> manager" where
  "NewManager initial = \<lparr>active = initial\<rparr>"

definition mgr_Load :: "manager \<Rightarrow> config" where
  "mgr_Load m = active m"

definition mgr_swap :: "config \<Rightarrow> manager \<Rightarrow> manager" where
  "mgr_swap cfg m = m\<lparr>active := cfg\<rparr>"

definition mgr_Reload :: "('s \<Rightarrow> 'e + config) \<Rightarrow> 's \<Rightarrow> manager \<Rightarrow> 'e load_error option \<times> manager" where
  "mgr_Reload decode r m =
     (case Load decode r of Inl e \<Rightarrow> (Some e, m) | Inr cfg \<Rightarrow> (None, mgr_swap cfg m))"

section \<open>The insertion sort\<close>

lemma sift_down_append:
  "sorted xs \<Longrightarrow> sift_down (length xs) (xs @ y # ys) = sort (xs @ [y]) @ ys"
proof (induction xs arbitrary: ys rule: rev_induct)
  case (snoc x xs)
  let ?p = "(xs @ [x]) @ y # ys"
  have sorted: "sorted xs" and top: "\<forall>z \<in> set xs. z \<le> x" using snoc.prems by (auto simp: sorted_append)
  have swap: "?p[length xs := y, Suc (length xs) := x] = xs @ y # x # ys" by (simp add: list_update_append)
  have at: "?p ! length xs = x" "?p ! Suc (length xs) = y" by (simp_all add: nth_append)
  show ?case
  proof (cases "x > y")
    case True
    then have "sort (xs @ [y]) @ [x] = sort (xs @ [x] @ [y])"
      using top by (intro properties_for_sort [symmetric]) (auto simp: sorted_append)
    moreover have "sift_down (length (xs @ [x])) ?p = sift_down (length xs) (xs @ y # x # ys)"
      unfolding length_append_singleton sift_down.simps at swap using True by simp
    ultimately show ?thesis using snoc.IH [OF sorted, of "x # ys"] by simp
  next
    case False
    then have "sorted (xs @ [x] @ [y])" using sorted top by (auto simp: sorted_append)
    then have "sort (xs @ [x] @ [y]) = xs @ [x] @ [y]" by (rule sorted_sort_id)
    moreover have "sift_down (length (xs @ [x])) ?p = ?p"
      unfolding length_append_singleton sift_down.simps at using False by simp
    ultimately show ?thesis by simp
  qed
qed simp

lemma insertion_sort_eq: "insertion_sort parts = sort parts"
proof -
  have "foldl (\<lambda>ps i. sift_down i ps) parts [1..<n] = sort (take n parts) @ drop n parts" if "n \<le> length parts" "1 \<le> n" for n
    using that(2,1)
  proof (induction n rule: dec_induct)
    case base
    then show ?case by (cases parts) simp_all
  next
    case (step n)
    then have n: "n < length parts" by simp
    have "sift_down (length (sort (take n parts))) (sort (take n parts) @ parts ! n # drop (Suc n) parts) =
        sort (sort (take n parts) @ [parts ! n]) @ drop (Suc n) parts"
      by (rule sift_down_append) simp
    moreover have "drop n parts = parts ! n # drop (Suc n) parts" using n by (rule Cons_nth_drop_Suc [symmetric])
    moreover have "sort (sort (take n parts) @ [parts ! n]) = sort (take (Suc n) parts)"
      using n by (intro properties_for_sort) (simp_all add: take_Suc_conv_app_nth)
    ultimately show ?case using step n by simp
  qed
  from this [of "length parts"] show ?thesis by (cases parts) (simp_all add: insertion_sort_def)
qed

lemma cfg_predicatesKey_eq: "cfg_predicatesKey ps = predicatesKey ps"
  by (simp add: cfg_predicatesKey_def predicatesKey_def insertion_sort_eq)

section \<open>What validation accepts\<close>

definition listener_ok :: "listener_config \<Rightarrow> bool" where
  "listener_ok l \<longleftrightarrow>
     (\<forall>t. lTLS l = Some t \<longrightarrow> tlsMinVersion t \<in> {[], ''1.2'', ''1.3''}) \<and> (lEnableHTTP3 l \<longrightarrow> lTLS l \<noteq> None)"

definition pool_ok :: "pool_config \<Rightarrow> bool" where
  "pool_ok p \<longleftrightarrow>
     sAlgorithm (pSelector p) \<in> set knownAlgorithms \<and>
     (sAlgorithm (pSelector p) = ''consistent-hash-bounded'' \<longrightarrow> sHashKey (pSelector p) \<noteq> []) \<and>
     (hPassive (pHealth p) \<noteq> None \<longrightarrow> hActive (pHealth p) \<noteq> None) \<and>
     (\<forall>a. hActive (pHealth p) = Some a \<and> 0 < ahInterval a \<and> 0 < ahTimeout a \<longrightarrow> ahTimeout a < ahInterval a) \<and>
     0 \<le> pConnectTimeout p \<and>
     (\<forall>t. pUpstreamTLS p = Some t \<longrightarrow> (utClientCertFile t = [] \<longleftrightarrow> utClientKeyFile t = []))"

definition tcp_pool_ok :: "tcp_pool_config \<Rightarrow> bool" where
  "tcp_pool_ok p \<longleftrightarrow> tpName p \<noteq> [] \<and> tpUpstreams p \<noteq> [] \<and>
     (\<forall>u \<in> set (tpUpstreams p). split_host_port (tuAddress u) \<noteq> None) \<and> 0 \<le> tpConnectTimeout p"

definition tcp_listener_ok :: "string set \<Rightarrow> tcp_listener_config \<Rightarrow> bool" where
  "tcp_listener_ok pools l \<longleftrightarrow> tlName l \<noteq> [] \<and> tlBind l \<noteq> [] \<and> tlPool l \<in> pools"

definition no_crlf :: "string \<Rightarrow> bool" where
  "no_crlf v \<longleftrightarrow> (\<forall>c \<in> set v. c \<noteq> CHR 0x0D \<and> c \<noteq> CHR 0x0A)"

definition route_ok :: "string set \<Rightarrow> route_config \<Rightarrow> bool" where
  "route_ok pools r \<longleftrightarrow> rPool r \<in> pools \<and> 0 \<le> rTotalTimeout r \<and>
     (\<forall>m \<in> set (rMiddleware r). \<forall>h. mcHeaderTransform m = Some h \<longrightarrow>
        (\<forall>v \<in> snd ` set (htAddRequest h) \<union> snd ` set (htAddResponse h). no_crlf v))"

definition route_id :: "route_config \<Rightarrow> string \<times> string \<times> string" where
  "route_id r = (to_lower (rcHost r), rPathPrefix r, predicatesKey (rHeaderPredicates r))"

definition well_formed :: "config \<Rightarrow> bool" where
  "well_formed c \<longleftrightarrow>
     distinct (map lBind (Listeners c)) \<and> (\<forall>l \<in> set (Listeners c). listener_ok l) \<and>
     distinct (map pName (Pools c)) \<and> (\<forall>p \<in> set (Pools c). pool_ok p) \<and>
     distinct (map tpName (TCPPools c)) \<and> (\<forall>p \<in> set (TCPPools c). tcp_pool_ok p) \<and>
     distinct (map tlBind (TCPListeners c)) \<and>
     (\<forall>l \<in> set (TCPListeners c). tcp_listener_ok (tpName ` set (TCPPools c)) l) \<and>
     distinct (map route_id (Routes c)) \<and> (\<forall>r \<in> set (Routes c). route_ok (pName ` set (Pools c)) r)"

lemma validateListeners_from_None:
  "validateListeners_from i binds ls = None \<longleftrightarrow>
     distinct (map lBind ls) \<and> (\<forall>l \<in> set ls. binds (lBind l) = None \<and> listener_ok l)"
proof (induction ls arbitrary: i binds)
  case (Cons l ls)
  define bn where "bn = binds(lBind l \<mapsto> lName l)"
  have bn: "bn k = None \<longleftrightarrow> k \<noteq> lBind l \<and> binds k = None" for k by (simp add: bn_def)
  have ok: "\<not> (case lTLS l of None \<Rightarrow> False | Some t \<Rightarrow> tlsMinVersion t \<noteq> [] \<and> \<not> validTLSVersion (tlsMinVersion t)) \<and>
      \<not> (lEnableHTTP3 l \<and> lTLS l = None) \<longleftrightarrow> listener_ok l"
    by (auto simp: listener_ok_def validTLSVersion_def split: option.split)
  have step: "validateListeners_from i binds (l # ls) = None \<longleftrightarrow>
      binds (lBind l) = None \<and> listener_ok l \<and> validateListeners_from (i + 1) bn ls = None"
    unfolding ok [symmetric] by (cases "binds (lBind l)") (simp_all add: verr_def bn_def)
  show ?case unfolding step Cons.IH by (auto simp: bn image_iff)
qed simp

lemma validatePools_from_None:
  "validatePools_from i names ps = None \<longleftrightarrow>
     distinct (map pName ps) \<and> (\<forall>p \<in> set ps. pName p \<notin> set names \<and> pool_ok p)"
proof (induction ps arbitrary: i names)
  case (Cons p ps)
  have step: "validatePools_from i names (p # ps) = None \<longleftrightarrow>
      pName p \<notin> set names \<and> pool_ok p \<and> validatePools_from (i + 1) (pName p # names) ps = None"
    by (auto simp: pool_ok_def not_le not_less verr_def split: option.splits)
  show ?case unfolding step Cons.IH by (auto simp: image_iff)
qed simp

lemma split_host_port_empty [simp]: "split_host_port [] = None"
  by (simp add: split_host_port_def)

lemma validateTCPUpstreams_None:
  "validateTCPUpstreams i j us = None \<longleftrightarrow> (\<forall>u \<in> set us. split_host_port (tuAddress u) \<noteq> None)"
  by (induction i j us rule: validateTCPUpstreams.induct) (auto simp: verr_def)

lemma validateTCPPools_None:
  "validateTCPPools i names ps = None \<longleftrightarrow>
     distinct (map tpName ps) \<and> (\<forall>p \<in> set ps. tpName p \<notin> set names \<and> tcp_pool_ok p)"
proof (induction ps arbitrary: i names)
  case (Cons p ps)
  have step: "validateTCPPools i names (p # ps) = None \<longleftrightarrow>
      tpName p \<notin> set names \<and> tcp_pool_ok p \<and> validateTCPPools (i + 1) (tpName p # names) ps = None"
    using validateTCPUpstreams_None [of i 0 "tpUpstreams p"]
    by (cases "validateTCPUpstreams i 0 (tpUpstreams p)") (auto simp: tcp_pool_ok_def verr_def)
  show ?case unfolding step Cons.IH by (auto simp: image_iff)
qed simp

lemma validateTCPListeners_None:
  "validateTCPListeners i binds pools ls = None \<longleftrightarrow>
     distinct (map tlBind ls) \<and> (\<forall>l \<in> set ls. binds (tlBind l) = None \<and> tcp_listener_ok (set pools) l)"
proof (induction ls arbitrary: i binds)
  case (Cons l ls)
  define bn where "bn = binds(tlBind l \<mapsto> tlName l)"
  have bn: "bn k = None \<longleftrightarrow> k \<noteq> tlBind l \<and> binds k = None" for k by (simp add: bn_def)
  have step: "validateTCPListeners i binds pools (l # ls) = None \<longleftrightarrow>
      binds (tlBind l) = None \<and> tcp_listener_ok (set pools) l \<and> validateTCPListeners (i + 1) bn pools ls = None"
    by (cases "binds (tlBind l)") (auto simp: verr_def bn_def tcp_listener_ok_def)
  show ?case unfolding step Cons.IH by (auto simp: bn image_iff)
qed simp

lemma contains_crlf: "contains_any v crlf \<longleftrightarrow> \<not> no_crlf v"
  unfolding contains_any_iff crlf_def no_crlf_def by simp

lemma find_crlf: "find (\<lambda>(n, v). contains_any v crlf) kvs = None \<longleftrightarrow> (\<forall>v \<in> snd ` set kvs. no_crlf v)"
  by (induction kvs) (auto simp: contains_crlf)

lemma scanHeaderValues_None:
  "scanHeaderValues h = None \<longleftrightarrow> (\<forall>v \<in> snd ` set (htAddRequest h) \<union> snd ` set (htAddResponse h). no_crlf v)"
  using find_crlf [of "htAddRequest h"] find_crlf [of "htAddResponse h"] unfolding scanHeaderValues_def
  by (cases "find (\<lambda>(n, v). contains_any v crlf) (htAddRequest h)";
      cases "find (\<lambda>(n, v). contains_any v crlf) (htAddResponse h)") (auto split: prod.splits)

lemma scanMiddleware_None:
  "scanMiddleware ms = None \<longleftrightarrow> (\<forall>m \<in> set ms. \<forall>h. mcHeaderTransform m = Some h \<longrightarrow> scanHeaderValues h = None)"
  by (induction ms) (auto split: option.splits)

lemma validateRoutes_from_None:
  "validateRoutes_from i seen pools rs = None \<longleftrightarrow>
     distinct (map route_id rs) \<and> (\<forall>r \<in> set rs. seen (route_id r) = None \<and> route_ok (set pools) r)"
proof (induction rs arbitrary: i seen)
  case (Cons r rs)
  define sn where "sn = seen(route_id r \<mapsto> rName r)"
  have sn: "sn k = None \<longleftrightarrow> k \<noteq> route_id r \<and> seen k = None" for k by (simp add: sn_def)
  have scan: "scanMiddleware (rMiddleware r) = None \<longleftrightarrow> (\<forall>m \<in> set (rMiddleware r). \<forall>h. mcHeaderTransform m = Some h \<longrightarrow>
      (\<forall>v \<in> snd ` set (htAddRequest h) \<union> snd ` set (htAddResponse h). no_crlf v))"
    unfolding scanMiddleware_None scanHeaderValues_None ..
  have key: "cfg_route_key r = route_id r" by (simp add: cfg_route_key_def route_id_def cfg_predicatesKey_eq)
  have step: "validateRoutes_from i seen pools (r # rs) = None \<longleftrightarrow>
      route_ok (set pools) r \<and> seen (route_id r) = None \<and> validateRoutes_from (i + 1) sn pools rs = None"
    using scan by (cases "seen (route_id r)"; cases "scanMiddleware (rMiddleware r)")
      (auto simp: key route_ok_def verr_def sn_def)
  show ?case unfolding step Cons.IH by (auto simp: sn image_iff)
qed simp


section \<open>Reloading\<close>

text \<open>
  Reload is all or nothing: over any sequence of reload attempts, from a valid configuration,
  the active configuration is always one that validates, namely the last input that decoded and
  validated (the initial one if there was none), and an attempt reports an error exactly when it
  changes nothing because its input was rejected.
\<close>

theorem reload_keeps_last_good:
  assumes "Validate c0 = None"
  shows "mgr_Load (fold (\<lambda>r m. snd (mgr_Reload decode r m)) inputs (NewManager c0)) =
      last (c0 # List.map_filter (\<lambda>r. case decode r of Inl _ \<Rightarrow> None | Inr c \<Rightarrow> if Validate c = None then Some c else None) inputs) \<and>
    Validate (mgr_Load (fold (\<lambda>r m. snd (mgr_Reload decode r m)) inputs (NewManager c0))) = None \<and>
    (\<forall>r m. fst (mgr_Reload decode r m) \<noteq> None \<longrightarrow>
      snd (mgr_Reload decode r m) = m \<and> (\<forall>c. decode r = Inr c \<longrightarrow> Validate c \<noteq> None))"
proof -
  let ?good = "\<lambda>r. case decode r of Inl _ \<Rightarrow> None | Inr c \<Rightarrow> if Validate c = None then Some c else None"
  have step: "snd (mgr_Reload decode r m) = (case ?good r of None \<Rightarrow> m | Some c \<Rightarrow> \<lparr>active = c\<rparr>)" for r m
    by (auto simp: mgr_Reload_def Load_def mgr_swap_def split: sum.split option.split)
  have "mgr_Load (fold (\<lambda>r m. snd (mgr_Reload decode r m)) inputs \<lparr>active = c\<rparr>) = last (c # List.map_filter ?good inputs)" for c
    by (induction inputs arbitrary: c) (auto simp: step mgr_Load_def map_filter_simps split: option.split)
  moreover have "\<forall>c \<in> set (List.map_filter ?good inputs). Validate c = None"
    by (auto simp: map_filter_def split: sum.splits if_splits)
  then have "Validate (last (c0 # List.map_filter ?good inputs)) = None" using assms by (simp add: last_in_set)
  moreover have "fst (mgr_Reload decode r m) \<noteq> None \<longrightarrow>
      snd (mgr_Reload decode r m) = m \<and> (\<forall>c. decode r = Inr c \<longrightarrow> Validate c \<noteq> None)" for r m
    by (auto simp: mgr_Reload_def Load_def split: sum.splits option.splits)
  ultimately show ?thesis by (simp add: NewManager_def)
qed

definition empty_config :: config where
  "empty_config = \<lparr>Listeners = [], Pools = [], Routes = [], TCPListeners = [], TCPPools = []\<rparr>"

definition bad_config :: config where
  "bad_config = empty_config\<lparr>TCPPools := [\<lparr>tpName = [], tpSelector = \<lparr>sAlgorithm = [], sEWMAHalfLife = 0, sHashKey = [],
     sEpsilon = 0, sVirtualNodes = 0\<rparr>, tpUpstreams = [], tpConnectTimeout = 0\<rparr>]\<rparr>"

theorem reload_keeps_last_good_witness:
  "mgr_Load (fold (\<lambda>r m. snd (mgr_Reload (\<lambda>b. if b then Inr bad_config else Inl ()) r m)) [True, False] (NewManager empty_config))
    = empty_config"
proof -
  have e: "Validate empty_config = None" and b: "Validate bad_config \<noteq> None" by code_simp+
  show ?thesis
    using reload_keeps_last_good [OF e, of "\<lambda>b. if b then Inr bad_config else Inl ()" "[True, False]"] b
    by (simp add: map_filter_simps)
qed

end
