(* ===== verification/Health.thy ===== *)
theory Health
  imports Upstream Config
begin

text \<open>
  The health monitor of \<^verbatim>\<open>internal/health/monitor.go\<close>: active probes with hysteresis and passive error
  scoring. The HTTP client is an argument of a probe through its result. \<^verbatim>\<open>recordResult\<close> updates the
  counters under the state's lock and the eligibility flag after releasing it; the two halves are
  separate definitions, so that the interleaving with \<^verbatim>\<open>RecordOutcome\<close> can be expressed. Logging is
  left out; the \<^verbatim>\<open>OnTransition\<close> callback is the list of transitions an operation reports. Counters
  are unbounded: one probe per nanosecond would take centuries to overflow them.
\<close>

section \<open>Model\<close>

record probe_state =
  psSuccesses :: int
  psFailures :: int
  psErrEWMA :: float64
  psLastPassive :: "time option"

record monitor =
  mPoolName :: string
  mPool :: "uid list"
  mCfg :: active_health_config
  mPassive :: "passive_health_config option"
  mClientTimeout :: duration
  mStates :: "probe_state list"

type_synonym transition = "uid \<times> bool \<times> string"

definition fresh_probe_state :: probe_state where
  "fresh_probe_state = \<lparr>psSuccesses = 0, psFailures = 0, psErrEWMA = 0, psLastPassive = None\<rparr>"

definition probe_timeout :: "active_health_config \<Rightarrow> duration" where
  "probe_timeout c = (if ahTimeout c \<le> 0 then second else ahTimeout c)"

definition NewMonitor ::
  "string \<Rightarrow> uid list \<Rightarrow> active_health_config option \<Rightarrow> passive_health_config option \<Rightarrow> monitor option" where
  "NewMonitor poolName pool active_cfg passive =
     (case active_cfg of
        None \<Rightarrow> None
      | Some c \<Rightarrow> Some \<lparr>mPoolName = poolName, mPool = pool, mCfg = c, mPassive = passive,
          mClientTimeout = probe_timeout c, mStates = replicate (length pool) fresh_probe_state\<rparr>)"

text \<open>\<open>mexp\<close> stands for \<^verbatim>\<open>math.Exp\<close>.\<close>

definition passive_alpha :: "(float64 \<Rightarrow> float64) \<Rightarrow> time \<Rightarrow> duration \<Rightarrow> time option \<Rightarrow> float64" where
  "passive_alpha mexp now halfLife lastPassive =
     (case lastPassive of
        None \<Rightarrow> 1
      | Some t \<Rightarrow>
          (let dt0 = time_sub now t; dt = (if dt0 < 0 then 0 else dt0)
           in fsub 1 (mexp (fdiv (- of_integer dt) (of_integer halfLife)))))"

definition passive_update :: "(float64 \<Rightarrow> float64) \<Rightarrow> time \<Rightarrow> passive_health_config \<Rightarrow> bool \<Rightarrow> probe_state \<Rightarrow> probe_state" where
  "passive_update mexp now p isError st =
     (let halfLife = (if phHalfLife p \<le> 0 then 30 * second else phHalfLife p);
          alpha = passive_alpha mexp now halfLife (psLastPassive st);
          sample = (if isError then 1 else 0)
      in st\<lparr>psLastPassive := Some now, psErrEWMA := fadd (fmul alpha sample) (fmul (fsub 1 alpha) (psErrEWMA st))\<rparr>)"

definition passive_threshold :: "passive_health_config \<Rightarrow> float64" where
  "passive_threshold p = (if phErrorThreshold p \<le> 0 then 1 / 2 else phErrorThreshold p)"

definition mon_RecordOutcome ::
  "(float64 \<Rightarrow> float64) \<Rightarrow> time \<Rightarrow> uid \<Rightarrow> duration \<Rightarrow> bool \<Rightarrow> monitor option \<Rightarrow> heap \<Rightarrow> monitor option \<times> heap \<times> transition list" where
  "mon_RecordOutcome mexp now u latency isError mo h =
     (case mo of
        None \<Rightarrow> (mo, h, [])
      | Some m \<Rightarrow>
        (case mPassive m of
           None \<Rightarrow> (mo, h, [])
         | Some p \<Rightarrow>
           (case index_of u (mPool m) of
              None \<Rightarrow> (mo, h, [])
            | Some idx \<Rightarrow>
                let st = passive_update mexp now p isError (mStates m ! idx)
                in if psErrEWMA st > passive_threshold p \<and> uEligible (h u)
                   then (Some (m\<lparr>mStates := (mStates m)[idx := st\<lparr>psSuccesses := 0, psFailures := 0\<rparr>]\<rparr>),
                         h(u := (h u)\<lparr>uEligible := False\<rparr>), [(u, False, ''passive_threshold_breached'')])
                   else (Some (m\<lparr>mStates := (mStates m)[idx := st]\<rparr>), h, []))))"

definition Run_start :: "monitor \<Rightarrow> heap \<Rightarrow> heap" where
  "Run_start m h = foldl (\<lambda>h u. h(u := (h u)\<lparr>uEligible := False\<rparr>)) h (mPool m)"

definition probe_interval :: "monitor \<Rightarrow> duration" where
  "probe_interval m = (if ahInterval (mCfg m) \<le> 0 then 2 * second else ahInterval (mCfg m))"

text \<open>
  When \<^verbatim>\<open>Run\<close> launches probes, as offsets from its start: one per upstream after a random delay below
  the interval, then one per upstream at every tick.
\<close>

definition run_launches :: "monitor \<Rightarrow> (nat \<Rightarrow> duration) \<Rightarrow> nat \<Rightarrow> (duration \<times> nat) list" where
  "run_launches m jitter ticks =
     map (\<lambda>i. (jitter i, i)) [0..<length (mPool m)] @
     concat (map (\<lambda>k. map (\<lambda>i. ((int k + 1) * probe_interval m, i)) [0..<length (mPool m)]) [0..<ticks])"

record probe_request =
  prMethod :: string
  prURL :: url
  prTimeout :: duration

definition probe_request_of :: "monitor \<Rightarrow> upstream \<Rightarrow> probe_request" where
  "probe_request_of m u =
     \<lparr>prMethod = (if ahMethod (mCfg m) = [] then ''GET'' else ahMethod (mCfg m)),
      prURL = (if ahPath (mCfg m) \<noteq> [] then (uURL u)\<lparr>uPath := ahPath (mCfg m)\<rparr> else uURL u),
      prTimeout = probe_timeout (mCfg m)\<rparr>"

definition statusAccepted :: "int \<Rightarrow> int list \<Rightarrow> bool" where
  "statusAccepted got expected = (if expected = [] then got = 200 else List.member expected got)"

definition healthy_threshold :: "monitor \<Rightarrow> int" where
  "healthy_threshold m = (if ahHealthyThreshold (mCfg m) \<le> 0 then 2 else ahHealthyThreshold (mCfg m))"

definition unhealthy_threshold :: "monitor \<Rightarrow> int" where
  "unhealthy_threshold m = (if ahUnhealthyThreshold (mCfg m) \<le> 0 then 3 else ahUnhealthyThreshold (mCfg m))"

definition recordResult_count :: "nat \<Rightarrow> bool \<Rightarrow> monitor \<Rightarrow> (int \<times> int) \<times> monitor" where
  "recordResult_count idx success m =
     (let st = mStates m ! idx;
          st' = (if success then st\<lparr>psSuccesses := psSuccesses st + 1, psFailures := 0\<rparr>
                 else st\<lparr>psFailures := psFailures st + 1, psSuccesses := 0\<rparr>)
      in ((psSuccesses st', psFailures st'), m\<lparr>mStates := (mStates m)[idx := st']\<rparr>))"

definition recordResult_apply ::
  "nat \<Rightarrow> bool \<Rightarrow> string \<Rightarrow> int \<times> int \<Rightarrow> monitor \<Rightarrow> heap \<Rightarrow> heap \<times> transition list" where
  "recordResult_apply idx success reason counts m h =
     (let u = mPool m ! idx
      in if success \<and> fst counts \<ge> healthy_threshold m \<and> \<not> uEligible (h u)
         then (h(u := (h u)\<lparr>uEligible := True\<rparr>), [(u, True, reason)])
         else if \<not> success \<and> snd counts \<ge> unhealthy_threshold m \<and> uEligible (h u)
         then (h(u := (h u)\<lparr>uEligible := False\<rparr>), [(u, False, reason)])
         else (h, []))"

definition recordResult :: "nat \<Rightarrow> bool \<Rightarrow> string \<Rightarrow> monitor \<Rightarrow> heap \<Rightarrow> monitor \<times> heap \<times> transition list" where
  "recordResult idx success reason m h =
     (let (counts, m') = recordResult_count idx success m; (h', ts) = recordResult_apply idx success reason counts m' h
      in (m', h', ts))"

text \<open>What the probe's HTTP client returned.\<close>

datatype probe_response = ProbeBuildError string | ProbeRequestError string | ProbeStatus int

definition probe :: "nat \<Rightarrow> probe_response \<Rightarrow> monitor \<Rightarrow> heap \<Rightarrow> monitor \<times> heap \<times> transition list" where
  "probe idx resp m h =
     (case resp of
        ProbeBuildError e \<Rightarrow> recordResult idx False (''build-request:'' @ e) m h
      | ProbeRequestError e \<Rightarrow> recordResult idx False (''request:'' @ e) m h
      | ProbeStatus code \<Rightarrow>
          if \<not> statusAccepted code (ahExpectedStatus (mCfg m))
          then recordResult idx False (''status:'' @ itoa code) m h
          else recordResult idx True (''status:'' @ itoa code) m h)"

text \<open>
  \<open>cancelled\<close>: the context is done before the delay is over. A probe that has begun ends in a result even when its
  context is cancelled: the client returns the error of the context, and \<^verbatim>\<open>probe\<close> records a failure.
\<close>

definition probeAfter :: "bool \<Rightarrow> duration \<Rightarrow> nat \<Rightarrow> probe_response \<Rightarrow> monitor \<Rightarrow> heap \<Rightarrow> monitor \<times> heap \<times> transition list" where
  "probeAfter cancelled delay idx resp m h = (if 0 < delay \<and> cancelled then (m, h, []) else probe idx resp m h)"

definition probe_ok :: "monitor \<Rightarrow> probe_response \<Rightarrow> bool" where
  "probe_ok m resp = (case resp of ProbeStatus code \<Rightarrow> statusAccepted code (ahExpectedStatus (mCfg m)) | _ \<Rightarrow> False)"

text \<open>The sequence of probes of one upstream.\<close>

fun probes :: "nat \<Rightarrow> probe_response list \<Rightarrow> monitor \<Rightarrow> heap \<Rightarrow> monitor \<times> heap" where
  "probes idx [] m h = (m, h)"
| "probes idx (r # rs) m h = (let (m', h', _) = probe idx r m h in probes idx rs m' h')"

section \<open>Active probes\<close>

definition streak :: "bool \<Rightarrow> bool list \<Rightarrow> nat" where
  "streak b bs = length (takeWhile (\<lambda>x. x = b) (rev bs))"

lemma streak_simps [simp]:
  "streak b [] = 0" "streak b (bs @ [c]) = (if c = b then Suc (streak b bs) else 0)"
  by (simp_all add: streak_def)

lemma healthy_threshold_pos: "1 \<le> healthy_threshold m" "1 \<le> unhealthy_threshold m"
  by (simp_all add: healthy_threshold_def unhealthy_threshold_def)

lemma probe_result:
  "\<exists>reason. probe idx resp m h = recordResult idx (probe_ok m resp) reason m h"
  by (auto simp: probe_def probe_ok_def split: probe_response.split)

lemma probes_snoc:
  "probes idx (rs @ [r]) m h = (let (m', h') = probes idx rs m h; (m'', h'', _) = probe idx r m' h' in (m'', h''))"
  by (induction rs arbitrary: m h) (auto simp: Let_def split: prod.splits)

text \<open>
  What the counters and the flag are after a sequence of probes: the counters are the lengths of the
  final streaks, the flag follows the last decisive streak.
\<close>

definition stays_eligible :: "bool \<Rightarrow> int \<Rightarrow> int \<Rightarrow> bool list \<Rightarrow> bool" where
  "stays_eligible e H U bs \<longleftrightarrow>
     (\<exists>n \<le> length bs. (n = 0 \<and> e \<or> H \<le> int (streak True (take n bs))) \<and>
        (\<forall>k. n < k \<and> k \<le> length bs \<longrightarrow> int (streak False (take k bs)) < U))"

lemma stays_eligible_snoc:
  assumes "1 \<le> H" and "1 \<le> U"
  shows "stays_eligible e H U (cs @ [b]) \<longleftrightarrow>
    (if b \<and> H \<le> int (streak True (cs @ [b])) then True
     else if \<not> b \<and> U \<le> int (streak False (cs @ [b])) then False else stays_eligible e H U cs)"
proof -
  let ?bs = "cs @ [b]"
  have old: "k \<le> length cs \<Longrightarrow> take k ?bs = take k cs" and new: "take (Suc (length cs)) ?bs = ?bs" for k by simp_all
  consider (up) "b" "H \<le> int (streak True ?bs)" | (down) "\<not> b" "U \<le> int (streak False ?bs)"
    | (same) "b \<Longrightarrow> int (streak True ?bs) < H" "\<not> b \<Longrightarrow> int (streak False ?bs) < U" by linarith
  then show ?thesis
  proof cases
    case up
    then have "stays_eligible e H U ?bs" unfolding stays_eligible_def by (intro exI [of _ "Suc (length cs)"]) simp
    with up show ?thesis by simp
  next
    case down
    have "\<not> stays_eligible e H U ?bs"
    proof
      assume "stays_eligible e H U ?bs"
      then obtain n where n: "n \<le> Suc (length cs)" "n = 0 \<and> e \<or> H \<le> int (streak True (take n ?bs))"
        "n < Suc (length cs) \<Longrightarrow> int (streak False ?bs) < U"
        unfolding stays_eligible_def by (metis new length_append_singleton order_refl)
      have "\<not> n < Suc (length cs)" using n(3) down(2) by linarith
      then have "n = Suc (length cs)" using n(1) by simp
      then show False using n(2) down(1) assms(1) new by simp
    qed
    with down show ?thesis by simp
  next
    case same
    have S: "int (streak False ?bs) < U" "\<not> H \<le> int (streak True ?bs)" using same assms by (cases b; simp)+
    have "stays_eligible e H U ?bs \<longleftrightarrow> stays_eligible e H U cs"
    proof
      assume "stays_eligible e H U ?bs"
      then obtain n where n: "n \<le> Suc (length cs)" "n = 0 \<and> e \<or> H \<le> int (streak True (take n ?bs))"
        "\<And>k. n < k \<Longrightarrow> k \<le> Suc (length cs) \<Longrightarrow> int (streak False (take k ?bs)) < U"
        unfolding stays_eligible_def by auto
      have "n \<le> length cs" using n(1,2) S(2) new by (cases "n = Suc (length cs)") auto
      with n(2,3) show "stays_eligible e H U cs" unfolding stays_eligible_def
        by (intro exI [of _ n]) (metis le_SucI old)
    next
      assume "stays_eligible e H U cs"
      then obtain n where "n \<le> length cs" "n = 0 \<and> e \<or> H \<le> int (streak True (take n cs))"
        "\<And>k. n < k \<Longrightarrow> k \<le> length cs \<Longrightarrow> int (streak False (take k cs)) < U"
        unfolding stays_eligible_def by auto
      with S(1) show "stays_eligible e H U ?bs" unfolding stays_eligible_def
        by (intro exI [of _ n]) (auto simp: le_Suc_eq)
    qed
    then show ?thesis using S same by auto
  qed
qed

lemma probes_counters:
  assumes "idx < length (mStates m)" and "mStates m ! idx = st" and "psSuccesses st = 0" and "psFailures st = 0"
    and "probes idx rs m h = (m', h')" and "bs = map (probe_ok m) rs" and "u = mPool m ! idx"
  shows "mCfg m' = mCfg m \<and> mPool m' = mPool m \<and> length (mStates m') = length (mStates m) \<and>
    psSuccesses (mStates m' ! idx) = int (streak True bs) \<and> psFailures (mStates m' ! idx) = int (streak False bs) \<and>
    uEligible (h' u) = stays_eligible (uEligible (h u)) (healthy_threshold m) (unhealthy_threshold m) bs"
  using assms(5,6)
proof (induction rs arbitrary: m' h' bs rule: rev_induct)
  case Nil
  then show ?case using assms healthy_threshold_pos(1) [of m] by (auto simp: stays_eligible_def)
next
  case (snoc r rs)
  obtain m1 h1 where p: "probes idx rs m h = (m1, h1)" by fastforce
  define b cs where "b = probe_ok m r" and "cs = map (probe_ok m) rs"
  have bs: "bs = cs @ [b]" using snoc.prems(2) by (simp add: b_def cs_def)
  note IH = snoc.IH [OF p cs_def]
  have thr: "healthy_threshold m1 = healthy_threshold m" "unhealthy_threshold m1 = unhealthy_threshold m" "probe_ok m1 = probe_ok m"
    using IH by (simp_all add: healthy_threshold_def unhealthy_threshold_def probe_ok_def [abs_def])
  obtain reason where "probe idx r m1 h1 = recordResult idx b reason m1 h1"
    using probe_result [of idx r m1 h1] by (auto simp: thr b_def)
  then have run: "(m', h') = (let (c, m2) = recordResult_count idx b m1 in (m2, fst (recordResult_apply idx b reason c m2 h1)))"
    using snoc.prems(1) p by (auto simp: probes_snoc recordResult_def Let_def split: prod.splits)
  have len: "idx < length (mStates m1)" "mPool m1 ! idx = u" using IH assms(1,7) by auto
  have "uEligible (h' u) = (if b \<and> healthy_threshold m \<le> int (streak True bs) then True
      else if \<not> b \<and> unhealthy_threshold m \<le> int (streak False bs) then False else uEligible (h1 u))"
    using run IH len by (auto simp: bs recordResult_count_def recordResult_apply_def Let_def
        healthy_threshold_def unhealthy_threshold_def add.commute)
  moreover have "stays_eligible (uEligible (h u)) (healthy_threshold m) (unhealthy_threshold m) bs =
      (if b \<and> healthy_threshold m \<le> int (streak True bs) then True
      else if \<not> b \<and> unhealthy_threshold m \<le> int (streak False bs) then False else uEligible (h1 u))"
    unfolding bs stays_eligible_snoc [OF healthy_threshold_pos] using IH by simp
  moreover have "psSuccesses (mStates m' ! idx) = int (streak True bs)" "psFailures (mStates m' ! idx) = int (streak False bs)"
    "mCfg m' = mCfg m" "mPool m' = mPool m" "length (mStates m') = length (mStates m)"
    using run IH len(1) by (auto simp: bs recordResult_count_def Let_def)
  ultimately show ?case by simp
qed

section \<open>Passive scoring\<close>

definition score_ok :: "probe_state \<Rightarrow> bool" where
  "score_ok st \<longleftrightarrow> 0 \<le> psErrEWMA st \<and> psErrEWMA st \<le> 1"

definition mon_inv :: "monitor \<Rightarrow> bool" where
  "mon_inv m \<longleftrightarrow> length (mStates m) = length (mPool m) \<and> (\<forall>st \<in> set (mStates m). score_ok st)"

definition exp_law :: "(float64 \<Rightarrow> float64) \<Rightarrow> bool" where
  "exp_law mexp \<longleftrightarrow> (\<forall>x \<le> 0. 0 \<le> mexp x \<and> mexp x \<le> 1)"

lemma index_of_less: "index_of u us = Some i \<Longrightarrow> i < length us \<and> us ! i = u"
  by (rule index_of_SomeD)

lemma passive_alpha_unit:
  assumes "exp_law mexp" and "0 < halfLife"
  shows "0 \<le> passive_alpha mexp now halfLife l \<and> passive_alpha mexp now halfLife l \<le> 1 \<and>
    rnd (passive_alpha mexp now halfLife l) = passive_alpha mexp now halfLife l"
proof (cases l)
  case (Some t)
  define dt where "dt = (if time_sub now t < 0 then 0 else time_sub now t)"
  have nn: "0 \<le> of_integer dt" "0 \<le> of_integer halfLife" using assms(2) by (auto simp: dt_def intro: rnd_nonneg)
  have "0 \<le> of_integer dt / of_integer halfLife" by (rule divide_nonneg_nonneg [OF nn])
  then have "0 \<le> fdiv (of_integer dt) (of_integer halfLife)" by (rule rnd_nonneg)
  then have "fdiv (- of_integer dt) (of_integer halfLife) \<le> 0"
    using rnd_minus [of "of_integer dt / of_integer halfLife"] by simp
  then have e: "0 \<le> mexp (fdiv (- of_integer dt) (of_integer halfLife)) \<and> mexp (fdiv (- of_integer dt) (of_integer halfLife)) \<le> 1"
    using assms(1) by (simp add: exp_law_def)
  have "passive_alpha mexp now halfLife l = fsub 1 (mexp (fdiv (- of_integer dt) (of_integer halfLife)))"
    by (simp add: passive_alpha_def Some dt_def Let_def)
  then show ?thesis using e fl.unit [of "1 - mexp (fdiv (- of_integer dt) (of_integer halfLife))"] by (simp add: rnd_idem)
qed (simp add: passive_alpha_def)

lemma passive_update_ok:
  assumes "exp_law mexp" and "score_ok st"
  shows "score_ok (passive_update mexp now p e st)"
proof -
  define halfLife where "halfLife = (if phHalfLife p \<le> 0 then 30 * second else phHalfLife p)"
  define alpha where "alpha = passive_alpha mexp now halfLife (psLastPassive st)"
  have "0 < halfLife" by (simp add: halfLife_def)
  from passive_alpha_unit [OF assms(1) this, of now "psLastPassive st"]
  have "0 \<le> alpha" "alpha \<le> 1" "rnd alpha = alpha" unfolding alpha_def by auto
  from fl.blend_unit [OF this, of "if e then 1 else 0" "psErrEWMA st"] assms(2)
  have "0 \<le> fadd (fmul alpha (if e then 1 else 0)) (fmul (fsub 1 alpha) (psErrEWMA st)) \<and>
    fadd (fmul alpha (if e then 1 else 0)) (fmul (fsub 1 alpha) (psErrEWMA st)) \<le> 1"
    unfolding score_ok_def by simp
  then show ?thesis
    unfolding score_ok_def passive_update_def Let_def halfLife_def [symmetric] alpha_def [symmetric] by simp
qed

text \<open>One outcome that the monitor scores, and its effect.\<close>

lemma RecordOutcome_cases:
  assumes "mon_RecordOutcome mexp now u lat err (Some m) h = (mo', h', ts)"
  obtains (unscored) "mo' = Some m" "h' = h" "ts = []"
  | (scored) idx p where "index_of u (mPool m) = Some idx"
      "mo' = Some (m\<lparr>mStates := (mStates m)[idx := passive_update mexp now p err (mStates m ! idx)]\<rparr>)" "h' = h" "ts = []"
  | (ejected) idx p where "index_of u (mPool m) = Some idx"
      "mo' = Some (m\<lparr>mStates := (mStates m)[idx := (passive_update mexp now p err (mStates m ! idx))\<lparr>psSuccesses := 0, psFailures := 0\<rparr>]\<rparr>)"
      "h' = h(u := (h u)\<lparr>uEligible := False\<rparr>)"
proof (cases "mPassive m")
  case None
  then show ?thesis using assms unscored by (simp add: mon_RecordOutcome_def)
next
  case (Some p)
  show ?thesis
  proof (cases "index_of u (mPool m)")
    case None
    then show ?thesis using assms unscored Some unfolding mon_RecordOutcome_def by (simp del: index_of_None_iff)
  next
    case (Some idx)
    let ?st = "passive_update mexp now p err (mStates m ! idx)"
    show ?thesis
    proof (cases "psErrEWMA ?st > passive_threshold p \<and> uEligible (h u)")
      case True
      then show ?thesis using assms Some \<open>mPassive m = Some p\<close>
        by (intro ejected [OF Some, of p]) (auto simp: mon_RecordOutcome_def Let_def)
    next
      case False
      then show ?thesis using assms Some \<open>mPassive m = Some p\<close>
        by (intro scored [OF Some, of p]) (auto simp: mon_RecordOutcome_def Let_def)
    qed
  qed
qed

lemma mon_inv_update:
  "mon_inv m \<Longrightarrow> score_ok st \<Longrightarrow> mon_inv (m\<lparr>mStates := (mStates m)[idx := st]\<rparr>)"
  by (auto simp: mon_inv_def dest!: set_update_subset_insert [THEN subsetD])

lemma RecordOutcome_inv:
  assumes "exp_law mexp" and "mon_inv m" and "mon_RecordOutcome mexp now u lat err (Some m) h = (mo', h', ts)"
  shows "\<exists>m'. mo' = Some m' \<and> mon_inv m' \<and> mPool m' = mPool m \<and> mCfg m' = mCfg m \<and> (\<forall>v. uEligible (h' v) \<longrightarrow> uEligible (h v))"
proof -
  have ok: "score_ok (passive_update mexp now p err (mStates m ! idx))" if "index_of u (mPool m) = Some idx" for p idx
    using passive_update_ok [OF assms(1)] index_of_less [OF that] assms(2) by (simp add: mon_inv_def)
  then have "score_ok ((passive_update mexp now p err (mStates m ! idx))\<lparr>psSuccesses := 0, psFailures := 0\<rparr>)"
    if "index_of u (mPool m) = Some idx" for p idx using that by (simp add: score_ok_def)
  note okup = mon_inv_update [OF assms(2) ok] mon_inv_update [OF assms(2) this]
  from assms(3) show ?thesis
    by (cases rule: RecordOutcome_cases) (use okup assms(2) in \<open>auto split: if_splits\<close>)
qed

lemma recordResult_inv:
  assumes "mon_inv m" and "recordResult idx ok reason m h = (m', h', ts)" and "idx < length (mPool m)"
  shows "mon_inv m' \<and> mPool m' = mPool m \<and> mCfg m' = mCfg m"
proof -
  have st: "score_ok (mStates m ! idx)" using assms(1,3) by (simp add: mon_inv_def)
  have m': "m' = snd (recordResult_count idx ok m)" using assms(2) by (auto simp: recordResult_def split: prod.splits)
  have "mon_inv m'"
    unfolding m' recordResult_count_def Let_def snd_conv by (rule mon_inv_update [OF assms(1)]) (use st in \<open>simp add: score_ok_def\<close>)
  then show ?thesis by (simp add: m' recordResult_count_def Let_def)
qed

section \<open>Properties\<close>

text \<open>The runs of a monitor: probes of any upstream and outcomes of the traffic, in any order.\<close>

inductive monitor_run :: "(float64 \<Rightarrow> float64) \<Rightarrow> monitor \<Rightarrow> heap \<Rightarrow> bool" for mexp where
  run_start: "NewMonitor name pool (Some c) passive = Some m \<Longrightarrow> monitor_run mexp m (Run_start m h)"
| run_probe: "\<lbrakk> monitor_run mexp m h; idx < length (mPool m); probe idx resp m h = (m', h', ts) \<rbrakk> \<Longrightarrow> monitor_run mexp m' h'"
| run_outcome: "\<lbrakk> monitor_run mexp m h; mon_RecordOutcome mexp now u lat err (Some m) h = (Some m', h', ts) \<rbrakk>
    \<Longrightarrow> monitor_run mexp m' h'"

lemma monitor_run_inv: "monitor_run mexp m h \<Longrightarrow> exp_law mexp \<Longrightarrow> mon_inv m"
proof (induction rule: monitor_run.induct)
  case (run_start name pool c pas m h)
  then show ?case by (auto simp: NewMonitor_def mon_inv_def score_ok_def fresh_probe_state_def)
next
  case (run_probe m h idx resp m' h' ts)
  then show ?case using probe_result [of idx resp m h] recordResult_inv by metis
next
  case (run_outcome m h now u lat err m' h' ts)
  then show ?case using RecordOutcome_inv by fastforce
qed

text \<open>
  The passive score is a proportion: in every run of a monitor, whatever the clock does and in
  whatever order probes and outcomes come, each upstream's error average, computed in \<^verbatim>\<open>float64\<close>, stays
  between 0 and 1 (so a threshold above 1 disables ejection and one below is reachable), given that
  \<^verbatim>\<open>math.Exp\<close> maps non-positive arguments into the unit interval.
\<close>

theorem passive_score_in_unit:
  assumes "exp_law mexp" and "monitor_run mexp m h" and "st \<in> set (mStates m)"
  shows "0 \<le> psErrEWMA st \<and> psErrEWMA st \<le> 1"
  using monitor_run_inv [OF assms(2,1)] assms(3) by (auto simp: mon_inv_def score_ok_def)

definition sample_active :: active_health_config where
  "sample_active = \<lparr>ahPath = ''/healthz'', ahMethod = [], ahInterval = 0, ahTimeout = 0, ahHealthyThreshold = 0,
     ahUnhealthyThreshold = 0, ahExpectedStatus = []\<rparr>"

definition sample_passive :: passive_health_config where
  "sample_passive = \<lparr>phErrorThreshold = 0, phLatencyP99Threshold = 0, phHalfLife = 0\<rparr>"

definition sample_monitor :: monitor where
  "sample_monitor = the (NewMonitor ''p'' [0] (Some sample_active) (Some sample_passive))"

lemma sample_monitor_new: "NewMonitor ''p'' [0] (Some sample_active) (Some sample_passive) = Some sample_monitor"
  by (simp add: sample_monitor_def NewMonitor_def)

theorem passive_score_in_unit_witness:
  "\<forall>st \<in> set (mStates (fst (probe 0 (ProbeStatus 200) sample_monitor (Run_start sample_monitor (\<lambda>u. sample_upstream ''a'' 1))))).
     0 \<le> psErrEWMA st \<and> psErrEWMA st \<le> 1"
proof
  let ?h = "Run_start sample_monitor (\<lambda>u. sample_upstream ''a'' 1)"
  fix st assume st: "st \<in> set (mStates (fst (probe 0 (ProbeStatus 200) sample_monitor ?h)))"
  obtain m' h' ts where p: "probe 0 (ProbeStatus 200) sample_monitor ?h = (m', h', ts)" by (metis prod_cases3)
  have "monitor_run (\<lambda>_. 0) sample_monitor ?h" by (rule run_start [OF sample_monitor_new])
  then have "monitor_run (\<lambda>_. 0) m' h'" by (rule run_probe [OF _ _ p]) (simp add: sample_monitor_def NewMonitor_def)
  moreover have "exp_law (\<lambda>_. 0)" by (simp add: exp_law_def)
  ultimately show "0 \<le> psErrEWMA st \<and> psErrEWMA st \<le> 1" using passive_score_in_unit [of "\<lambda>_. 0" m' h' st] st p by simp
qed

lemma Run_start_eligible: "uEligible (Run_start m h u) \<longleftrightarrow> uEligible (h u) \<and> u \<notin> set (mPool m)"
proof -
  have "uEligible (foldl (\<lambda>h u. h(u := (h u)\<lparr>uEligible := False\<rparr>)) h us u) \<longleftrightarrow> uEligible (h u) \<and> u \<notin> set us" for us
    by (induction us arbitrary: h) auto
  then show ?thesis by (simp add: Run_start_def)
qed

text \<open>
  (C21) Active probing is a hysteresis: after the monitor has started and probed an upstream with any
  sequence of results, the upstream is eligible exactly when at some point the last
  \<^verbatim>\<open>healthy_threshold\<close> probes had all succeeded and since then no \<^verbatim>\<open>unhealthy_threshold\<close> consecutive
  probes have failed (thresholds 2 and 3 when not configured). In particular it starts ineligible.
\<close>

theorem active_probe_hysteresis:
  assumes "NewMonitor name pool (Some c) passive = Some m" and "idx < length pool"
    and "probes idx rs m (Run_start m h) = (m', h')" and "bs = map (probe_ok m) rs"
  shows "uEligible (h' (pool ! idx)) \<longleftrightarrow>
    (\<exists>n \<le> length bs. healthy_threshold m \<le> int (streak True (take n bs)) \<and>
      (\<forall>k. n < k \<and> k \<le> length bs \<longrightarrow> int (streak False (take k bs)) < unhealthy_threshold m))"
proof -
  have m: "mPool m = pool" "mStates m = replicate (length pool) fresh_probe_state" using assms(1) by (auto simp: NewMonitor_def)
  have "\<not> uEligible (Run_start m h (pool ! idx))" using assms(2) by (simp add: Run_start_eligible m)
  then show ?thesis
    using probes_counters [of idx m fresh_probe_state rs "Run_start m h" m' h' bs "pool ! idx"] assms m
    by (simp add: fresh_probe_state_def stays_eligible_def)
qed

theorem active_probe_hysteresis_witness:
  "uEligible (snd (probes 0 [ProbeStatus 200, ProbeStatus 200, ProbeStatus 500] sample_monitor
     (Run_start sample_monitor (\<lambda>u. sample_upstream ''a'' 1))) 0)"
proof -
  let ?rs = "[ProbeStatus 200, ProbeStatus 200, ProbeStatus 500]" and ?h = "\<lambda>u :: uid. sample_upstream ''a'' 1"
  obtain m' h' where p: "probes 0 ?rs sample_monitor (Run_start sample_monitor ?h) = (m', h')" by fastforce
  have bs: "map (probe_ok sample_monitor) ?rs = [True, True, False]" by code_simp
  have "streak True (take 2 [True, True, False]) = 2" "streak False (take 3 [True, True, False]) = 1"
    "healthy_threshold sample_monitor = 2" "unhealthy_threshold sample_monitor = 3" by code_simp+
  then have "\<exists>n \<le> length [True, True, False]. healthy_threshold sample_monitor \<le> int (streak True (take n [True, True, False])) \<and>
      (\<forall>k. n < k \<and> k \<le> length [True, True, False] \<longrightarrow> int (streak False (take k [True, True, False])) < unhealthy_threshold sample_monitor)"
    by (intro exI [of _ 2]) (auto simp: le_Suc_eq numeral_3_eq_3)
  then show ?thesis using active_probe_hysteresis [OF sample_monitor_new _ p refl] unfolding bs p by simp
qed

lemma launches_of:
  "idx < length (mPool m) \<Longrightarrow> filter (\<lambda>l. snd l = idx) (run_launches m jitter n) =
     (jitter idx, idx) # map (\<lambda>k. ((int k + 1) * probe_interval m, idx)) [0..<n]"
proof -
  assume "idx < length (mPool m)"
  then have one: "filter (\<lambda>l. snd l = idx) (map (\<lambda>i. (f i, i)) [0..<length (mPool m)]) = [(f idx, idx)]" for f :: "nat \<Rightarrow> duration"
  proof -
    have "filter (\<lambda>i. i = idx) [0..<N] = (if idx < N then [idx] else [])" for N by (induction N) auto
    then show ?thesis using \<open>idx < length (mPool m)\<close> by (simp add: filter_map comp_def)
  qed
  have "filter (\<lambda>l. snd l = idx) (concat (map (\<lambda>k. map (\<lambda>i. (g k, i)) [0..<length (mPool m)]) ks)) = map (\<lambda>k. (g k, idx)) ks"
    for g :: "nat \<Rightarrow> duration" and ks
    by (induction ks) (simp_all add: one [of "\<lambda>_. g _"])
  then show ?thesis by (simp add: run_launches_def one)
qed

text \<open>
  (C22) Recovery is bounded in time: when every probe of an upstream succeeds from the start of the monitor
  on, the probes launched in the first \<open>n\<close> intervals make it eligible as soon as \<open>n + 1\<close> reaches the
  healthy threshold; there are exactly \<open>n + 1\<close> of them, whatever the random delays.
\<close>

theorem recovery_within_threshold:
  assumes "NewMonitor name pool (Some c) passive = Some m" and "idx < length pool"
    and "\<forall>i. 0 \<le> jitter i \<and> jitter i < probe_interval m" and "1 \<le> n" and "healthy_threshold m \<le> int n + 1"
    and "launches = filter (\<lambda>l. snd l = idx) (run_launches m jitter n)" and "length rs = length launches" and "\<forall>r \<in> set rs. probe_ok m r"
  shows "length launches = n + 1 \<and> (\<forall>l \<in> set launches. 0 \<le> fst l \<and> fst l \<le> int n * probe_interval m) \<and>
    uEligible (snd (probes idx rs m (Run_start m h)) (pool ! idx))"
proof -
  have m: "mPool m = pool" "mStates m = replicate (length pool) fresh_probe_state" using assms(1) by (auto simp: NewMonitor_def)
  have l: "launches = (jitter idx, idx) # map (\<lambda>k. ((int k + 1) * probe_interval m, idx)) [0..<n]"
    using assms(2,6) launches_of [of idx m jitter n] m by simp
  have pos: "0 < probe_interval m" using assms(3) by (meson le_less_trans)
  have "(int k + 1) * probe_interval m \<le> int n * probe_interval m" if "k < n" for k
    using that pos by (intro mult_right_mono) auto
  moreover have "jitter idx \<le> int n * probe_interval m"
    using assms(3,4) pos mult_right_mono [of 1 "int n" "probe_interval m"] by (smt (verit) of_nat_1 of_nat_mono)
  ultimately have times: "\<forall>l \<in> set launches. 0 \<le> fst l \<and> fst l \<le> int n * probe_interval m"
    using assms(3) pos by (auto simp: l)
  obtain m' h' where p: "probes idx rs m (Run_start m h) = (m', h')" by fastforce
  have bs: "map (probe_ok m) rs = replicate (n + 1) True"
  proof (rule replicate_eqI)
    show "length (map (probe_ok m) rs) = n + 1" using assms(7) l by simp
    show "y = True" if "y \<in> set (map (probe_ok m) rs)" for y using that assms(8) by auto
  qed
  have "streak True (replicate k True) = k" for k by (simp add: streak_def)
  then have "stays_eligible e (healthy_threshold m) (unhealthy_threshold m) (replicate (n + 1) True)" for e
    using assms(5) unfolding stays_eligible_def by (intro exI [of _ "n + 1"]) (auto simp del: replicate.simps)
  then have "uEligible (h' (pool ! idx))"
    using probes_counters [of idx m fresh_probe_state rs "Run_start m h" m' h' _ "pool ! idx", OF _ _ _ _ p bs [symmetric]] assms(2) m
    by (simp add: fresh_probe_state_def)
  then show ?thesis using times l p by simp
qed

theorem recovery_within_threshold_witness:
  "uEligible (snd (probes 0 [ProbeStatus 200, ProbeStatus 200] sample_monitor (Run_start sample_monitor (\<lambda>_. sample_upstream ''a'' 1))) 0)"
proof -
  have ok: "\<forall>r \<in> set [ProbeStatus 200, ProbeStatus 200]. probe_ok sample_monitor r" by code_simp
  have c: "healthy_threshold sample_monitor = 2" "0 < probe_interval sample_monitor" "mPool sample_monitor = [0]" by code_simp+
  show ?thesis
    using recovery_within_threshold [OF sample_monitor_new, of 0 "\<lambda>_. 0" 1 _ "[ProbeStatus 200, ProbeStatus 200]"] ok c
    by (auto simp: launches_of)
qed



text \<open>
  The valve has a race: \<^verbatim>\<open>recordResult\<close> tests and sets the flag after it has released the lock. If
  a successful probe of an eligible upstream has counted its success, an outcome then ejects the
  upstream, and the probe goes on, the probe makes the upstream eligible again at once, with counters
  at zero and not one probe after the ejection.
\<close>

theorem ejection_undone_by_race:
  assumes "recordResult_count idx True m = (counts, m1)" and "healthy_threshold m \<le> fst counts"
    and "mon_RecordOutcome mexp now u lat err (Some m1) h = (Some m2, h2, ts)" and "ts \<noteq> []"
    and "index_of u (mPool m) = Some idx" and "length (mStates m) = length (mPool m)"
  shows "\<not> uEligible (h2 u) \<and> psSuccesses (mStates m2 ! idx) = 0 \<and>
    uEligible (fst (recordResult_apply idx True reason counts m2 h2) u)"
proof -
  have m1: "mPool m1 = mPool m" "mCfg m1 = mCfg m" "length (mStates m1) = length (mPool m)"
    using assms(1,6) by (auto simp: recordResult_count_def Let_def)
  have idx: "idx < length (mPool m)" "mPool m ! idx = u" using index_of_less [OF assms(5)] by auto
  have "\<not> uEligible (h2 u) \<and> psSuccesses (mStates m2 ! idx) = 0 \<and> mPool m2 = mPool m \<and> mCfg m2 = mCfg m"
    by (rule RecordOutcome_cases [OF assms(3)]) (use assms(4,5) m1 idx in auto)
  then show ?thesis using assms(2) idx by (auto simp: recordResult_apply_def Let_def healthy_threshold_def)
qed

theorem ejection_undone_by_race_witness:
  "\<exists>m counts m1 m2 h2 ts. recordResult_count 0 True m = (counts, m1) \<and>
     mon_RecordOutcome (\<lambda>_. 0) 5 0 1 True (Some m1) (\<lambda>u. sample_upstream ''a'' 1) = (Some m2, h2, ts) \<and>
     \<not> uEligible (h2 0) \<and> uEligible (fst (recordResult_apply 0 True [] counts m2 h2) 0)"
proof -
  let ?m = "sample_monitor\<lparr>mStates := [fresh_probe_state\<lparr>psSuccesses := 7\<rparr>]\<rparr>" and ?h = "\<lambda>u :: uid. sample_upstream ''a'' 1"
  obtain counts m1 where c: "recordResult_count 0 True ?m = (counts, m1)" by fastforce
  obtain mo2 h2 ts where r: "mon_RecordOutcome (\<lambda>_. 0) 5 0 1 True (Some m1) ?h = (mo2, h2, ts)" by (metis prod_cases3)
  have "fst (recordResult_count 0 True ?m) = (8, 0)" "healthy_threshold ?m = 2" by code_simp+
  then have t: "healthy_threshold ?m \<le> fst counts" using c by simp
  have "snd (snd (mon_RecordOutcome (\<lambda>_. 0) 5 0 1 True (Some (snd (recordResult_count 0 True ?m))) ?h)) = [(0, False, ''passive_threshold_breached'')]"
    "\<exists>m. fst (mon_RecordOutcome (\<lambda>_. 0) 5 0 1 True (Some (snd (recordResult_count 0 True ?m))) ?h) = Some m"
    by (simp_all add: recordResult_count_def sample_monitor_def NewMonitor_def mon_RecordOutcome_def sample_passive_def passive_update_def passive_threshold_def
        fresh_probe_state_def passive_alpha_def sample_upstream_def Let_def)
  then obtain m2 where "ts \<noteq> []" "mo2 = Some m2" using c r by auto
  with ejection_undone_by_race [OF c t, of "\<lambda>_. 0" 5 0 1 True ?h m2 h2 ts "[]"] r c show ?thesis
    by (fastforce simp: sample_monitor_def NewMonitor_def)
qed

end
