(* ===== verification/Middleware.thy ===== *)
theory Middleware
  imports Selectors Health
begin

text \<open>
  Handlers, response writers and the middleware type of \<^verbatim>\<open>internal/middleware/middleware.go\<close> and
  \<^verbatim>\<open>timeout.go\<close>. A handler is a function that makes calls on its \<^verbatim>\<open>http.ResponseWriter\<close>; its run is the
  list of those calls, how it ended (return or panic) and what it stored in the request's
  \<^verbatim>\<open>*AttemptOutcome\<close>. A wrapper around a response writer is a transducer from the calls it receives to
  the calls it makes on the writer it wraps. \<open>base_step\<close> is the server's own writer: the first
  \<^verbatim>\<open>WriteHeader\<close> (or an implicit 200 at the first \<^verbatim>\<open>Write\<close>) commits the status line and the header map,
  informational codes and later calls of \<^verbatim>\<open>WriteHeader\<close> do not count.
\<close>

section \<open>Response writers\<close>

datatype wcall =
  HSet string string
| HAdd string string
| HDel string
| HPutAll header
| WriteHeader int
| Write string
| Flush

fun hcall :: "wcall \<Rightarrow> header \<Rightarrow> header" where
  "hcall (HSet k v) h = hdr_set h k v"
| "hcall (HAdd k v) h = hdr_add h k v"
| "hcall (HDel k) h = hdr_del h k"
| "hcall (HPutAll m) h = h ++ m"
| "hcall _ h = h"

record response =
  wHeader :: header
  wCommitted :: "(int \<times> header) option"
  wBody :: string

definition new_response :: response where
  "new_response = \<lparr>wHeader = Map.empty, wCommitted = None, wBody = []\<rparr>"

definition informational :: "int \<Rightarrow> bool" where
  "informational c \<longleftrightarrow> 100 \<le> c \<and> c \<le> 199 \<and> c \<noteq> 101"

definition commit_status :: "int \<Rightarrow> response \<Rightarrow> response" where
  "commit_status c r = (if wCommitted r = None then r\<lparr>wCommitted := Some (c, wHeader r)\<rparr> else r)"

fun base_step :: "wcall \<Rightarrow> response \<Rightarrow> response" where
  "base_step (WriteHeader c) r = (if informational c then r else commit_status c r)"
| "base_step (Write p) r = (let r' = commit_status 200 r in r'\<lparr>wBody := wBody r' @ p\<rparr>)"
| "base_step Flush r = commit_status 200 r"
| "base_step call r = r\<lparr>wHeader := hcall call (wHeader r)\<rparr>"

definition respond :: "wcall list \<Rightarrow> response \<Rightarrow> response" where
  "respond calls r = fold base_step calls r"

definition status_of :: "response \<Rightarrow> int" where
  "status_of r = (case wCommitted r of None \<Rightarrow> 200 | Some (c, _) \<Rightarrow> c)"

text \<open>
  A wrapper: \<open>step call s h\<close> is the wrapper's state after the call and the calls it makes in turn, \<open>h\<close>
  the live header map of the wrapped writer.
\<close>

fun transduce :: "(wcall \<Rightarrow> 's \<Rightarrow> header \<Rightarrow> 's \<times> wcall list) \<Rightarrow> wcall list \<Rightarrow> 's \<Rightarrow> header \<Rightarrow> 's \<times> wcall list" where
  "transduce step [] s h = (s, [])"
| "transduce step (c # cs) s h =
     (let (s', out) = step c s h; (s'', out') = transduce step cs s' (fold hcall out h) in (s'', out @ out'))"

lemma respond_simps [simp]:
  "respond [] r = r" "respond (c # cs) r = respond cs (base_step c r)" "respond (cs @ ds) r = respond ds (respond cs r)"
  by (simp_all add: respond_def)

lemma transduce_append:
  "transduce step (cs @ ds) s h =
     (let (s', out) = transduce step cs s h; (s'', out') = transduce step ds s' (fold hcall out h) in (s'', out @ out'))"
  by (induction cs arbitrary: s h) (auto simp: Let_def split: prod.split)

text \<open>\<^verbatim>\<open>http.Error\<close>.\<close>

definition http_Error :: "string \<Rightarrow> int \<Rightarrow> wcall list" where
  "http_Error msg code =
     [HDel ''Content-Length'', HSet ''Content-Type'' ''text/plain; charset=utf-8'',
      HSet ''X-Content-Type-Options'' ''nosniff'', WriteHeader code, Write (msg @ [CHR 0x0A])]"

section \<open>Handlers\<close>

datatype ending = Returned | Panicked string

record run =
  rnCalls :: "wcall list"
  rnEnding :: ending
  rnChosen :: "uid option"
  rnErr :: "string option"

text \<open>
  \<^verbatim>\<open>AttemptInfo\<close> (its field \<^verbatim>\<open>Original\<close> is never set) and what the proxy keeps in a request's context and
  asks of a response writer: the live header map at the call, whether the writer is a \<^verbatim>\<open>Flusher\<close> or a
  \<^verbatim>\<open>Hijacker\<close>, the attempt, whether an \<^verbatim>\<open>*AttemptOutcome\<close> is installed, the
  deadline, whether the context was cancelled.
\<close>

record attempt_info =
  aiNumber :: int
  aiExclude :: "uid list"
  aiIsHedge :: bool

record reqctx =
  cRequestID :: string
  cAttempt :: "attempt_info option"
  cHasOutcome :: bool
  cDeadline :: "time option"
  cCancelled :: bool
  cHeader :: header
  cFlusher :: bool
  cHijacker :: bool

definition background :: reqctx where
  "background = \<lparr>cRequestID = [], cAttempt = None, cHasOutcome = False, cDeadline = None, cCancelled = False, cHeader = Map.empty,
     cFlusher = True, cHijacker = True\<rparr>"

definition zero_attempt :: attempt_info where
  "zero_attempt = \<lparr>aiNumber = 0, aiExclude = [], aiIsHedge = False\<rparr>"

definition AttemptFromContext :: "reqctx \<Rightarrow> attempt_info" where
  "AttemptFromContext ctx =
     (let v = (case cAttempt ctx of None \<Rightarrow> zero_attempt | Some v \<Rightarrow> v) in if aiNumber v = 0 then v\<lparr>aiNumber := 1\<rparr> else v)"

definition WithAttempt :: "reqctx \<Rightarrow> attempt_info \<Rightarrow> reqctx" where
  "WithAttempt ctx info = ctx\<lparr>cAttempt := Some info\<rparr>"

record access_entry =
  leLevel :: string
  leRoute :: string
  leRequestID :: string
  leMethod :: string
  leHost :: string
  lePath :: string
  leStatus :: int
  leDurationMs :: int
  leBytesOut :: int
  leClientIP :: string
  leUpstream :: "uid option"

record bucket =
  bkTokens :: float64
  bkLastFill :: time

record bucket_map =
  bmRPS :: float64
  bmBurst :: float64
  bmBuckets :: "string \<rightharpoonup> bucket"

text \<open>
  What handlers share: the clock, the upstreams, the selectors and the health monitors of the pools
  (by the number of the pool), random draws, the token buckets of each rate limiter, random bytes
  for request ids, and what was logged, counted as a panic and observed by the metrics.
\<close>

record world =
  wClock :: time
  wUpstreams :: heap
  wSelectors :: "nat \<Rightarrow> any_selector"
  wMonitors :: "nat \<Rightarrow> monitor option"
  wDraws :: "nat \<Rightarrow> (nat \<Rightarrow> nat) \<times> nat \<times> nat"
  wDrawn :: nat
  wLimiters :: "nat \<Rightarrow> bucket_map"
  wRandom :: "string list"
  wAccessLog :: "access_entry list"
  wPanics :: "string list"
  wRequests :: "(string \<times> string \<times> int) list"

type_synonym handler = "reqctx \<Rightarrow> http_request \<Rightarrow> world \<Rightarrow> run \<times> world"
type_synonym middleware = "handler \<Rightarrow> handler"

fun Chain_loop :: "middleware list \<Rightarrow> nat \<Rightarrow> handler \<Rightarrow> handler" where
  "Chain_loop mws 0 h = h"
| "Chain_loop mws (Suc i) h = Chain_loop mws i ((mws ! i) h)"

definition Chain :: "middleware list \<Rightarrow> middleware" where
  "Chain mws h = Chain_loop mws (length mws) h"

definition Timeout :: "duration \<Rightarrow> middleware" where
  "Timeout budget h =
     (if budget \<le> 0 then h
      else (\<lambda>ctx r w.
        let d = wClock w + budget
        in h (ctx\<lparr>cDeadline := Some (case cDeadline ctx of None \<Rightarrow> d | Some d' \<Rightarrow> min d d')\<rparr>) r w))"

text \<open>The first middleware of the slice is the outermost.\<close>

lemma Chain_loop_foldr: "n \<le> length mws \<Longrightarrow> Chain_loop mws n h = foldr (\<lambda>m k. m k) (take n mws) h"
  by (induction n arbitrary: h) (simp_all add: take_Suc_conv_app_nth)

lemma Chain_foldr: "Chain mws h = foldr (\<lambda>m k. m k) mws h"
  by (simp add: Chain_def Chain_loop_foldr)

section \<open>Wrappers that only watch\<close>

text \<open>
  The contract of the three wrappers that record without changing the response: they forward every
  call in order, and their record depends on the first commit only. \<open>wrote\<close> and \<open>status\<close> read the
  wrapper's state.
\<close>

fun plain_call :: "wcall \<Rightarrow> bool" where
  "plain_call (WriteHeader c) = (\<not> informational c)"
| "plain_call Flush = False"
| "plain_call _ = True"

locale watcher =
  fixes step :: "wcall \<Rightarrow> 's \<Rightarrow> header \<Rightarrow> 's \<times> wcall list"
    and init :: 's
    and wrote :: "'s \<Rightarrow> bool"
  assumes init_wrote: "\<not> wrote init"
    and forwards: "plain_call c \<Longrightarrow> snd (step c s h) = [c]"
    and wrote_header_calls: "(\<forall>code p. c \<noteq> WriteHeader code \<and> c \<noteq> Write p) \<Longrightarrow> wrote (fst (step c s h)) = wrote s"
    and wrote_commits: "wrote (fst (step (WriteHeader code) s h))" "wrote (fst (step (Write p) s h))"
begin

lemma transparent: "list_all plain_call cs \<Longrightarrow> snd (transduce step cs s h) = cs"
proof (induction cs arbitrary: s h)
  case (Cons c cs)
  then show ?case using forwards [of c s h] by (simp add: case_prod_beta Let_def)
qed simp

lemma wrote_step:
  assumes "plain_call c" and "wrote s \<longleftrightarrow> wCommitted r \<noteq> None"
  shows "wrote (fst (step c s h)) \<longleftrightarrow> wCommitted (base_step c r) \<noteq> None"
  using assms wrote_commits wrote_header_calls [of c s h]
  by (cases c) (auto simp: commit_status_def Let_def)

lemma knows_commit:
  "list_all plain_call cs \<Longrightarrow> (wrote s \<longleftrightarrow> wCommitted r \<noteq> None) \<Longrightarrow>
   wrote (fst (transduce step cs s h)) \<longleftrightarrow> wCommitted (respond cs r) \<noteq> None"
proof (induction cs arbitrary: s r h)
  case (Cons c cs)
  then show ?case using wrote_step [of c s r h] Cons.IH [of "fst (step c s h)" "base_step c r"]
    by (simp add: case_prod_beta Let_def)
qed simp

end

locale recorder = watcher +
  fixes status :: "'a \<Rightarrow> int"
  assumes init_status: "status init = 200"
    and status_header_calls: "(\<forall>code. c \<noteq> WriteHeader code) \<Longrightarrow> status (fst (step c s h)) = status s"
    and status_write_header: "status (fst (step (WriteHeader code) s h)) = (if wrote s then status s else code)"
begin

lemma status_step:
  assumes "plain_call c" and "wrote s \<longleftrightarrow> wCommitted r \<noteq> None" and "status s = status_of r"
  shows "status (fst (step c s h)) = status_of (base_step c r)"
  using assms status_write_header status_header_calls [of c s h]
  by (cases c) (auto simp: commit_status_def status_of_def Let_def split: if_splits)

lemma records_status_from:
  "list_all plain_call cs \<Longrightarrow> (wrote s \<longleftrightarrow> wCommitted r \<noteq> None) \<Longrightarrow> status s = status_of r \<Longrightarrow>
   status (fst (transduce step cs s h)) = status_of (respond cs r)"
proof (induction cs arbitrary: s r h)
  case (Cons c cs)
  then show ?case
    using wrote_step [of c s r h] status_step [of c s r h] Cons.IH [of "fst (step c s h)" "base_step c r"]
    by (simp add: case_prod_beta Let_def)
qed simp

text \<open>What is recorded is the status the client receives.\<close>

lemma records_status:
  "list_all plain_call cs \<Longrightarrow> wCommitted r = None \<Longrightarrow>
   status (fst (transduce step cs init h)) = status_of (respond cs r)"
  by (rule records_status_from) (simp_all add: init_wrote init_status status_of_def)

end

end
