(* ===== verification/RateLimit.thy ===== *)
theory RateLimit
  imports Middleware
begin

text \<open>
  The token-bucket limiter of \<^verbatim>\<open>internal/middleware/ratelimit.go\<close> and the client address functions it
  shares with the header and access-log middlewares. \<^verbatim>\<open>float64\<close> operations are rounded one by one (no
  fused multiply-add). The limiter instances are numbered; a configured middleware owns one.
\<close>

section \<open>Model\<close>

record rate_limit_mw =
  mlScope :: string
  mlRPS :: int
  mlBurst :: int
  mlTrustProxyHops :: int
  mlRouteName :: string

definition clientIP :: "http_request \<Rightarrow> string" where
  "clientIP r = (let addr = rRemoteAddr r in case last_index_char addr (CHR '':'') of Some i \<Rightarrow> take i addr | None \<Rightarrow> addr)"

definition clientIPWithTrust :: "http_request \<Rightarrow> int \<Rightarrow> string" where
  "clientIPWithTrust r hops =
     (let xff = hdr_get (rHeader r) ''X-Forwarded-For''
      in if hops > 0 \<and> xff \<noteq> []
         then let parts = split_on (CHR '','') xff;
                  idx0 = int (length parts) - hops;
                  idx = (if idx0 < 0 then 0 else idx0)
              in if idx < int (length parts) then trim_space (parts ! nat idx) else clientIP r
         else clientIP r)"

definition bucketKey :: "rate_limit_mw \<Rightarrow> http_request \<Rightarrow> string" where
  "bucketKey c r =
     (if mlScope c = ''per-route''
      then ''r:'' @ (if mlRouteName c = [] then ''default'' else mlRouteName c)
      else ''ip:'' @ clientIPWithTrust r (mlTrustProxyHops c))"

definition newBucketMap :: "float64 \<Rightarrow> float64 \<Rightarrow> bucket_map" where
  "newBucketMap rps burst = \<lparr>bmRPS = rps, bmBurst = burst, bmBuckets = Map.empty\<rparr>"

text \<open>\<^verbatim>\<open>Duration.Seconds()\<close>: whole seconds plus the fraction, truncating division.\<close>

definition dur_seconds :: "duration \<Rightarrow> float64" where
  "dur_seconds d =
     fadd (of_integer (sgn d * (\<bar>d\<bar> div second))) (fdiv (of_integer (sgn d * (\<bar>d\<bar> mod second))) (of_integer second))"

text \<open>The conversion of a \<^verbatim>\<open>float64\<close> to an integer truncates towards zero.\<close>

definition trunc :: "float64 \<Rightarrow> int" where
  "trunc x = (if x < 0 then \<lceil>x\<rceil> else \<lfloor>x\<rfloor>)"

definition refill :: "bucket_map \<Rightarrow> time \<Rightarrow> bucket \<Rightarrow> bucket" where
  "refill bm now b =
     (let elapsed = dur_seconds (time_sub now (bkLastFill b))
      in if elapsed > 0
         then let t = fadd (bkTokens b) (fmul elapsed (bmRPS bm))
              in \<lparr>bkTokens = (if t > bmBurst bm then bmBurst bm else t), bkLastFill = now\<rparr>
         else b)"

definition allow :: "string \<Rightarrow> time \<Rightarrow> bucket_map \<Rightarrow> (bool \<times> duration) \<times> bucket_map" where
  "allow key now bm =
     (let b = (case bmBuckets bm key of
                 None \<Rightarrow> \<lparr>bkTokens = bmBurst bm, bkLastFill = now\<rparr>
               | Some b \<Rightarrow> refill bm now b)
      in if bkTokens b \<ge> 1
         then ((True, 0), bm\<lparr>bmBuckets := (bmBuckets bm)(key \<mapsto> b\<lparr>bkTokens := fsub (bkTokens b) 1\<rparr>)\<rparr>)
         else ((False, trunc (fmul (fdiv (fsub 1 (bkTokens b)) (bmRPS bm)) (of_integer second))),
               bm\<lparr>bmBuckets := (bmBuckets bm)(key \<mapsto> b)\<rparr>))"

definition limiter_of :: "rate_limit_mw \<Rightarrow> bucket_map" where
  "limiter_of c = newBucketMap (of_integer (mlRPS c)) (of_integer (if mlBurst c \<le> 0 then mlRPS c else mlBurst c))"

definition retry_after_secs :: "duration \<Rightarrow> int" where
  "retry_after_secs d = trunc (dur_seconds d) + 1"

definition RateLimit :: "nat \<Rightarrow> rate_limit_mw \<Rightarrow> middleware" where
  "RateLimit n c next =
     (if mlRPS c \<le> 0 then next
      else (\<lambda>ctx r w.
        let ((allowed, retryAfter), bm) = allow (bucketKey c r) (wClock w) (wLimiters w n);
            w' = w\<lparr>wLimiters := (wLimiters w)(n := bm)\<rparr>
        in if \<not> allowed
           then (\<lparr>rnCalls = [HSet ''Retry-After'' (itoa (retry_after_secs retryAfter)), HSet ''X-RateLimit-Remaining'' ''0'']
                    @ http_Error ''rate limit exceeded'' 429,
                  rnEnding = Returned, rnChosen = None, rnErr = None\<rparr>, w')
           else next ctx r w'))"

section \<open>Invariant\<close>

definition bucket_ok :: "bucket_map \<Rightarrow> bucket \<Rightarrow> bool" where
  "bucket_ok bm b \<longleftrightarrow> 0 \<le> bkTokens b \<and> bkTokens b \<le> bmBurst bm \<and> rnd (bkTokens b) = bkTokens b"

definition limiter_ok :: "bucket_map \<Rightarrow> bool" where
  "limiter_ok bm \<longleftrightarrow> 1 \<le> bmRPS bm \<and> 1 \<le> bmBurst bm \<and> rnd (bmBurst bm) = bmBurst bm \<and>
     (\<forall>b \<in> ran (bmBuckets bm). bucket_ok bm b)"

lemma limiter_of_ok:
  assumes "0 < mlRPS c"
  shows "limiter_ok (limiter_of c)"
proof -
  have "1 \<le> of_integer n" if "0 < n" for n :: int using that rnd_mono [of 1 "of_int n"] by simp
  then show ?thesis using assms by (simp add: limiter_ok_def limiter_of_def newBucketMap_def rnd_idem)
qed

lemma refill_ok:
  assumes "limiter_ok bm" and "bucket_ok bm b"
  shows "bucket_ok bm (refill bm now b)"
proof (cases "dur_seconds (time_sub now (bkLastFill b)) > 0")
  case True
  let ?t = "fadd (bkTokens b) (fmul (dur_seconds (time_sub now (bkLastFill b))) (bmRPS bm))"
  have "0 \<le> ?t" using True assms by (intro rnd_nonneg add_nonneg_nonneg) (auto simp: limiter_ok_def bucket_ok_def intro: rnd_nonneg)
  then show ?thesis using True assms by (simp add: refill_def Let_def bucket_ok_def limiter_ok_def rnd_idem)
qed (use assms in \<open>simp add: refill_def Let_def\<close>)

lemma ran_upd: "b \<in> ran (m(k \<mapsto> v)) \<Longrightarrow> b = v \<or> b \<in> ran m"
  by (auto simp: ran_def split: if_splits)

lemma allow_ok:
  assumes "limiter_ok bm"
  shows "limiter_ok (snd (allow key now bm))"
proof -
  define b where "b = (case bmBuckets bm key of None \<Rightarrow> \<lparr>bkTokens = bmBurst bm, bkLastFill = now\<rparr> | Some b \<Rightarrow> refill bm now b)"
  have b: "bucket_ok bm b"
    using assms refill_ok [OF assms] by (auto simp: b_def limiter_ok_def bucket_ok_def [where b = "\<lparr>bkTokens = _, bkLastFill = _\<rparr>"] intro: ranI split: option.split)
  have take: "bucket_ok bm (b\<lparr>bkTokens := fsub (bkTokens b) 1\<rparr>)" if "1 \<le> bkTokens b"
    using b that rnd_mono [of "bkTokens b - 1" "bkTokens b"] by (auto simp: bucket_ok_def rnd_idem intro: rnd_nonneg)
  have "\<exists>b'. bucket_ok bm b' \<and> snd (allow key now bm) = bm\<lparr>bmBuckets := (bmBuckets bm)(key \<mapsto> b')\<rparr>"
    using b take unfolding allow_def Let_def b_def [symmetric] by (cases "1 \<le> bkTokens b") auto
  then obtain b' where b': "bucket_ok bm b'" "snd (allow key now bm) = bm\<lparr>bmBuckets := (bmBuckets bm)(key \<mapsto> b')\<rparr>" by blast
  then show ?thesis using assms by (auto simp: limiter_ok_def bucket_ok_def dest!: ran_upd)
qed

section \<open>Properties\<close>

text \<open>
  (C24) The token count is a bounded resource: after any sequence of requests by any clients, with
  the clock moving in any way, every bucket holds between 0 and \<^verbatim>\<open>burst\<close> tokens.
\<close>

theorem token_bucket_bounded:
  assumes "0 < mlRPS c" and "bmBuckets (fold (\<lambda>(k, t) bm. snd (allow k t bm)) calls (limiter_of c)) key = Some b"
  shows "0 \<le> bkTokens b \<and> bkTokens b \<le> of_integer (if mlBurst c \<le> 0 then mlRPS c else mlBurst c)"
proof -
  have burst: "bmBurst (snd (allow k t bm)) = bmBurst bm" for k t bm by (simp add: allow_def Let_def)
  have "limiter_ok (fold (\<lambda>(k, t) bm. snd (allow k t bm)) calls bm) \<and>
      bmBurst (fold (\<lambda>(k, t) bm. snd (allow k t bm)) calls bm) = bmBurst bm" if "limiter_ok bm" for bm
    using that by (induction calls arbitrary: bm) (auto simp: allow_ok burst)
  note ok = this [OF limiter_of_ok [OF assms(1)]]
  have "b \<in> ran (bmBuckets (fold (\<lambda>(k, t) bm. snd (allow k t bm)) calls (limiter_of c)))" by (rule ranI) (rule assms(2))
  with ok have "0 \<le> bkTokens b \<and> bkTokens b \<le> bmBurst (limiter_of c)" unfolding limiter_ok_def bucket_ok_def by fastforce
  then show ?thesis by (simp add: limiter_of_def newBucketMap_def)
qed

definition sample_limit :: rate_limit_mw where
  "sample_limit = \<lparr>mlScope = [], mlRPS = 1, mlBurst = 2, mlTrustProxyHops = 1, mlRouteName = ''r''\<rparr>"

theorem token_bucket_bounded_witness:
  "\<exists>b. bmBuckets (fold (\<lambda>(k, t) bm. snd (allow k t bm)) [(''a'', 5), (''a'', 7)] (limiter_of sample_limit)) ''a'' = Some b \<and> 0 \<le> bkTokens b"
proof -
  have "bmBuckets (snd (allow k t bm)) k \<noteq> None" for k t bm by (simp add: allow_def Let_def)
  then obtain b where b: "bmBuckets (fold (\<lambda>(k, t) bm. snd (allow k t bm)) [(''a'', 5), (''a'', 7)] (limiter_of sample_limit)) ''a'' = Some b"
    by fastforce
  with token_bucket_bounded [OF _ b] show ?thesis by (simp add: sample_limit_def)
qed

fun allow_seq :: "string \<Rightarrow> time list \<Rightarrow> bucket_map \<Rightarrow> bool list" where
  "allow_seq key [] bm = []"
| "allow_seq key (t # ts) bm = (let (r, bm') = allow key t bm in fst r # allow_seq key ts bm')"

lemma rnd_nonpos: "x \<le> 0 \<Longrightarrow> rnd x \<le> 0"
  using rnd_mono [of x 0] by simp

lemma dur_seconds_nonpos:
  assumes "d \<le> 0"
  shows "dur_seconds d \<le> 0"
proof -
  have part: "of_integer (sgn d * k) \<le> 0" if "0 \<le> k" for k
  proof (rule rnd_nonpos)
    have "sgn d * k \<le> 0" using assms that by (auto simp: sgn_if)
    then show "(of_int (sgn d * k) :: rat) \<le> 0" by (simp only: of_int_le_0_iff)
  qed
  have "of_integer (sgn d * (\<bar>d\<bar> mod second)) / of_integer second \<le> 0"
    by (rule divide_nonpos_nonneg) (auto intro: part rnd_nonneg simp del: of_int_mult)
  then have "fdiv (of_integer (sgn d * (\<bar>d\<bar> mod second))) (of_integer second) \<le> 0" by (rule rnd_nonpos)
  moreover have "of_integer (sgn d * (\<bar>d\<bar> div second)) \<le> 0" by (rule part) simp
  ultimately have "of_integer (sgn d * (\<bar>d\<bar> div second)) + fdiv (of_integer (sgn d * (\<bar>d\<bar> mod second))) (of_integer second) \<le> 0"
    by (rule add_nonpos_nonpos [rotated])
  then show ?thesis unfolding dur_seconds_def by (rule rnd_nonpos)
qed

lemma allow_same_instant:
  assumes "bmBuckets bm key = Some \<lparr>bkTokens = of_int k, bkLastFill = t0\<rparr>" and "t \<le> t0" and "0 \<le> k" and "k < 2 ^ 53"
  shows "fst (fst (allow key t bm)) \<longleftrightarrow> 1 \<le> k"
    and "bmBuckets (snd (allow key t bm)) key = Some \<lparr>bkTokens = of_int (if 1 \<le> k then k - 1 else k), bkLastFill = t0\<rparr>"
proof -
  have "time_sub t t0 \<le> 0" using assms(2) by (simp add: time_sub_def sat64_def)
  then have "refill bm t \<lparr>bkTokens = of_int k, bkLastFill = t0\<rparr> = \<lparr>bkTokens = of_int k, bkLastFill = t0\<rparr>"
    using dur_seconds_nonpos [of "time_sub t t0"] by (simp add: refill_def Let_def)
  moreover have "fsub (of_int k) 1 = of_int (k - 1)" if "1 \<le> k"
    using that assms(4) rnd_of_int [of "k - 1"] by simp
  moreover have "(1 :: rat) \<le> of_int k \<longleftrightarrow> 1 \<le> k" by linarith
  ultimately show "fst (fst (allow key t bm)) \<longleftrightarrow> 1 \<le> k"
    and "bmBuckets (snd (allow key t bm)) key = Some \<lparr>bkTokens = of_int (if 1 \<le> k then k - 1 else k), bkLastFill = t0\<rparr>"
    using assms(1) by (simp_all add: allow_def Let_def)
qed

lemma allow_seq_same_instant:
  "bmBuckets bm key = Some \<lparr>bkTokens = of_int (int k), bkLastFill = t0\<rparr> \<Longrightarrow> \<forall>t \<in> set ts. t \<le> t0 \<Longrightarrow> int k < 2 ^ 53 \<Longrightarrow>
   allow_seq key ts bm = replicate (min (length ts) k) True @ replicate (length ts - k) False"
proof (induction ts arbitrary: k bm)
  case (Cons t ts)
  note a = allow_same_instant [OF Cons.prems(1), of t]
  obtain res bm' where al: "allow key t bm = (res, bm')" by fastforce
  have "fst res = (1 \<le> k)" using a(1) Cons.prems(2,3) al by simp
  moreover have "bmBuckets bm' key = Some \<lparr>bkTokens = of_int (int (k - 1)), bkLastFill = t0\<rparr>"
    using a(2) Cons.prems(2,3) al by (cases k) simp_all
  then have "allow_seq key ts bm' = replicate (min (length ts) (k - 1)) True @ replicate (length ts - (k - 1)) False"
    using Cons.IH [of bm' "k - 1"] Cons.prems(2,3) by simp
  ultimately show ?case using al by (cases k) simp_all
qed simp

text \<open>
  Bursts are exact: of the requests that arrive with one key before the clock moves on, a fresh
  client is granted exactly \<^verbatim>\<open>burst\<close> (\<^verbatim>\<open>rps\<close> when not configured) and refused the rest. A clock that steps
  back grants nothing extra.
\<close>

theorem rate_limit_burst_exact:
  assumes "0 < mlRPS c" and "burst = (if mlBurst c \<le> 0 then mlRPS c else mlBurst c)" and "burst < 2 ^ 53"
    and "ts = t0 # ts'" and "\<forall>t \<in> set ts'. t \<le> t0"
  shows "allow_seq key ts (limiter_of c) = replicate (min (length ts) (nat burst)) True @ replicate (length ts - nat burst) False"
proof -
  have b: "1 \<le> burst" using assms(1,2) by (simp split: if_splits)
  have B: "bmBurst (limiter_of c) = of_int burst" "bmBuckets (limiter_of c) = Map.empty"
    using assms(2,3) b by (simp_all add: limiter_of_def newBucketMap_def rnd_of_int)
  obtain res bm' where al: "allow key t0 (limiter_of c) = (res, bm')" by fastforce
  have "(1 :: rat) \<le> of_int burst" using b by linarith
  moreover have "fsub (of_int burst) 1 = of_int (burst - 1)" using rnd_of_int [of "burst - 1"] b assms(3) by simp
  ultimately have res: "fst res" "bmBuckets bm' key = Some \<lparr>bkTokens = of_int (int (nat burst - 1)), bkLastFill = t0\<rparr>"
    using al b unfolding allow_def Let_def B by (auto simp: of_nat_diff)
  have "allow_seq key ts' bm' = replicate (min (length ts') (nat burst - 1)) True @ replicate (length ts' - (nat burst - 1)) False"
    by (rule allow_seq_same_instant [OF res(2) assms(5)]) (use assms(3) b in linarith)
  moreover obtain m where "nat burst = Suc m" using b by (cases "nat burst") simp_all
  ultimately show ?thesis using assms(4) al res(1) by simp
qed

theorem rate_limit_burst_exact_witness:
  "allow_seq ''ip:a'' [9, 9, 8] (limiter_of sample_limit) = [True, True, False]"
proof -
  have "allow_seq ''ip:a'' [9, 9, 8] (limiter_of sample_limit) =
      replicate (min (length [9, 9, 8 :: int]) (nat 2)) True @ replicate (length [9, 9, 8 :: int] - nat 2) False"
    by (rule rate_limit_burst_exact [where ?t0.0 = 9 and ts' = "[9, 8]"]) (simp_all add: sample_limit_def)
  also have "\<dots> = [True, True, False]" by (simp add: numeral_2_eq_2)
  finally show ?thesis .
qed

text \<open>
  (C25) \<^verbatim>\<open>Retry-After\<close> is honest: a refused client is told to wait one or two seconds, and a client that
  waits that long is admitted at its next request (unless others used the key meanwhile).
\<close>

theorem retry_after_suffices:
  assumes "limiter_ok bm" and "bmBuckets bm key = Some b" and "bkLastFill b \<le> now"
    and "allow key now bm = ((False, d), bm')" and "now + retry_after_secs d * second \<le> now'"
  shows "retry_after_secs d \<in> {1, 2} \<and> fst (fst (allow key now' bm'))"
proof -
  define b1 where "b1 = refill bm now b"
  have b1: "bucket_ok bm b1" using refill_ok [OF assms(1)] assms(1,2) by (auto simp: b1_def limiter_ok_def intro: ranI)
  have last: "bkLastFill b1 \<le> now" using assms(3) by (simp add: b1_def refill_def Let_def)
  have den: "bkTokens b1 < 1" "d = trunc (fmul (fdiv (fsub 1 (bkTokens b1)) (bmRPS bm)) (of_integer second))"
    "bm' = bm\<lparr>bmBuckets := (bmBuckets bm)(key \<mapsto> b1)\<rparr>"
    using assms(2,4) by (auto simp: allow_def Let_def b1_def split: if_splits)
  have rps: "1 \<le> bmRPS bm" using assms(1) by (simp add: limiter_ok_def)
  have sec: "of_integer second = of_int second" by (rule rnd_of_int) simp
  define x where "x = fdiv (fsub 1 (bkTokens b1)) (bmRPS bm)"
  have n: "0 \<le> fsub 1 (bkTokens b1)" "fsub 1 (bkTokens b1) \<le> 1"
    using fl.unit [of "1 - bkTokens b1"] b1 den(1) by (auto simp: bucket_ok_def)
  then have x: "0 \<le> x" "x \<le> 1" using fl.unit [of "fsub 1 (bkTokens b1) / bmRPS bm"] rps by (auto simp: x_def divide_le_eq)
  have "0 \<le> fmul x (of_integer second)" "fmul x (of_integer second) \<le> of_int second"
    using rnd_mono [of "x * of_int second" "of_int second"] x unfolding sec by (auto intro: rnd_nonneg simp: sec)
  then have d: "0 \<le> d" "d \<le> second" using den(2) unfolding x_def [symmetric] trunc_def by (auto simp: floor_le_iff)
  have "0 \<le> dur_seconds d \<and> dur_seconds d \<le> 1"
  proof (cases "d = second")
    case False
    then have "dur_seconds d = fdiv (of_int d) (of_int second)" using d sec
      by (auto simp: dur_seconds_def sgn_if rnd_idem rnd_of_int)
    moreover have "(0 :: rat) \<le> of_int d / of_int second \<and> of_int d / of_int second \<le> (1 :: rat)" using d by auto
    ultimately show ?thesis using fl.unit by simp
  qed (simp add: dur_seconds_def)
  then have r: "retry_after_secs d \<in> {1, 2}" unfolding retry_after_secs_def trunc_def
    by (cases "dur_seconds d = 1") (auto simp: floor_eq_iff)
  define e where "e = time_sub now' (bkLastFill b1)"
  have e: "second \<le> e" using assms(5) r last by (auto simp: e_def time_sub_def sat64_def)
  have whole: "(1 :: rat) \<le> of_integer (e div second)" using rnd_mono [of 1 "of_int (e div second)"] e by simp
  moreover have "0 \<le> fdiv (of_integer (e mod second)) (of_integer second)"
    unfolding sec by (intro rnd_nonneg divide_nonneg_nonneg) (auto intro: rnd_nonneg)
  ultimately have el: "1 \<le> dur_seconds e"
    using rnd_mono [of 1 "of_integer (e div second) + fdiv (of_integer (e mod second)) (of_integer second)"] e
    by (simp add: dur_seconds_def sgn_if)
  then have "1 \<le> fmul (dur_seconds e) (bmRPS bm)" using rnd_mono [of 1 "dur_seconds e * bmRPS bm"] rps mult_mono [of 1 "dur_seconds e" 1 "bmRPS bm"] by simp
  then have "1 \<le> fadd (bkTokens b1) (fmul (dur_seconds e) (bmRPS bm))"
    using rnd_mono [of 1 "bkTokens b1 + fmul (dur_seconds e) (bmRPS bm)"] b1 by (simp add: bucket_ok_def)
  moreover have "1 \<le> bmBurst bm" using assms(1) by (simp add: limiter_ok_def)
  ultimately have "1 \<le> bkTokens (refill bm' now' b1)" using el by (simp add: refill_def Let_def den(3) e_def [symmetric])
  then show ?thesis using r by (simp add: allow_def Let_def den(3))
qed

theorem retry_after_suffices_witness:
  "\<exists>bm d bm'. allow ''k'' 0 bm = ((False, d), bm') \<and> fst (fst (allow ''k'' (3 * second) bm'))"
proof -
  let ?bm = "(limiter_of sample_limit)\<lparr>bmBuckets := [''k'' \<mapsto> \<lparr>bkTokens = 0, bkLastFill = 0\<rparr>]\<rparr>"
  have ok: "limiter_ok ?bm"
    using limiter_of_ok [of sample_limit] by (simp add: limiter_ok_def bucket_ok_def sample_limit_def)
  have b: "bmBuckets ?bm ''k'' = Some \<lparr>bkTokens = 0, bkLastFill = 0\<rparr>" by simp
  have "refill ?bm 0 \<lparr>bkTokens = 0, bkLastFill = 0\<rparr> = \<lparr>bkTokens = 0, bkLastFill = 0\<rparr>"
    using dur_seconds_nonpos [of 0] by (simp add: refill_def Let_def time_sub_def sat64_def)
  then have "\<not> fst (fst (allow ''k'' 0 ?bm))" by (simp add: allow_def Let_def)
  then obtain d bm' where a: "allow ''k'' 0 ?bm = ((False, d), bm')" by (cases "allow ''k'' 0 ?bm") auto
  have two: "retry_after_secs d \<in> {1, 2}"
    using retry_after_suffices [OF ok b _ a, of "retry_after_secs d * second"] by simp
  then have "retry_after_secs d * second \<le> 3 * second" by auto
  then have "fst (fst (allow ''k'' (3 * second) bm'))" using retry_after_suffices [OF ok b _ a, of "3 * second"] by simp
  with a show ?thesis by blast
qed

text \<open>
  Trusted hops: when the configured number of trusted proxies have each appended one address to
  \<^verbatim>\<open>X-Forwarded-For\<close>, the client is identified by the address the outermost trusted proxy appended,
  whatever a client put in the header before them.
\<close>

theorem forwarded_for_not_spoofable:
  assumes "hdr_get (rHeader r) ''X-Forwarded-For'' = forged @ '','' @ join '','' es"
    and "es \<noteq> []" and "\<forall>e \<in> set es. CHR '','' \<notin> set e" and "hops = int (length es)"
  shows "clientIPWithTrust r hops = trim_space (hd es)"
proof -
  let ?pre = "split_on (CHR '','') forged"
  have parts: "split_on (CHR '','') (hdr_get (rHeader r) ''X-Forwarded-For'') = ?pre @ es"
    using split_on_append [of "CHR '',''" forged "join '','' es"] split_on_join [OF assms(2,3)] by (simp add: assms(1))
  have "(?pre @ es) ! nat (int (length (?pre @ es)) - hops) = hd es"
    using assms(2,4) by (simp add: nth_append hd_conv_nth)
  moreover have "0 < length es" using assms(2) by simp
  ultimately show ?thesis using assms(1,4) parts by (simp add: clientIPWithTrust_def Let_def)
qed

theorem forwarded_for_not_spoofable_witness:
  "clientIPWithTrust (sample_request [(''X-Forwarded-For'', [''1.1.1.1, 9.9.9.9'' @ '','' @ '' 10.0.0.7''])]) 1 = ''10.0.0.7''"
proof -
  let ?r = "sample_request [(''X-Forwarded-For'', [''1.1.1.1, 9.9.9.9'' @ '','' @ '' 10.0.0.7''])]"
  have "hdr_get (rHeader ?r) ''X-Forwarded-For'' = ''1.1.1.1, 9.9.9.9'' @ '','' @ join '','' ['' 10.0.0.7'']"
    by code_simp
  from forwarded_for_not_spoofable [OF this] have "clientIPWithTrust ?r 1 = trim_space '' 10.0.0.7''" by simp
  also have "\<dots> = ''10.0.0.7''" by code_simp
  finally show ?thesis .
qed

end
