(* ===== verification/Observe.thy ===== *)
theory Observe
  imports RateLimit Sha256
begin

text \<open>
  The universal middlewares: \<^verbatim>\<open>requestid.go\<close>, \<^verbatim>\<open>accesslog.go\<close> and \<^verbatim>\<open>panic.go\<close> of \<^verbatim>\<open>internal/middleware\<close>, and the
  \<^verbatim>\<open>observingHandler\<close> with its \<^verbatim>\<open>statusWriter\<close> of \<^verbatim>\<open>cmd/l7rp/main.go\<close>. The three response-writer wrappers
  interpret the locales \<open>watcher\<close> and \<open>recorder\<close>. None of the wrappers implements \<^verbatim>\<open>http.Flusher\<close> or
  \<^verbatim>\<open>http.Hijacker\<close>, so the handlers inside see neither. Logging goes to \<open>wAccessLog\<close>, the panic counter
  to \<open>wPanics\<close>, the request metrics to \<open>wRequests\<close>; the stack trace of a recovered panic is not modelled.
\<close>

section \<open>Request identifiers\<close>

definition byte_bits :: "char \<Rightarrow> bool list" where
  "byte_bits c = map (\<lambda>i. odd (code_of c div 2 ^ i)) [7, 6, 5, 4, 3, 2, 1, 0]"

definition bits_value :: "bool list \<Rightarrow> nat" where
  "bits_value bs = foldl (\<lambda>n b. 2 * n + (if b then 1 else 0)) 0 bs"

definition base32_alphabet :: string where
  "base32_alphabet = ''ABCDEFGHIJKLMNOPQRSTUVWXYZ234567''"

definition base32_group :: "bool list \<Rightarrow> char" where
  "base32_group g = base32_alphabet ! bits_value (g @ replicate (5 - length g) False)"

definition base32_nopad :: "string \<Rightarrow> string" where
  "base32_nopad bs = map base32_group (chunks 5 (concat (map byte_bits bs)))"

text \<open>The argument is the eight bytes that \<^verbatim>\<open>rand.Read\<close> delivered.\<close>

definition newRequestID :: "string \<Rightarrow> string" where
  "newRequestID b = base32_nopad b"

definition RequestID :: middleware where
  "RequestID h =
     (\<lambda>ctx r w.
       let given = hdr_get (rHeader r) ''X-Request-ID'';
           (id, w1) = (if given = [] then (newRequestID (hd (wRandom w)), w\<lparr>wRandom := tl (wRandom w)\<rparr>) else (given, w));
           (rn, w2) = h (ctx\<lparr>cRequestID := id, cHeader := hdr_set (cHeader ctx) ''X-Request-ID'' id\<rparr>) r w1
       in (rn\<lparr>rnCalls := HSet ''X-Request-ID'' id # rnCalls rn\<rparr>, w2))"

definition RequestIDFromContext :: "reqctx \<Rightarrow> string" where
  "RequestIDFromContext ctx = cRequestID ctx"

section \<open>Access log\<close>

record access_recorder =
  arStatus :: int
  arBytes :: int
  arWroteHeader :: bool

fun access_step :: "wcall \<Rightarrow> access_recorder \<Rightarrow> header \<Rightarrow> access_recorder \<times> wcall list" where
  "access_step (WriteHeader c) a h =
     ((if \<not> arWroteHeader a then a\<lparr>arStatus := c, arWroteHeader := True\<rparr> else a), [WriteHeader c])"
| "access_step (Write p) a h =
     (let a' = (if \<not> arWroteHeader a then a\<lparr>arWroteHeader := True\<rparr> else a)
      in (a'\<lparr>arBytes := arBytes a' + int (length p)\<rparr>, [Write p]))"
| "access_step Flush a h = (a, [])"
| "access_step c a h = (a, [c])"

definition new_access_recorder :: access_recorder where
  "new_access_recorder = \<lparr>arStatus = 200, arBytes = 0, arWroteHeader = False\<rparr>"

definition log_level :: "int \<Rightarrow> string" where
  "log_level status = (if status \<ge> 500 then ''ERROR'' else if status \<ge> 400 then ''WARN'' else ''INFO'')"

definition AccessLog :: "string \<Rightarrow> middleware" where
  "AccessLog routeName h =
     (\<lambda>ctx r w.
       let start = wClock w;
           (rn, w') = h (ctx\<lparr>cFlusher := False, cHijacker := False\<rparr>) r w;
           (a, out) = transduce access_step (rnCalls rn) new_access_recorder (cHeader ctx);
           rn' = rn\<lparr>rnCalls := out\<rparr>;
           entry = \<lparr>leLevel = log_level (arStatus a), leRoute = routeName, leRequestID = RequestIDFromContext ctx,
             leMethod = rMethod r, leHost = rHost r, lePath = rPath r, leStatus = arStatus a,
             leDurationMs = (wClock w' - start) div 1000000, leBytesOut = arBytes a, leClientIP = clientIP r,
             leUpstream = (if cHasOutcome ctx then rnChosen rn else None)\<rparr>
       in case rnEnding rn of
            Panicked v \<Rightarrow> (rn', w')
          | Returned \<Rightarrow> (rn', w'\<lparr>wAccessLog := wAccessLog w' @ [entry]\<rparr>))"

section \<open>Panic recovery\<close>

fun tracker_step :: "wcall \<Rightarrow> bool \<Rightarrow> header \<Rightarrow> bool \<times> wcall list" where
  "tracker_step (WriteHeader c) wroteHeader h = (True, [WriteHeader c])"
| "tracker_step (Write p) wroteHeader h = (True, [Write p])"
| "tracker_step Flush wroteHeader h = (wroteHeader, [])"
| "tracker_step c wroteHeader h = (wroteHeader, [c])"

definition PanicRecover :: middleware where
  "PanicRecover h =
     (\<lambda>ctx r w.
       let (rn, w') = h (ctx\<lparr>cFlusher := False, cHijacker := False\<rparr>) r w;
           (wroteHeader, out) = transduce tracker_step (rnCalls rn) False (cHeader ctx)
       in case rnEnding rn of
            Returned \<Rightarrow> (rn\<lparr>rnCalls := out\<rparr>, w')
          | Panicked v \<Rightarrow>
              let location = (if wroteHeader then ''middleware-chain-post-header'' else ''middleware-chain'');
                  after = (if \<not> wroteHeader then http_Error ''internal server error'' 500 else [])
              in (rn\<lparr>rnCalls := out @ after, rnEnding := Returned\<rparr>, w'\<lparr>wPanics := wPanics w' @ [location]\<rparr>))"

section \<open>Request metrics\<close>

record status_writer =
  swStatus :: int
  swWroteHeader :: bool

fun status_step :: "wcall \<Rightarrow> status_writer \<Rightarrow> header \<Rightarrow> status_writer \<times> wcall list" where
  "status_step (WriteHeader c) s h =
     ((if \<not> swWroteHeader s then s\<lparr>swStatus := c, swWroteHeader := True\<rparr> else s), [WriteHeader c])"
| "status_step (Write p) s h = ((if \<not> swWroteHeader s then s\<lparr>swWroteHeader := True\<rparr> else s), [Write p])"
| "status_step Flush s h = (s, [])"
| "status_step c s h = (s, [c])"

definition observingHandler :: "string \<Rightarrow> handler \<Rightarrow> handler" where
  "observingHandler route h =
     (\<lambda>ctx r w.
       let (rn, w') = h (ctx\<lparr>cFlusher := False, cHijacker := False\<rparr>) r w;
           (s, out) = transduce status_step (rnCalls rn) \<lparr>swStatus = 200, swWroteHeader = False\<rparr> (cHeader ctx);
           rn' = rn\<lparr>rnCalls := out\<rparr>
       in case rnEnding rn of
            Panicked v \<Rightarrow> (rn', w')
          | Returned \<Rightarrow> (rn', w'\<lparr>wRequests := wRequests w' @ [(route, rMethod r, swStatus s)]\<rparr>))"

section \<open>The wrappers keep their contracts\<close>

interpretation access: recorder access_step new_access_recorder arWroteHeader arStatus
proof unfold_locales
  show "plain_call c \<Longrightarrow> snd (access_step c s h) = [c]" for c s h by (cases c) (simp_all add: Let_def)
  show "(\<forall>code p. c \<noteq> WriteHeader code \<and> c \<noteq> Write p) \<Longrightarrow> arWroteHeader (fst (access_step c s h)) = arWroteHeader s" for c s h
    by (cases c) simp_all
  show "(\<forall>code. c \<noteq> WriteHeader code) \<Longrightarrow> arStatus (fst (access_step c s h)) = arStatus s" for c s h
    by (cases c) (simp_all add: Let_def)
qed (simp_all add: new_access_recorder_def Let_def)

interpretation tracker: watcher tracker_step False "\<lambda>b. b"
proof unfold_locales
  show "plain_call c \<Longrightarrow> snd (tracker_step c s h) = [c]" for c s h by (cases c) simp_all
  show "(\<forall>code p. c \<noteq> WriteHeader code \<and> c \<noteq> Write p) \<Longrightarrow> fst (tracker_step c s h) = s" for c s h
    by (cases c) simp_all
qed simp_all

interpretation statusw: recorder status_step "\<lparr>swStatus = 200, swWroteHeader = False\<rparr>" swWroteHeader swStatus
proof unfold_locales
  show "plain_call c \<Longrightarrow> snd (status_step c s h) = [c]" for c s h by (cases c) simp_all
  show "(\<forall>code p. c \<noteq> WriteHeader code \<and> c \<noteq> Write p) \<Longrightarrow> swWroteHeader (fst (status_step c s h)) = swWroteHeader s" for c s h
    by (cases c) simp_all
  show "(\<forall>code. c \<noteq> WriteHeader code) \<Longrightarrow> swStatus (fst (status_step c s h)) = swStatus s" for c s h
    by (cases c) simp_all
qed simp_all

text \<open>A handler that only makes calls the wrappers forward and leaves the records alone.\<close>

definition plain_handler :: "handler \<Rightarrow> bool" where
  "plain_handler h \<longleftrightarrow> (\<forall>ctx r w. list_all plain_call (rnCalls (fst (h ctx r w))) \<and>
     wAccessLog (snd (h ctx r w)) = wAccessLog w \<and> wPanics (snd (h ctx r w)) = wPanics w)"

lemma plain_http_Error: "\<not> informational code \<Longrightarrow> list_all plain_call (http_Error msg code)"
  by (simp add: http_Error_def)

lemma PanicRecover_run:
  assumes "plain_handler h" and "h (ctx\<lparr>cFlusher := False, cHijacker := False\<rparr>) r w = (rn, w1)"
    and "PanicRecover h ctx r w = (rn', w')" and "wCommitted r0 = None"
  shows "rnEnding rn' = Returned \<and> list_all plain_call (rnCalls rn') \<and>
    (rnEnding rn = Returned \<longrightarrow> rnCalls rn' = rnCalls rn \<and> w' = w1) \<and>
    (\<forall>v. rnEnding rn = Panicked v \<longrightarrow>
      rnCalls rn' = rnCalls rn @ (if wCommitted (respond (rnCalls rn) r0) = None then http_Error ''internal server error'' 500 else []) \<and>
      wPanics w' = wPanics w1 @ [if wCommitted (respond (rnCalls rn) r0) = None then ''middleware-chain'' else ''middleware-chain-post-header''] \<and>
      wAccessLog w' = wAccessLog w1)"
proof -
  have p: "list_all plain_call (rnCalls rn)" using assms(1,2) unfolding plain_handler_def by (metis fst_conv)
  obtain wr where t: "transduce tracker_step (rnCalls rn) False (cHeader ctx) = (wr, rnCalls rn)"
    using tracker.transparent [OF p, of False "cHeader ctx"] by (cases "transduce tracker_step (rnCalls rn) False (cHeader ctx)") auto
  have wr: "(wCommitted (respond (rnCalls rn) r0) = None) = (\<not> wr)"
    using tracker.knows_commit [OF p, of False r0 "cHeader ctx"] assms(4) t by (metis fst_conv)
  show ?thesis using assms(3) p unfolding PanicRecover_def assms(2) wr
    by (auto simp: t Let_def plain_http_Error informational_def split: ending.splits)
qed

lemma AccessLog_run:
  assumes "AccessLog route h ctx r w = (rn', w')" and "h (ctx\<lparr>cFlusher := False, cHijacker := False\<rparr>) r w = (rn, w1)"
    and "rnEnding rn = Returned" and "list_all plain_call (rnCalls rn)" and "wCommitted r0 = None"
  shows "rnCalls rn' = rnCalls rn \<and> rnEnding rn' = Returned \<and> wPanics w' = wPanics w1 \<and>
    (\<exists>e. wAccessLog w' = wAccessLog w1 @ [e] \<and> leStatus e = status_of (respond (rnCalls rn) r0) \<and>
      leLevel e = log_level (leStatus e) \<and> leRequestID e = cRequestID ctx \<and> leRoute e = route)"
proof -
  obtain a where t: "transduce access_step (rnCalls rn) new_access_recorder (cHeader ctx) = (a, rnCalls rn)"
    using access.transparent [OF assms(4), of new_access_recorder "cHeader ctx"]
    by (cases "transduce access_step (rnCalls rn) new_access_recorder (cHeader ctx)") auto
  have "arStatus a = status_of (respond (rnCalls rn) r0)"
    using access.records_status [OF assms(4,5), of "cHeader ctx"] t by simp
  then show ?thesis using assms(1,3) unfolding AccessLog_def assms(2)
    by (auto simp: t Let_def RequestIDFromContext_def)
qed

section \<open>Properties\<close>

lemma http_Error_status: "wCommitted r = None \<Longrightarrow> \<not> informational code \<Longrightarrow> status_of (respond (http_Error msg code) r) = code"
  by (simp add: http_Error_def commit_status_def status_of_def Let_def)


definition sample_world :: world where
  "sample_world = \<lparr>wClock = 0, wUpstreams = (\<lambda>u. sample_upstream ''a'' 1),
     wSelectors = (\<lambda>_. SelRoundRobin (NewRoundRobin [0])), wMonitors = (\<lambda>_. None), wDraws = (\<lambda>_. (\<lambda>_. 0, 0, 0)), wDrawn = 0,
     wLimiters = (\<lambda>_. newBucketMap 1 1), wRandom = [''12345678''], wAccessLog = [], wPanics = [], wRequests = []\<rparr>"

definition panicking :: handler where
  "panicking ctx r w = (\<lparr>rnCalls = [], rnEnding = Panicked ''boom'', rnChosen = None, rnErr = None\<rparr>, w)"

lemma plain_panicking: "plain_handler panicking"
  by (simp add: plain_handler_def panicking_def)


text \<open>
  In the order that the comment on \<^verbatim>\<open>AccessLog\<close> documents (access log inside panic recovery) a
  request whose handler panics would not be logged at all: the record is written after \<^verbatim>\<open>next.ServeHTTP\<close>
  returns, and a panic skips it.
\<close>

theorem access_log_inside_recovery_loses_panics:
  assumes "plain_handler inner" and "\<And>ctx r w. \<exists>v. rnEnding (fst (inner ctx r w)) = Panicked v"
  shows "wAccessLog (snd (Chain [RequestID, PanicRecover, AccessLog route] inner ctx r w)) = wAccessLog w"
proof -
  have "wAccessLog (snd (AccessLog route inner c r w)) = wAccessLog w \<and> (\<exists>v. rnEnding (fst (AccessLog route inner c r w)) = Panicked v)" for c w
  proof -
    let ?i = "inner (c\<lparr>cFlusher := False, cHijacker := False\<rparr>) r w"
    obtain v where "rnEnding (fst ?i) = Panicked v" using assms(2) by blast
    moreover have "wAccessLog (snd ?i) = wAccessLog w" using assms(1) by (simp add: plain_handler_def)
    ultimately show ?thesis by (simp add: AccessLog_def Let_def case_prod_beta)
  qed
  then have "wAccessLog (snd (PanicRecover (AccessLog route inner) c r w)) = wAccessLog w" for c w
    by (auto simp: PanicRecover_def Let_def case_prod_beta split: ending.split)
  then show ?thesis by (simp add: Chain_foldr RequestID_def Let_def case_prod_beta)
qed

theorem access_log_inside_recovery_loses_panics_witness:
  "wAccessLog (snd (Chain [RequestID, PanicRecover, AccessLog ''r''] panicking background (sample_request []) sample_world)) = []"
  using access_log_inside_recovery_loses_panics [OF plain_panicking, of "''r''" background "sample_request []" sample_world]
  by (simp add: panicking_def sample_world_def)

end
