(* ===== verification/Compress.thy ===== *)
theory Compress
  imports Observe
begin

text \<open>
  The compression middleware of \<^verbatim>\<open>internal/middleware/compress.go\<close>. The encoders are other packages: a codec
  is the state of an encoder with its \<^verbatim>\<open>Write\<close> (the bytes it passes on at once) and \<^verbatim>\<open>Close\<close> (the bytes it
  still owes), and \<open>decodes\<close> is what a client relies on. The encoder pools only save allocations.
  \<^verbatim>\<open>strconv.ParseFloat\<close> is the argument \<open>parse_float\<close>; its results include infinities and NaN.
\<close>

section \<open>Encodings and quality values\<close>

datatype encoding = encodingNone | encodingGzip | encodingZstd | encodingBrotli

fun enc_rank :: "encoding \<Rightarrow> nat" where
  "enc_rank encodingNone = 0"
| "enc_rank encodingGzip = 1"
| "enc_rank encodingZstd = 2"
| "enc_rank encodingBrotli = 3"

lemma enc_rank_inj [simp]: "enc_rank a = enc_rank b \<longleftrightarrow> a = b"
  by (cases a; cases b) simp_all

instantiation encoding :: linorder
begin

definition less_eq_encoding :: "encoding \<Rightarrow> encoding \<Rightarrow> bool" where
  "less_eq_encoding a b \<longleftrightarrow> enc_rank a \<le> enc_rank b"

definition less_encoding :: "encoding \<Rightarrow> encoding \<Rightarrow> bool" where
  "less_encoding a b \<longleftrightarrow> enc_rank a < enc_rank b"

instance
  by standard (auto simp: less_eq_encoding_def less_encoding_def)

end

fun enc_name :: "encoding \<Rightarrow> string" where
  "enc_name encodingGzip = ''gzip''"
| "enc_name encodingZstd = ''zstd''"
| "enc_name encodingBrotli = ''br''"
| "enc_name encodingNone = []"

datatype quality = QNegInf | QNum float64 | QInf | QNaN

fun q_greater :: "quality \<Rightarrow> quality \<Rightarrow> bool" where
  "q_greater (QNum a) (QNum b) = (a > b)"
| "q_greater (QNum a) QNegInf = True"
| "q_greater QInf (QNum b) = True"
| "q_greater QInf QNegInf = True"
| "q_greater _ _ = False"

fun q_equal :: "quality \<Rightarrow> quality \<Rightarrow> bool" where
  "q_equal QNaN _ = False"
| "q_equal _ QNaN = False"
| "q_equal a b = (a = b)"

fun accept_params :: "(string \<Rightarrow> quality option) \<Rightarrow> string list \<Rightarrow> quality \<Rightarrow> quality" where
  "accept_params parse_float [] q = q"
| "accept_params parse_float (p # ps) q =
     (let p' = trim_space p
      in if has_prefix p' ''q=''
         then (case parse_float (trim_prefix p' ''q='') of
                 Some v \<Rightarrow> accept_params parse_float ps v
               | None \<Rightarrow> accept_params parse_float ps q)
         else accept_params parse_float ps q)"

definition parseAcceptEncoding :: "(string \<Rightarrow> quality option) \<Rightarrow> string \<Rightarrow> string \<times> quality" where
  "parseAcceptEncoding parse_float s =
     (let parts = split_on (CHR '';'') s
      in (to_lower (trim_space (hd parts)), accept_params parse_float (tl parts) (QNum 1)))"

definition supported :: "string \<Rightarrow> encoding option" where
  "supported name =
     (if name = ''br'' then Some encodingBrotli
      else if name = ''zstd'' then Some encodingZstd
      else if name = ''gzip'' then Some encodingGzip
      else None)"

fun pick_loop :: "(string \<Rightarrow> quality option) \<Rightarrow> string list \<Rightarrow> encoding \<times> quality \<Rightarrow> encoding \<times> quality" where
  "pick_loop parse_float [] best = best"
| "pick_loop parse_float (part # parts) (best, bestQ) =
     (let (name, q) = parseAcceptEncoding parse_float (trim_space part)
      in if q_equal q (QNum 0) then pick_loop parse_float parts (best, bestQ)
         else case supported name of
                None \<Rightarrow> pick_loop parse_float parts (best, bestQ)
              | Some candidate \<Rightarrow>
                  if q_greater q bestQ \<or> (q_equal q bestQ \<and> candidate > best)
                  then pick_loop parse_float parts (candidate, q)
                  else pick_loop parse_float parts (best, bestQ))"

definition pickEncoding :: "(string \<Rightarrow> quality option) \<Rightarrow> string \<Rightarrow> encoding" where
  "pickEncoding parse_float hdr =
     (if hdr = [] then encodingNone else fst (pick_loop parse_float (split_on (CHR '','') hdr) (encodingNone, QNum (-1))))"

section \<open>Codecs\<close>

record 'z codec =
  zInit :: 'z
  zWrite :: "'z \<Rightarrow> string \<Rightarrow> 'z \<times> string"
  zClose :: "'z \<Rightarrow> string"

inductive zruns :: "'z codec \<Rightarrow> 'z \<Rightarrow> string \<Rightarrow> string \<Rightarrow> bool" for z where
  z_init: "zruns z (zInit z) [] []"
| z_write: "\<lbrakk> zruns z s b e; zWrite z s p = (s', out) \<rbrakk> \<Longrightarrow> zruns z s' (b @ p) (e @ out)"

locale decodable =
  fixes z :: "'z codec" and dec :: "string \<Rightarrow> string"
  assumes decodes: "zruns z s b e \<Longrightarrow> dec (e @ zClose z s) = b"

definition nopWriteCloser :: "unit codec" where
  "nopWriteCloser = \<lparr>zInit = (), zWrite = (\<lambda>_ p. ((), p)), zClose = (\<lambda>_. [])\<rparr>"

interpretation nop: decodable nopWriteCloser "\<lambda>b. b"
proof
  have "zruns nopWriteCloser s b e \<Longrightarrow> e = b" for s b e
    by (induction rule: zruns.induct) (simp_all add: nopWriteCloser_def)
  then show "zruns nopWriteCloser s b e \<Longrightarrow> e @ zClose nopWriteCloser s = b" for s b e by (simp add: nopWriteCloser_def)
qed

section \<open>The compressing writer\<close>

record 'z compressing_writer =
  cwWroteHeader :: bool
  cwCommitted :: bool
  cwCompress :: bool
  cwEncoder :: "'z option"
  cwStatusCode :: int
  cwBuf :: string

record compress_env =
  ceEnc :: encoding
  ceMinBytes :: int
  ceSkipTypes :: "string list"
  ceFlusher :: bool

definition new_compressing_writer :: "'z compressing_writer" where
  "new_compressing_writer = \<lparr>cwWroteHeader = False, cwCommitted = False, cwCompress = False, cwEncoder = None,
     cwStatusCode = 0, cwBuf = []\<rparr>"

definition media_type :: "string \<Rightarrow> string" where
  "media_type ct =
     (let ct' = to_lower ct in if List.member ct' (CHR '';'') then trim_space (takeWhile (\<lambda>c. c \<noteq> CHR '';'') ct') else ct')"

definition shouldCompress :: "compress_env \<Rightarrow> 'z compressing_writer \<Rightarrow> header \<Rightarrow> bool" where
  "shouldCompress env c h =
     (if hdr_get h ''Content-Encoding'' \<noteq> [] then False
      else if cwStatusCode c = 204 \<or> cwStatusCode c = 304 then False
      else if List.member (ceSkipTypes env) (media_type (hdr_get h ''Content-Type'')) then False
      else if length (cwBuf c) > 0 \<and> int (length (cwBuf c)) < ceMinBytes env then False
      else True)"

definition pass_on :: "string \<Rightarrow> wcall list" where
  "pass_on out = (if out = [] then [] else [Write out])"

definition encoder_Write :: "'z codec \<Rightarrow> string \<Rightarrow> 'z compressing_writer \<Rightarrow> 'z compressing_writer \<times> wcall list" where
  "encoder_Write z p c =
     (case cwEncoder c of
        None \<Rightarrow> (c, [])
      | Some s \<Rightarrow> let (s', out) = zWrite z s p in (c\<lparr>cwEncoder := Some s'\<rparr>, pass_on out))"

definition cw_commit :: "'z codec \<Rightarrow> compress_env \<Rightarrow> 'z compressing_writer \<Rightarrow> header \<Rightarrow> 'z compressing_writer \<times> wcall list" where
  "cw_commit z env c0 h =
     (let c1 = c0\<lparr>cwCommitted := True, cwCompress := shouldCompress env c0 h\<rparr>;
          hs = (if cwCompress c1
                then [HSet ''Content-Encoding'' (enc_name (ceEnc env)), HDel ''Content-Length'', HAdd ''Vary'' ''Accept-Encoding'']
                else []);
          c2 = (if cwStatusCode c1 = 0 then c1\<lparr>cwStatusCode := 200\<rparr> else c1);
          hd = hs @ [WriteHeader (cwStatusCode c2)]
      in if \<not> cwCompress c2
         then if cwBuf c2 \<noteq> [] then (c2\<lparr>cwBuf := []\<rparr>, hd @ [Write (cwBuf c2)]) else (c2, hd)
         else let c3 = c2\<lparr>cwEncoder := Some (zInit z)\<rparr>
              in if cwBuf c3 \<noteq> []
                 then let (c4, out) = encoder_Write z (cwBuf c3) c3 in (c4\<lparr>cwBuf := []\<rparr>, hd @ out)
                 else (c3, hd))"

definition cw_WriteHeader :: "int \<Rightarrow> 'z compressing_writer \<Rightarrow> 'z compressing_writer" where
  "cw_WriteHeader code c = (if cwWroteHeader c then c else c\<lparr>cwWroteHeader := True, cwStatusCode := code\<rparr>)"

definition cw_Write :: "'z codec \<Rightarrow> compress_env \<Rightarrow> string \<Rightarrow> 'z compressing_writer \<Rightarrow> header \<Rightarrow> 'z compressing_writer \<times> wcall list" where
  "cw_Write z env p c0 h =
     (let c = (if \<not> cwWroteHeader c0 then cw_WriteHeader 200 c0 else c0)
      in if cwCommitted c
         then if cwCompress c then encoder_Write z p c else (c, [Write p])
         else let c' = c\<lparr>cwBuf := cwBuf c @ p\<rparr>
              in if int (length (cwBuf c')) < ceMinBytes env then (c', []) else cw_commit z env c' h)"

definition cw_Flush :: "'z codec \<Rightarrow> compress_env \<Rightarrow> 'z compressing_writer \<Rightarrow> header \<Rightarrow> 'z compressing_writer \<times> wcall list" where
  "cw_Flush z env c h =
     (let (c', out) = (if \<not> cwCommitted c then cw_commit z env c h else (c, []))
      in (c', out @ (if ceFlusher env then [Flush] else [])))"

definition cw_Close :: "'z codec \<Rightarrow> compress_env \<Rightarrow> 'z compressing_writer \<Rightarrow> header \<Rightarrow> 'z compressing_writer \<times> wcall list" where
  "cw_Close z env c h =
     (let (c', out) = (if \<not> cwCommitted c then cw_commit z env c h else (c, []))
      in case cwEncoder c' of
           None \<Rightarrow> (c', out)
         | Some s \<Rightarrow> (c'\<lparr>cwEncoder := None\<rparr>, out @ pass_on (zClose z s)))"

fun cw_step :: "'z codec \<Rightarrow> compress_env \<Rightarrow> wcall \<Rightarrow> 'z compressing_writer \<Rightarrow> header \<Rightarrow> 'z compressing_writer \<times> wcall list" where
  "cw_step z env (WriteHeader code) c h = (cw_WriteHeader code c, [])"
| "cw_step z env (Write p) c h = cw_Write z env p c h"
| "cw_step z env Flush c h = cw_Flush z env c h"
| "cw_step z env call c h = (c, [call])"

record compress_mw =
  cmMinBytes :: int
  cmSkipContentTypes :: "string list"

definition defaultSkipContentTypes :: "string list" where
  "defaultSkipContentTypes =
     [''image/png'', ''image/jpeg'', ''image/gif'', ''image/webp'', ''image/avif'',
      ''video/mp4'', ''video/webm'', ''audio/mp4'', ''audio/aac'', ''audio/ogg'',
      ''application/zip'', ''application/gzip'', ''application/x-bzip2'',
      ''application/x-7z-compressed'', ''application/x-rar-compressed'', ''application/pdf'', ''application/grpc'']"

definition compress_env_of :: "compress_mw \<Rightarrow> encoding \<Rightarrow> bool \<Rightarrow> compress_env" where
  "compress_env_of ccfg e flusher =
     \<lparr>ceEnc = e, ceMinBytes = (if cmMinBytes ccfg \<le> 0 then 1024 else cmMinBytes ccfg),
      ceSkipTypes = defaultSkipContentTypes @ map (\<lambda>ct. to_lower (trim_space ct)) (cmSkipContentTypes ccfg), ceFlusher = flusher\<rparr>"

definition Compress :: "(string \<Rightarrow> quality option) \<Rightarrow> (encoding \<Rightarrow> 'z codec) \<Rightarrow> compress_mw \<Rightarrow> middleware" where
  "Compress parse_float codecs ccfg h =
     (\<lambda>ctx r w.
       let enc = pickEncoding parse_float (hdr_get (rHeader r) ''Accept-Encoding'')
       in if enc = encodingNone then h ctx r w
          else
            let env = compress_env_of ccfg enc (cFlusher ctx); z = codecs enc;
                (rn, w') = h (ctx\<lparr>cFlusher := True, cHijacker := False\<rparr>) r w;
                (c, out) = transduce (cw_step z env) (rnCalls rn) new_compressing_writer (cHeader ctx);
                (_, out') = cw_Close z env c (fold hcall out (cHeader ctx))
            in (rn\<lparr>rnCalls := out @ out'\<rparr>, w'))"

section \<open>Transparency\<close>

fun ok_call :: "wcall \<Rightarrow> bool" where
  "ok_call (WriteHeader c) = (200 \<le> c)"
| "ok_call _ = True"

definition cw_rel :: "'z codec \<Rightarrow> compress_env \<Rightarrow> 'z compressing_writer \<Rightarrow> response \<Rightarrow> response \<Rightarrow> bool" where
  "cw_rel z env c r r' \<longleftrightarrow>
     (if \<not> cwCommitted c
      then wCommitted r' = None \<and> wBody r' = [] \<and> cwBuf c = wBody r \<and> cwEncoder c = None \<and>
        (wCommitted r \<noteq> None \<longleftrightarrow> cwWroteHeader c) \<and> cwStatusCode c = (if cwWroteHeader c then status_of r else 0) \<and>
        (cwWroteHeader c \<longrightarrow> 200 \<le> status_of r)
      else wCommitted r \<noteq> None \<and> (\<exists>hs. wCommitted r' = Some (status_of r, hs) \<and>
        (if cwCompress c
         then hdr_get hs ''Content-Encoding'' = enc_name (ceEnc env) \<and> (\<exists>s. cwEncoder c = Some s \<and> zruns z s (wBody r) (wBody r'))
         else cwEncoder c = None \<and> wBody r' = wBody r)))"

lemma content_keys:
  "canonical_key ''Content-Encoding'' = ''Content-Encoding''" "canonical_key ''Content-Length'' = ''Content-Length''"
  "canonical_key ''Vary'' = ''Vary''"
  by code_simp+

lemma pass_on_respond: "wCommitted r = Some ch \<Longrightarrow> respond (pass_on out) r = r\<lparr>wBody := wBody r @ out\<rparr>"
  by (simp add: pass_on_def commit_status_def Let_def)

lemma encoder_Write_rel:
  assumes "cw_rel z env c r r'" and "cwCommitted c" and "cwCompress c" and "encoder_Write z p c = (c', out)"
  shows "cw_rel z env c' (r\<lparr>wBody := wBody r @ p\<rparr>) (respond out r')"
proof -
  obtain s hs where s: "cwEncoder c = Some s" "zruns z s (wBody r) (wBody r')" "wCommitted r' = Some (status_of r, hs)"
    "hdr_get hs ''Content-Encoding'' = enc_name (ceEnc env)" "wCommitted r \<noteq> None"
    using assms(1-3) by (auto simp: cw_rel_def)
  obtain s' o' where w: "zWrite z s p = (s', o')" by fastforce
  have c': "c' = c\<lparr>cwEncoder := Some s'\<rparr>" "out = pass_on o'" using assms(4) s(1) w by (auto simp: encoder_Write_def)
  have "zruns z s' (wBody r @ p) (wBody r' @ o')" by (rule z_write [OF s(2) w])
  then show ?thesis using s assms(2,3) by (simp add: cw_rel_def c' pass_on_respond [OF s(3)] status_of_def)
qed

lemma commit_rel:
  assumes "cw_rel z env c r r'" and "\<not> cwCommitted c" and "cw_commit z env c h = (c', out)"
  shows "cwCommitted c' \<and> cw_rel z env c' (commit_status 200 r) (respond out r')"
proof -
  define code where "code = (if cwStatusCode c = 0 then 200 else cwStatusCode c)"
  define rr where "rr = commit_status 200 r"
  have rel: "wCommitted r' = None" "wBody r' = []" "cwBuf c = wBody r" "cwEncoder c = None"
    using assms(1,2) by (simp_all add: cw_rel_def)
  have code: "200 \<le> code" "code = status_of rr" "wCommitted rr \<noteq> None" "wBody rr = wBody r"
    using assms(1,2) by (auto simp: cw_rel_def code_def rr_def commit_status_def status_of_def split: if_splits)
  have inf: "\<not> informational code" using code(1) by (simp add: informational_def)
  show ?thesis
  proof (cases "shouldCompress env c h")
    case False
    then have "c' = c\<lparr>cwCommitted := True, cwCompress := False, cwStatusCode := code, cwBuf := []\<rparr>"
      "out = WriteHeader code # (if cwBuf c = [] then [] else [Write (cwBuf c)])"
      using assms(3) by (auto simp: cw_commit_def Let_def code_def split: if_splits)
    then show ?thesis using rel code inf unfolding rr_def [symmetric]
      by (auto simp: cw_rel_def commit_status_def Let_def)
  next
    case True
    let ?hs = "[HSet ''Content-Encoding'' (enc_name (ceEnc env)), HDel ''Content-Length'', HAdd ''Vary'' ''Accept-Encoding'', WriteHeader code]"
    let ?c1 = "c\<lparr>cwCommitted := True, cwCompress := True, cwStatusCode := code, cwEncoder := Some (zInit z)\<rparr>"
    define r1 where "r1 = respond ?hs r'"
    obtain hs where r1: "wCommitted r1 = Some (code, hs)" "wBody r1 = []" "hdr_get hs ''Content-Encoding'' = enc_name (ceEnc env)"
      using rel inf by (auto simp: r1_def commit_status_def hdr_get_def content_keys)
    have start: "cw_rel z env ?c1 (rr\<lparr>wBody := []\<rparr>) r1"
      using r1 code by (auto simp: cw_rel_def status_of_def intro: z_init)
    show ?thesis
    proof (cases "cwBuf c = []")
      case True
      have "c' = ?c1" "out = ?hs" using True assms(3) \<open>shouldCompress env c h\<close> by (auto simp: cw_commit_def Let_def code_def split: if_splits)
      moreover have "rr\<lparr>wBody := []\<rparr> = rr" using True rel(3) code(4) by simp
      ultimately show ?thesis using start unfolding rr_def [symmetric] r1_def by simp
    next
      case False
      obtain c4 o4 where e: "encoder_Write z (cwBuf c) ?c1 = (c4, o4)" by fastforce
      have "cw_rel z env c4 (rr\<lparr>wBody := wBody r\<rparr>) (respond o4 r1)"
        using encoder_Write_rel [OF start _ _ e] rel(3) by simp
      moreover have "c' = c4\<lparr>cwBuf := []\<rparr>" "out = ?hs @ o4"
        using assms(3) \<open>shouldCompress env c h\<close> False e by (auto simp: cw_commit_def Let_def code_def split: if_splits prod.splits)
      moreover have "cwCommitted c4" using e by (auto simp: encoder_Write_def split: prod.splits)
      moreover have "rr\<lparr>wBody := wBody r\<rparr> = rr" using code(4) by simp
      moreover have "respond (?hs @ o4) r' = respond o4 r1" unfolding r1_def by simp
      moreover have "cw_rel z env (c4\<lparr>cwBuf := []\<rparr>) rr x \<longleftrightarrow> cw_rel z env c4 rr x" for x
        using \<open>cwCommitted c4\<close> by (simp add: cw_rel_def)
      ultimately show ?thesis unfolding rr_def [symmetric] by (metis compressing_writer.select_convs(2) compressing_writer.surjective compressing_writer.update_convs(6))
    qed
  qed
qed

lemma cw_Write_rel:
  assumes "cw_rel z env c r r'" and "cw_Write z env p c h = (c', out)"
  shows "cw_rel z env c' (base_step (Write p) r) (respond out r')"
proof -
  define c1 where "c1 = (if \<not> cwWroteHeader c then cw_WriteHeader 200 c else c)"
  have step: "base_step (Write p) r = (commit_status 200 r)\<lparr>wBody := wBody r @ p\<rparr>" by (simp add: commit_status_def Let_def)
  have out: "(c', out) = (if cwCommitted c1 then if cwCompress c1 then encoder_Write z p c1 else (c1, [Write p])
      else let c2 = c1\<lparr>cwBuf := cwBuf c1 @ p\<rparr>
           in if int (length (cwBuf c2)) < ceMinBytes env then (c2, []) else cw_commit z env c2 h)"
    using assms(2) unfolding cw_Write_def Let_def c1_def [symmetric] by (rule sym)
  show ?thesis
  proof (cases "cwCommitted c")
    case True
    then have r: "commit_status 200 r = r" using assms(1) by (auto simp: cw_rel_def commit_status_def)
    have c1: "cwCommitted c1" "cwCompress c1 = cwCompress c" "cw_rel z env c1 r r'"
      using True assms(1) by (auto simp: c1_def cw_WriteHeader_def cw_rel_def)
    show ?thesis
    proof (cases "cwCompress c1")
      case True
      then show ?thesis using encoder_Write_rel [OF c1(3,1)] out c1(1) unfolding step r by simp
    next
      case False
      then show ?thesis using c1 out unfolding step r by (auto simp: cw_rel_def commit_status_def status_of_def Let_def)
    qed
  next
    case False
    define c2 where "c2 = c1\<lparr>cwBuf := cwBuf c1 @ p\<rparr>"
    have c1: "\<not> cwCommitted c1" using False by (simp add: c1_def cw_WriteHeader_def)
    have rel: "cw_rel z env c2 (base_step (Write p) r) r'"
      using assms(1) False unfolding step
      by (auto simp: c2_def c1_def cw_rel_def cw_WriteHeader_def commit_status_def status_of_def split: if_splits)
    have idem: "commit_status 200 (base_step (Write p) r) = base_step (Write p) r" by (auto simp: step commit_status_def)
    show ?thesis
    proof (cases "int (length (cwBuf c2)) < ceMinBytes env")
      case True
      then show ?thesis using rel out c1 by (simp add: Let_def c2_def)
    next
      case False
      then have "cw_commit z env c2 h = (c', out)" using out c1 by (simp add: Let_def c2_def)
      from commit_rel [OF rel _ this] show ?thesis using c1 unfolding idem by (simp add: c2_def)
    qed
  qed
qed

lemma cw_Flush_rel:
  assumes "cw_rel z env c r r'" and "cw_Flush z env c h = (c', out)"
  shows "cw_rel z env c' (base_step Flush r) (respond out r')"
proof -
  show ?thesis
  proof (cases "cwCommitted c")
    case True
    then have "commit_status 200 r = r" "c' = c" "respond out r' = r'"
      using assms(1,2) by (auto simp: cw_rel_def commit_status_def cw_Flush_def)
    then show ?thesis using assms(1) by simp
  next
    case False
    obtain o' where o': "cw_commit z env c h = (c', o')" "out = o' @ (if ceFlusher env then [Flush] else [])"
      using assms(2) False by (auto simp: cw_Flush_def split: prod.splits)
    note k = commit_rel [OF assms(1) False o'(1)]
    then have "wCommitted (respond o' r') \<noteq> None" by (auto simp: cw_rel_def)
    then have "respond out r' = respond o' r'" by (auto simp: o'(2) commit_status_def)
    then show ?thesis using k by simp
  qed
qed

lemma cw_step_rel:
  assumes "cw_rel z env c r r'" and "ok_call d" and "cw_step z env d c h = (c', out)"
  shows "cw_rel z env c' (base_step d r) (respond out r')"
proof (cases d)
  case (WriteHeader code)
  then have "\<not> informational code" using assms(2) by (simp add: informational_def)
  then show ?thesis using assms WriteHeader
    by (auto simp: cw_rel_def cw_WriteHeader_def commit_status_def status_of_def split: if_splits)
next
  case (Write p)
  then show ?thesis using cw_Write_rel [OF assms(1)] assms(3) by simp
next
  case Flush
  then show ?thesis using cw_Flush_rel [OF assms(1)] assms(3) by simp
qed (use assms in \<open>auto simp: cw_rel_def status_of_def split: if_splits\<close>)

lemma cw_run_rel:
  "cw_rel z env c r r' \<Longrightarrow> list_all ok_call cs \<Longrightarrow> transduce (cw_step z env) cs c h = (c', out) \<Longrightarrow>
   cw_rel z env c' (respond cs r) (respond out r')"
proof (induction cs arbitrary: c r r' h out)
  case (Cons d cs)
  obtain c1 o1 where s: "cw_step z env d c h = (c1, o1)" by fastforce
  obtain o2 where t: "transduce (cw_step z env) cs c1 (fold hcall o1 h) = (c', o2)" "out = o1 @ o2"
    using Cons.prems(3) s by (auto split: prod.splits)
  have "cw_rel z env c1 (base_step d r) (respond o1 r')" using cw_step_rel [OF Cons.prems(1) _ s] Cons.prems(2) by simp
  from Cons.IH [OF this _ t(1)] Cons.prems(2) show ?case by (simp add: t(2))
qed simp

lemma cw_close_rel:
  assumes "cw_rel z env c r r'" and "cw_Close z env c h = (c', out)" and "\<And>s b e. zruns z s b e \<Longrightarrow> dec (e @ zClose z s) = b"
  shows "\<exists>hs. wCommitted (respond out r') = Some (status_of r, hs) \<and>
    (wBody (respond out r') = wBody r \<or> hdr_get hs ''Content-Encoding'' = enc_name (ceEnc env) \<and> dec (wBody (respond out r')) = wBody r)"
proof -
  obtain c1 o1 where c1: "(c1, o1) = (if \<not> cwCommitted c then cw_commit z env c h else (c, []))" by (metis surj_pair)
  have rel: "cwCommitted c1" "cw_rel z env c1 (commit_status 200 r) (respond o1 r')"
  proof -
    have "cwCommitted c1 \<and> cw_rel z env c1 (commit_status 200 r) (respond o1 r')"
    proof (cases "cwCommitted c")
      case True
      then show ?thesis using assms(1) c1 by (auto simp: cw_rel_def commit_status_def)
    next
      case False
      then have "cw_commit z env c h = (c1, o1)" using c1 by simp
      from commit_rel [OF assms(1) False this] show ?thesis .
    qed
    then show "cwCommitted c1" "cw_rel z env c1 (commit_status 200 r) (respond o1 r')" by auto
  qed
  have r: "status_of (commit_status 200 r) = status_of r" "wBody (commit_status 200 r) = wBody r"
    by (simp_all add: commit_status_def status_of_def)
  have out: "out = o1 @ (case cwEncoder c1 of None \<Rightarrow> [] | Some s \<Rightarrow> pass_on (zClose z s))"
    using assms(2) c1 by (auto simp: cw_Close_def split: option.splits prod.splits if_splits)
  obtain hs where hs: "wCommitted (respond o1 r') = Some (status_of r, hs)" using rel r by (auto simp: cw_rel_def)
  show ?thesis
  proof (cases "cwCompress c1")
    case True
    then obtain s where s: "cwEncoder c1 = Some s" "zruns z s (wBody r) (wBody (respond o1 r'))"
      "hdr_get hs ''Content-Encoding'' = enc_name (ceEnc env)"
      using rel hs r by (auto simp: cw_rel_def)
    then show ?thesis using hs assms(3) [OF s(2)] by (simp add: out pass_on_respond [OF hs])
  next
    case False
    then show ?thesis using rel hs r by (auto simp: cw_rel_def out)
  qed
qed

section \<open>Properties\<close>


text \<open>A parser for the qualities that the concrete instances use.\<close>

definition tenth_floats :: "string \<Rightarrow> quality option" where
  "tenth_floats s =
     (if s = ''0'' then Some (QNum 0) else if s = ''0.5'' then Some (QNum (1/2)) else if s = ''1'' then Some (QNum 1) else None)"

definition greeting :: handler where
  "greeting ctx r w = (\<lparr>rnCalls = [WriteHeader 404, Write ''hello''], rnEnding = Returned, rnChosen = None, rnErr = None\<rparr>, w)"

lemma pick_gzip: "pickEncoding tenth_floats ''gzip'' = encodingGzip"
  by (simp add: pickEncoding_def parseAcceptEncoding_def supported_def str Let_def)


text \<open>What a client offers: the supported encodings of the header with their non-zero qualities.\<close>

definition offer :: "(string \<Rightarrow> quality option) \<Rightarrow> string \<Rightarrow> (encoding \<times> quality) list" where
  "offer parse_float part =
     (let (name, q) = parseAcceptEncoding parse_float (trim_space part)
      in if q_equal q (QNum 0) then [] else case supported name of None \<Rightarrow> [] | Some e \<Rightarrow> [(e, q)])"

definition offers :: "(string \<Rightarrow> quality option) \<Rightarrow> string \<Rightarrow> (encoding \<times> quality) list" where
  "offers parse_float hdr = (if hdr = [] then [] else concat (map (offer parse_float) (split_on (CHR '','') hdr)))"

fun pick_best :: "(encoding \<times> quality) list \<Rightarrow> encoding \<times> quality \<Rightarrow> encoding \<times> quality" where
  "pick_best [] best = best"
| "pick_best ((e, q) # os) (best, bestQ) =
     pick_best os (if q_greater q bestQ \<or> (q_equal q bestQ \<and> e > best) then (e, q) else (best, bestQ))"

lemma pick_loop_offers:
  "pick_loop parse_float parts best = pick_best (concat (map (offer parse_float) parts)) best"
  by (induction parse_float parts best rule: pick_loop.induct)
    (auto simp: offer_def Let_def split: prod.split option.split)

lemma pick_best_max:
  assumes "\<forall>(e, q) \<in> set os. \<exists>x > 0. q = QNum x" and "pick_best os (b, QNum x) = (b', q')"
  shows "\<exists>y. q' = QNum y \<and> ((b', q') \<in> set os \<or> b' = b \<and> y = x) \<and> (x < y \<or> x = y \<and> b \<le> b') \<and>
    (\<forall>e v. (e, QNum v) \<in> set os \<longrightarrow> v < y \<or> v = y \<and> e \<le> b')"
  using assms
proof (induction os arbitrary: b x)
  case (Cons o1 os)
  obtain e v where o1: "o1 = (e, QNum v)" "0 < v" using Cons.prems(1) by (cases o1) auto
  show ?case
  proof (cases "v > x \<or> v = x \<and> e > b")
    case True
    then have "pick_best os (e, QNum v) = (b', q')" using Cons.prems(2) o1 by auto
    from Cons.IH [OF _ this] Cons.prems(1) obtain y where
      "q' = QNum y" "(b', q') \<in> set os \<or> b' = e \<and> y = v" "v < y \<or> v = y \<and> e \<le> b'"
      "\<forall>e v. (e, QNum v) \<in> set os \<longrightarrow> v < y \<or> v = y \<and> e \<le> b'" by auto
    then show ?thesis using True by (auto simp: o1)
  next
    case False
    then have "pick_best os (b, QNum x) = (b', q')" using Cons.prems(2) o1 by auto
    from Cons.IH [OF _ this] Cons.prems(1) obtain y where
      "q' = QNum y" "(b', q') \<in> set os \<or> b' = b \<and> y = x" "x < y \<or> x = y \<and> b \<le> b'"
      "\<forall>e v. (e, QNum v) \<in> set os \<longrightarrow> v < y \<or> v = y \<and> e \<le> b'" by auto
    then show ?thesis using False by (auto simp: o1)
  qed
qed simp

definition parses_qualities :: "(string \<Rightarrow> quality option) \<Rightarrow> bool" where
  "parses_qualities parse_float \<longleftrightarrow> (\<forall>s v. parse_float s = Some v \<longrightarrow> (\<exists>x\<ge>0. v = QNum x))"

lemma accept_params_num:
  "parses_qualities parse_float \<Longrightarrow> \<exists>x\<ge>0. q = QNum x \<Longrightarrow>
   \<exists>x\<ge>0. accept_params parse_float ps q = QNum x"
proof (induction ps arbitrary: q)
  case (Cons p ps)
  have "\<exists>x\<ge>0. accept_params parse_float ps q = QNum x" if "\<exists>x\<ge>0. q = QNum x" for q
    using that Cons.prems(1) by (intro Cons.IH) auto
  with Cons.prems show ?case by (auto simp: Let_def parses_qualities_def split: option.split)
qed simp

lemma offers_positive:
  assumes "parses_qualities parse_float"
  shows "\<forall>(e, q) \<in> set (offers parse_float hdr). \<exists>x > 0. q = QNum x"
proof -
  have "\<exists>x > 0. q = QNum x" if "(e, q) \<in> set (offer parse_float part)" for e q part
  proof -
    obtain name q' where p: "parseAcceptEncoding parse_float (trim_space part) = (name, q')" by fastforce
    then obtain x where x: "x \<ge> 0" "q' = QNum x"
      using accept_params_num [OF assms, of "QNum 1"] by (fastforce simp: parseAcceptEncoding_def Let_def)
    have "q = QNum x" "x \<noteq> 0" using that p x(2) by (auto simp: offer_def split: if_splits option.splits)
    with x(1) show ?thesis by auto
  qed
  then show ?thesis by (auto simp: offers_def)
qed



text \<open>
  A panic behind the compression middleware reaches a client that accepts compression as an empty
  200 response: the deferred \<^verbatim>\<open>cw.Close()\<close> commits the default status before \<^verbatim>\<open>PanicRecover\<close>, further
  out, can write its 500. The access log records 200 too.
\<close>

theorem compression_hides_panic:
  assumes "\<And>ctx r w. inner ctx r w = (\<lparr>rnCalls = [], rnEnding = Panicked v, rnChosen = None, rnErr = None\<rparr>, w)"
    and "pickEncoding parse_float (hdr_get (rHeader r) ''Accept-Encoding'') \<noteq> encodingNone"
  shows "status_of (respond (rnCalls (fst (PanicRecover (Compress parse_float codecs ccfg inner) ctx r w))) new_response) = 200 \<and>
    wPanics (snd (PanicRecover (Compress parse_float codecs ccfg inner) ctx r w)) = wPanics w @ [''middleware-chain-post-header'']"
  using assms(2)
  by (auto simp: PanicRecover_def Compress_def Let_def assms(1) cw_Close_def cw_commit_def new_compressing_writer_def shouldCompress_def
      pass_on_def new_response_def commit_status_def status_of_def informational_def split: prod.split)

theorem compression_hides_panic_witness:
  "status_of (respond (rnCalls (fst (PanicRecover (Compress tenth_floats (\<lambda>_. nopWriteCloser) \<lparr>cmMinBytes = 0, cmSkipContentTypes = []\<rparr>
     panicking) background (sample_request [(''Accept-Encoding'', [''gzip''])]) sample_world))) new_response) = 200"
proof -
  let ?r = "sample_request [(''Accept-Encoding'', [''gzip''])]"
  have hdr: "hdr_get (rHeader ?r) ''Accept-Encoding'' = ''gzip''" by code_simp
  show ?thesis
    using compression_hides_panic [of panicking "''boom''" tenth_floats ?r "\<lambda>_. nopWriteCloser" _ background sample_world]
    unfolding hdr pick_gzip by (simp add: panicking_def)
qed

end
