(* ===== verification/Headers.thy ===== *)
theory Headers
  imports Observe Config
begin

text \<open>
  The header transformation middleware of \<^verbatim>\<open>internal/middleware/headers.go\<close>. The configured maps are lists
  of their entries in one iteration order. \<^verbatim>\<open>DisableForwardedFor\<close> and \<^verbatim>\<open>TrustProxyHops\<close> are fields of the
  middleware's own configuration that \<^verbatim>\<open>main.go\<close> leaves at their zero values.
\<close>

section \<open>Model\<close>

record header_transform_mw =
  hmAddRequest :: "(string \<times> string) list"
  hmRemoveRequest :: "string list"
  hmAddResponse :: "(string \<times> string) list"
  hmRemoveResponse :: "string list"
  hmDisableForwardedFor :: bool
  hmTrustProxyHops :: int

definition hopByHopHeaderNames :: "string list" where
  "hopByHopHeaderNames = [''Connection'', ''Keep-Alive'', ''Proxy-Authenticate'', ''Proxy-Authorization'', ''TE'', ''Trailer'',
     ''Transfer-Encoding'']"

definition del_all :: "string list \<Rightarrow> header \<Rightarrow> header" where
  "del_all names h = fold (\<lambda>n h. hdr_del h n) names h"

definition stripHopByHopHeaders :: "header \<Rightarrow> header" where
  "stripHopByHopHeaders h =
     (let conn = hdr_get h ''Connection'';
          h1 = (if conn \<noteq> [] then del_all (map trim_space (split_on (CHR '','') conn)) h else h)
      in del_all hopByHopHeaderNames h1)"

definition validHeaderValue :: "string \<Rightarrow> bool" where
  "validHeaderValue v \<longleftrightarrow> \<not> contains_any v crlf"

definition set_all :: "(string \<times> string) list \<Rightarrow> header \<Rightarrow> header" where
  "set_all kvs h = fold (\<lambda>(n, v) h. if \<not> validHeaderValue v then h else hdr_set h n v) kvs h"

definition setForwardedHeaders :: "http_request \<Rightarrow> int \<Rightarrow> http_request" where
  "setForwardedHeaders r trustHops =
     (let cIP = clientIPWithTrust r trustHops
      in if cIP = [] then r
         else
           let h = rHeader r;
               existing = hdr_get h ''X-Forwarded-For'';
               h1 = hdr_set h ''X-Forwarded-For'' (if existing \<noteq> [] then existing @ '', '' @ cIP else cIP);
               h2 = (if hdr_get h1 ''X-Real-IP'' = [] then hdr_set h1 ''X-Real-IP'' cIP else h1);
               h3 = (if hdr_get h2 ''X-Forwarded-Host'' = [] \<and> rHost r \<noteq> [] then hdr_set h2 ''X-Forwarded-Host'' (rHost r) else h2)
           in r\<lparr>rHeader := hdr_set h3 ''X-Forwarded-Proto'' (if rTLS r then ''https'' else ''http'')\<rparr>)"

definition transform_request :: "header_transform_mw \<Rightarrow> http_request \<Rightarrow> http_request" where
  "transform_request c r =
     (let r1 = r\<lparr>rHeader := set_all (hmAddRequest c) (del_all (hmRemoveRequest c) (stripHopByHopHeaders (rHeader r)))\<rparr>
      in if \<not> hmDisableForwardedFor c then setForwardedHeaders r1 (hmTrustProxyHops c) else r1)"

definition response_edits :: "header_transform_mw \<Rightarrow> wcall list" where
  "response_edits c =
     map HDel (hmRemoveResponse c) @ map (\<lambda>(n, v). HSet n v) (filter (\<lambda>(n, v). validHeaderValue v) (hmAddResponse c))"

text \<open>\<open>applied\<close> is the state of \<^verbatim>\<open>responseHeaderRewriter\<close>.\<close>

definition applyOnce :: "header_transform_mw \<Rightarrow> bool \<Rightarrow> wcall list" where
  "applyOnce c applied = (if applied then [] else response_edits c)"

fun rewriter_step :: "header_transform_mw \<Rightarrow> wcall \<Rightarrow> bool \<Rightarrow> header \<Rightarrow> bool \<times> wcall list" where
  "rewriter_step c (WriteHeader code) applied h = (True, applyOnce c applied @ [WriteHeader code])"
| "rewriter_step c (Write p) applied h = (True, applyOnce c applied @ [Write p])"
| "rewriter_step c Flush applied h = (applied, [])"
| "rewriter_step c call applied h = (applied, [call])"

definition HeaderTransform :: "header_transform_mw \<Rightarrow> middleware" where
  "HeaderTransform c next =
     (\<lambda>ctx r w.
       let (rn, w') = next (ctx\<lparr>cFlusher := False, cHijacker := False\<rparr>) (transform_request c r) w;
           (_, out) = transduce (rewriter_step c) (rnCalls rn) False (cHeader ctx)
       in (rn\<lparr>rnCalls := out\<rparr>, w'))"

section \<open>Deleting and setting\<close>

lemma hdr_values_del_all:
  "hdr_values (del_all names h) k = (if canonical_key k \<in> canonical_key ` set names then [] else hdr_values h k)"
  unfolding del_all_def by (induction names arbitrary: h) auto

lemma hdr_values_set_all:
  "hdr_values (set_all kvs h) k =
     (case find (\<lambda>(n, v). canonical_key n = canonical_key k \<and> validHeaderValue v) (rev kvs) of
        Some (n, v) \<Rightarrow> [v] | None \<Rightarrow> hdr_values h k)"
proof (induction kvs rule: rev_induct)
  case (snoc kv kvs)
  then show ?case by (cases kv) (auto simp: set_all_def)
qed (simp add: set_all_def)

lemma hdr_values_strip:
  assumes "canonical_key k \<in> canonical_key ` (set hopByHopHeaderNames \<union>
    (if hdr_get h ''Connection'' = [] then {} else trim_space ` set (split_on (CHR '','') (hdr_get h ''Connection''))))"
  shows "hdr_values (stripHopByHopHeaders h) k = []"
  using assms by (auto simp: stripHopByHopHeaders_def Let_def hdr_values_del_all split: if_splits)

lemma setForwardedHeaders_other:
  assumes "canonical_key k \<notin> {''X-Forwarded-For'', ''X-Real-Ip'', ''X-Forwarded-Host'', ''X-Forwarded-Proto''}"
  shows "hdr_values (rHeader (setForwardedHeaders r n)) k = hdr_values (rHeader r) k"
proof -
  have "canonical_key ''X-Forwarded-For'' = ''X-Forwarded-For''" "canonical_key ''X-Real-IP'' = ''X-Real-Ip''"
    "canonical_key ''X-Forwarded-Host'' = ''X-Forwarded-Host''" "canonical_key ''X-Forwarded-Proto'' = ''X-Forwarded-Proto''"
    by code_simp+
  then show ?thesis using assms by (simp add: setForwardedHeaders_def Let_def)
qed

section \<open>Properties\<close>


definition sample_transform :: header_transform_mw where
  "sample_transform = \<lparr>hmAddRequest = [(''X-A'', ''1'')], hmRemoveRequest = [''Cookie''], hmAddResponse = [(''X-B'', ''2'')],
     hmRemoveResponse = [''Server''], hmDisableForwardedFor = False, hmTrustProxyHops = 0\<rparr>"


text \<open>The rewriter inserts its edits in front of the first commit, once.\<close>

lemma rewriter_applied: "list_all plain_call cs \<Longrightarrow> snd (transduce (rewriter_step c) cs True h) = cs"
proof (induction cs arbitrary: h)
  case (Cons d cs)
  then show ?case by (cases d) (simp_all add: applyOnce_def Let_def case_prod_beta)
qed simp

fun commits :: "wcall \<Rightarrow> bool" where
  "commits (WriteHeader c) = True"
| "commits (Write p) = True"
| "commits _ = False"

lemma rewriter_calls:
  assumes "list_all plain_call cs"
  shows "snd (transduce (rewriter_step c) cs False h) =
    (let pre = takeWhile (\<lambda>d. \<not> commits d) cs; post = dropWhile (\<lambda>d. \<not> commits d) cs
     in pre @ (if post = [] then [] else response_edits c) @ post)"
  using assms
proof (induction cs arbitrary: h)
  case (Cons d cs)
  then show ?case by (cases d) (simp_all add: rewriter_applied applyOnce_def Let_def case_prod_beta)
qed simp

lemma respond_header_only:
  "\<forall>d \<in> set cs. \<not> commits d \<and> plain_call d \<Longrightarrow> respond cs r = r\<lparr>wHeader := fold hcall cs (wHeader r)\<rparr>"
proof (induction cs arbitrary: r)
  case (Cons d cs)
  then show ?case by (cases d) simp_all
qed simp

lemma respond_keeps_commit: "wCommitted r = Some ch \<Longrightarrow> wCommitted (respond cs r) = Some ch"
proof (induction cs arbitrary: r)
  case (Cons d cs)
  then have "wCommitted (base_step d r) = Some ch" by (cases d) (simp_all add: commit_status_def Let_def)
  then show ?case using Cons.IH by simp
qed simp

lemma commit_header:
  assumes "commits d" and "plain_call d" and "wCommitted r = None"
  shows "\<exists>code. wCommitted (base_step d r) = Some (code, wHeader r)"
  using assms by (cases d) (simp_all add: commit_status_def Let_def)

lemma edits_header:
  "fold hcall (response_edits c) h = set_all (hmAddResponse c) (del_all (hmRemoveResponse c) h)"
proof -
  have "fold hcall (map HDel ns) h = del_all ns h" for ns h by (induction ns arbitrary: h) (simp_all add: del_all_def)
  moreover have "fold hcall (map (\<lambda>(n, v). HSet n v) (filter (\<lambda>(n, v). validHeaderValue v) kvs)) h = set_all kvs h" for kvs h
    by (induction kvs arbitrary: h) (auto simp: set_all_def)
  ultimately show ?thesis by (simp add: response_edits_def)
qed

text \<open>
  Response rewriting is exact: whatever headers the inner handlers set and in however many pieces
  they write, the header map that goes out with the status line is theirs with the configured
  removals applied first and the configured additions after, values with CR or LF left out.
\<close>

theorem response_headers_rewritten:
  assumes "\<And>ctx r w. list_all plain_call (rnCalls (fst (nxt ctx r w)))"
    and "wCommitted r0 = None" and "wHeader r0 = h0"
    and "wCommitted (respond (rnCalls (fst (HeaderTransform c nxt ctx r w))) r0) = Some (code, hs)"
  shows "\<exists>h. hs = set_all (hmAddResponse c) (del_all (hmRemoveResponse c) h) \<and>
    wCommitted (respond (rnCalls (fst (nxt (ctx\<lparr>cFlusher := False, cHijacker := False\<rparr>) (transform_request c r) w))) r0) = Some (code, h)"
proof -
  define cs where "cs = rnCalls (fst (nxt (ctx\<lparr>cFlusher := False, cHijacker := False\<rparr>) (transform_request c r) w))"
  have plain: "list_all plain_call cs" using assms(1) by (simp add: cs_def)
  define pre post where "pre = takeWhile (\<lambda>d. \<not> commits d) cs" and "post = dropWhile (\<lambda>d. \<not> commits d) cs"
  have cs: "cs = pre @ post" by (simp add: pre_def post_def)
  have out: "rnCalls (fst (HeaderTransform c nxt ctx r w)) = pre @ (if post = [] then [] else response_edits c) @ post"
  proof -
    have "rnCalls (fst (HeaderTransform c nxt ctx r w)) = snd (transduce (rewriter_step c) cs False (cHeader ctx))"
      by (simp add: HeaderTransform_def Let_def case_prod_beta cs_def)
    also note rewriter_calls [OF plain]
    finally show ?thesis unfolding pre_def post_def Let_def .
  qed
  have "\<forall>d \<in> set pre. \<not> commits d \<and> plain_call d"
    using plain unfolding pre_def list_all_iff by (auto dest!: set_takeWhileD)
  then have rpre: "respond pre r0 = r0\<lparr>wHeader := fold hcall pre h0\<rparr>" using respond_header_only assms(3) by simp
  have "\<forall>d \<in> set (response_edits c). \<not> commits d \<and> plain_call d" by (auto simp: response_edits_def)
  note redits = respond_header_only [OF this]
  show ?thesis
  proof (cases post)
    case Nil
    then show ?thesis using assms(2,4) out rpre by simp
  next
    case (Cons d ds)
    have "d \<in> set cs" unfolding cs Cons by simp
    then have d: "plain_call d" "commits d"
      using plain hd_dropWhile [of "\<lambda>d. \<not> commits d" cs] Cons unfolding post_def list_all_iff by auto
    have "respond (rnCalls (fst (HeaderTransform c nxt ctx r w))) r0 =
        respond ds (base_step d (r0\<lparr>wHeader := set_all (hmAddResponse c) (del_all (hmRemoveResponse c) (fold hcall pre h0))\<rparr>))"
      using out Cons by (simp add: rpre redits edits_header)
    moreover have "respond cs r0 = respond ds (base_step d (r0\<lparr>wHeader := fold hcall pre h0\<rparr>))" using cs Cons rpre by simp
    moreover have "\<exists>code'. \<forall>h. wCommitted (base_step d (r0\<lparr>wHeader := h\<rparr>)) = Some (code', h)"
      using d assms(2) by (cases d) (auto simp: commit_status_def Let_def)
    ultimately show ?thesis using assms(4) respond_keeps_commit unfolding cs_def [symmetric]
      by (metis Pair_inject option.inject)
  qed
qed

theorem response_headers_rewritten_witness:
  "\<exists>code hs. wCommitted (respond (rnCalls (fst (HeaderTransform sample_transform
       (\<lambda>ctx r w. (\<lparr>rnCalls = [HSet ''Server'' ''x'', WriteHeader 200, Write ''hi''], rnEnding = Returned, rnChosen = None, rnErr = None\<rparr>, w))
       background (sample_request []) sample_world))) new_response) = Some (code, hs) \<and> hdr_values hs ''Server'' = []"
proof -
  let ?n = "(\<lambda>ctx r w. (\<lparr>rnCalls = [HSet ''Server'' ''x'', WriteHeader 200, Write ''hi''], rnEnding = Returned, rnChosen = None, rnErr = None\<rparr>, w)) :: handler"
  let ?resp = "respond (rnCalls (fst (HeaderTransform sample_transform ?n background (sample_request []) sample_world))) new_response"
  have plain: "list_all plain_call (rnCalls (fst (?n ctx r w)))" for ctx r w by (simp add: informational_def)
  have "wCommitted ?resp \<noteq> None"
    by (simp add: HeaderTransform_def Let_def applyOnce_def response_edits_def sample_transform_def informational_def
        new_response_def commit_status_def case_prod_beta)
  then obtain code hs where ch: "wCommitted ?resp = Some (code, hs)" by auto
  have r0: "wCommitted new_response = None" by (simp add: new_response_def)
  obtain h where "hs = set_all (hmAddResponse sample_transform) (del_all (hmRemoveResponse sample_transform) h)"
    using response_headers_rewritten [where nxt = ?n, OF plain r0 refl ch] by blast
  moreover have "canonical_key ''X-B'' \<noteq> canonical_key ''Server''" by code_simp
  ultimately have "hdr_values hs ''Server'' = []"
    by (simp add: hdr_values_set_all hdr_values_del_all sample_transform_def)
  with ch show ?thesis by blast
qed

end
