(* ===== verification/Retry.thy ===== *)
theory Retry
  imports Observe
begin

text \<open>
  The retry and hedging middleware of \<^verbatim>\<open>internal/middleware/retry.go\<close>. An attempt runs the inner handler
  against a buffering response writer and recovers its panics; sequential attempts exclude the
  upstreams of the earlier ones. Hedging starts a second goroutine: which attempt's effects come first,
  which result the \<^verbatim>\<open>select\<close> receives and whether the loser is cancelled before its effects is the argument
  \<open>sched\<close>; the theory \<open>Hedge\<close> has the goroutines, channels and contexts and shows that these schedules are
  exactly what they can do. An attempt is one atomic step.
\<close>

section \<open>Model\<close>

record retry_mw =
  rtMaxAttempts :: int
  rtRetryMethods :: "string list"
  rtRetryOn :: "int list"
  rtMaxReplayableBody :: int
  rtHedgeAfter :: duration
  rtHedgeAfterPercentile :: float64
  rtHedgeableMethods :: "string list"

record buffered_response =
  brHeaders :: header
  brStatusCode :: int
  brBody :: string

record attempt_outcome =
  aoChosen :: "uid option"
  aoErr :: "string option"

record attempt_result =
  arRec :: buffered_response
  arOutcome :: attempt_outcome

definition newBufferedResponse :: buffered_response where
  "newBufferedResponse = \<lparr>brHeaders = Map.empty, brStatusCode = 0, brBody = []\<rparr>"

fun br_step :: "wcall \<Rightarrow> buffered_response \<Rightarrow> buffered_response" where
  "br_step (WriteHeader code) b = (if brStatusCode b = 0 then b\<lparr>brStatusCode := code\<rparr> else b)"
| "br_step (Write p) b =
     (let b' = (if brStatusCode b = 0 then b\<lparr>brStatusCode := 200\<rparr> else b) in b'\<lparr>brBody := brBody b' @ p\<rparr>)"
| "br_step Flush b = b"
| "br_step call b = b\<lparr>brHeaders := hcall call (brHeaders b)\<rparr>"

definition flushTo :: "buffered_response \<Rightarrow> wcall list" where
  "flushTo b =
     (let code = (if brStatusCode b = 0 then 200 else brStatusCode b)
      in [HPutAll (brHeaders b), WriteHeader code, Write (brBody b)])"

text \<open>\<^verbatim>\<open>io.ReadAll\<close> of an \<^verbatim>\<open>io.LimitReader\<close>: at most \<open>n\<close> bytes, an error only if the reader fails before them.\<close>

definition read_limited :: "int \<Rightarrow> body \<Rightarrow> string option" where
  "read_limited n b =
     (case b of
        NoBody \<Rightarrow> Some []
      | Bytes bs \<Rightarrow> Some (take (nat n) bs)
      | Failing bs \<Rightarrow> if nat n \<le> length bs then Some (take (nat n) bs) else None
      | ClosedBody \<Rightarrow> if n \<le> 0 then Some [] else None)"

definition bufferReplayBody :: "http_request \<Rightarrow> int \<Rightarrow> string option \<times> bool \<times> http_request" where
  "bufferReplayBody req maxSize =
     (if rBody req = NoBody then (None, False, req)
      else if maxSize \<le> 0 then (None, False, req\<lparr>rBody := ClosedBody\<rparr>)
      else (case read_limited (s64 (maxSize + 1)) (rBody req) of
              None \<Rightarrow> (None, False, req\<lparr>rBody := ClosedBody\<rparr>)
            | Some data \<Rightarrow>
                if int (length data) > maxSize then (Some data, True, req\<lparr>rBody := ClosedBody\<rparr>)
                else (Some data, False, req\<lparr>rBody := ClosedBody\<rparr>)))"

fun stringInSlice :: "string list \<Rightarrow> string \<Rightarrow> bool" where
  "stringInSlice [] s = False"
| "stringInSlice (v # vs) s = (if v = s then True else stringInSlice vs s)"

definition attempt_ctx :: "reqctx \<Rightarrow> attempt_info \<Rightarrow> reqctx" where
  "attempt_ctx ctx info =
     (WithAttempt ctx info)\<lparr>cHasOutcome := True, cHeader := Map.empty, cFlusher := False, cHijacker := False\<rparr>"

definition dispatch ::
  "handler \<Rightarrow> reqctx \<Rightarrow> http_request \<Rightarrow> int \<Rightarrow> uid list \<Rightarrow> bool \<Rightarrow> string option \<Rightarrow> world \<Rightarrow> attempt_result \<times> world" where
  "dispatch nxt ctx req attempt exclude isHedge bodyBuf w =
     (let info = \<lparr>aiNumber = attempt, aiExclude = exclude, aiIsHedge = isHedge\<rparr>;
          actx = attempt_ctx ctx info;
          attemptReq = (case bodyBuf of None \<Rightarrow> req | Some b \<Rightarrow> req\<lparr>rBody := Bytes b\<rparr>);
          (rn, w') = nxt actx attemptReq w;
          rec = fold br_step (rnCalls rn) newBufferedResponse;
          outcome = \<lparr>aoChosen = rnChosen rn, aoErr = rnErr rn\<rparr>
      in case rnEnding rn of
           Returned \<Rightarrow> (\<lparr>arRec = rec, arOutcome = outcome\<rparr>, w')
         | Panicked v \<Rightarrow>
             (\<lparr>arRec = (if brStatusCode rec = 0 then rec\<lparr>brStatusCode := 502\<rparr> else rec),
               arOutcome = outcome\<lparr>aoErr := Some (''handler panic: '' @ v)\<rparr>\<rparr>, w'))"

definition shouldRetry :: "retry_mw \<Rightarrow> attempt_result \<Rightarrow> bool" where
  "shouldRetry rcfg res \<longleftrightarrow> aoErr (arOutcome res) \<noteq> None \<or> List.member (rtRetryOn rcfg) (brStatusCode (arRec res))"

function serveSequential ::
  "handler \<Rightarrow> retry_mw \<Rightarrow> reqctx \<Rightarrow> http_request \<Rightarrow> string option \<Rightarrow> int \<Rightarrow> int \<Rightarrow> uid list \<Rightarrow> world \<Rightarrow> wcall list \<times> world" where
  "serveSequential nxt rcfg ctx req bodyBuf maxAttempts attempt exclude w =
     (if attempt \<le> maxAttempts
      then let (res, w') = dispatch nxt ctx req attempt exclude False bodyBuf w
           in if attempt = maxAttempts \<or> \<not> shouldRetry rcfg res then (flushTo (arRec res), w')
              else serveSequential nxt rcfg ctx req bodyBuf maxAttempts (attempt + 1)
                     (case aoChosen (arOutcome res) of None \<Rightarrow> exclude | Some u \<Rightarrow> exclude @ [u]) w'
      else ([], w))"
  by pat_completeness auto

termination
  by (relation "measure (\<lambda>(nxt, rcfg, ctx, req, buf, mx, attempt, ex, w). nat (mx + 1 - attempt))") auto

declare serveSequential.simps [simp del]

datatype hedge_schedule = PrimaryInTime | Race (hedge_first: bool) (hedge_wins: bool) (cut_short: bool)

definition serveHedged ::
  "hedge_schedule \<Rightarrow> handler \<Rightarrow> reqctx \<Rightarrow> http_request \<Rightarrow> string option \<Rightarrow> world \<Rightarrow> wcall list \<times> world" where
  "serveHedged sched nxt ctx req bodyBuf w =
     (case sched of
        PrimaryInTime \<Rightarrow> let (res, w') = dispatch nxt ctx req 1 [] False bodyBuf w in (flushTo (arRec res), w')
      | Race hedgeFirst hedgeWins early \<Rightarrow>
          if hedgeFirst
          then let (hres, w1) = dispatch nxt ctx req 2 [] True bodyBuf w;
                   (pres, w2) = dispatch nxt (ctx\<lparr>cCancelled := cCancelled ctx \<or> hedgeWins \<and> early\<rparr>) req 1 [] False bodyBuf w1
               in (flushTo (arRec (if hedgeWins then hres else pres)), w2)
          else let (pres, w1) = dispatch nxt ctx req 1 [] False bodyBuf w;
                   (hres, w2) = dispatch nxt (ctx\<lparr>cCancelled := cCancelled ctx \<or> \<not> hedgeWins \<and> early\<rparr>) req 2 [] True bodyBuf w1
               in (flushTo (arRec (if hedgeWins then hres else pres)), w2))"

definition retry_ServeHTTP :: "(world \<Rightarrow> hedge_schedule) \<Rightarrow> retry_mw \<Rightarrow> handler \<Rightarrow> handler" where
  "retry_ServeHTTP sched rcfg nxt =
     (\<lambda>ctx req w.
       let (bodyBuf, bodyTooLarge, req') = bufferReplayBody req (rtMaxReplayableBody rcfg);
           methodAllowsRetry = (stringInSlice (rtRetryMethods rcfg) (rMethod req) \<and> \<not> bodyTooLarge);
           methodAllowsHedge = (stringInSlice (rtHedgeableMethods rcfg) (rMethod req) \<and> rtHedgeAfter rcfg > 0 \<and> \<not> bodyTooLarge);
           (calls, w') =
             (if methodAllowsHedge \<and> rtMaxAttempts rcfg \<ge> 2 then serveHedged (sched w) nxt ctx req' bodyBuf w
              else serveSequential nxt rcfg ctx req' bodyBuf (if \<not> methodAllowsRetry then 1 else rtMaxAttempts rcfg) 1 [] w)
       in (\<lparr>rnCalls = calls, rnEnding = Returned, rnChosen = None, rnErr = None\<rparr>, w'))"

definition Retry :: "(world \<Rightarrow> hedge_schedule) \<Rightarrow> retry_mw \<Rightarrow> middleware" where
  "Retry sched rcfg nxt =
     retry_ServeHTTP sched (if rtMaxAttempts rcfg < 1 then rcfg\<lparr>rtMaxAttempts := 1\<rparr> else rcfg) nxt"

section \<open>Buffered responses\<close>

text \<open>The buffer agrees with the server's own writer on status and body.\<close>

fun final_call :: "wcall \<Rightarrow> bool" where
  "final_call (WriteHeader c) = (200 \<le> c)"
| "final_call Flush = False"
| "final_call _ = True"

definition br_rel :: "buffered_response \<Rightarrow> response \<Rightarrow> bool" where
  "br_rel b r \<longleftrightarrow> brBody b = wBody r \<and> (brStatusCode b = 0 \<longleftrightarrow> wCommitted r = None) \<and>
     (brStatusCode b \<noteq> 0 \<longrightarrow> brStatusCode b = status_of r)"

lemma br_step_rel: "br_rel b r \<Longrightarrow> final_call c \<Longrightarrow> br_rel (br_step c b) (base_step c r)"
  by (cases c) (auto simp: br_rel_def commit_status_def status_of_def informational_def Let_def)

lemma br_rel_fold: "br_rel b r \<Longrightarrow> list_all final_call cs \<Longrightarrow> br_rel (fold br_step cs b) (respond cs r)"
proof (induction cs arbitrary: b r)
  case (Cons c cs)
  then show ?case using br_step_rel [of b r c] by simp
qed simp

lemma br_status_ge:
  "list_all final_call cs \<Longrightarrow> brStatusCode b = 0 \<or> 200 \<le> brStatusCode b \<Longrightarrow>
   brStatusCode (fold br_step cs b) = 0 \<or> 200 \<le> brStatusCode (fold br_step cs b)"
proof (induction cs arbitrary: b)
  case (Cons c cs)
  then have "brStatusCode (br_step c b) = 0 \<or> 200 \<le> brStatusCode (br_step c b)" by (cases c) (auto simp: Let_def)
  with Cons show ?case by simp
qed simp

lemma flushTo_status:
  "wCommitted r = None \<Longrightarrow> brStatusCode b = 0 \<or> 200 \<le> brStatusCode b \<Longrightarrow>
   status_of (respond (flushTo b) r) = (if brStatusCode b = 0 then 200 else brStatusCode b) \<and>
   wBody (respond (flushTo b) r) = wBody r @ brBody b"
  by (auto simp: flushTo_def Let_def commit_status_def status_of_def informational_def)

lemma buffered_response_faithful:
  assumes "list_all final_call cs"
  shows "status_of (respond (flushTo (fold br_step cs newBufferedResponse)) new_response) = status_of (respond cs new_response)"
    and "wBody (respond (flushTo (fold br_step cs newBufferedResponse)) new_response) = wBody (respond cs new_response)"
proof -
  have "br_rel newBufferedResponse new_response"
    by (simp add: br_rel_def newBufferedResponse_def new_response_def)
  from br_rel_fold [OF this assms] have rel: "br_rel (fold br_step cs newBufferedResponse) (respond cs new_response)" .
  have "brStatusCode (fold br_step cs newBufferedResponse) = 0 \<or> 200 \<le> brStatusCode (fold br_step cs newBufferedResponse)"
    using br_status_ge [OF assms] by (simp add: newBufferedResponse_def)
  from flushTo_status [OF _ this, of new_response] rel
  show "status_of (respond (flushTo (fold br_step cs newBufferedResponse)) new_response) = status_of (respond cs new_response)"
    and "wBody (respond (flushTo (fold br_step cs newBufferedResponse)) new_response) = wBody (respond cs new_response)"
    by (auto simp: br_rel_def new_response_def status_of_def)
qed

section \<open>Sequences of attempts\<close>

text \<open>
  The abstract account: attempts numbered from 1, each told to exclude the upstreams the earlier ones
  chose, each starting in the world the one before left.
\<close>

definition chosen_of :: "attempt_result list \<Rightarrow> uid list" where
  "chosen_of rs = concat (map (\<lambda>r. case aoChosen (arOutcome r) of None \<Rightarrow> [] | Some u \<Rightarrow> [u]) rs)"

inductive attempt_trace ::
  "handler \<Rightarrow> reqctx \<Rightarrow> http_request \<Rightarrow> string option \<Rightarrow> world \<Rightarrow> attempt_result list \<Rightarrow> world \<Rightarrow> bool"
  for nxt ctx req buf w where
  trace_nil: "attempt_trace nxt ctx req buf w [] w"
| trace_snoc: "\<lbrakk> attempt_trace nxt ctx req buf w rs w1;
      dispatch nxt ctx req (int (length rs) + 1) (chosen_of rs) False buf w1 = (res, w2) \<rbrakk> \<Longrightarrow>
    attempt_trace nxt ctx req buf w (rs @ [res]) w2"

inductive_cases trace_snocE: "attempt_trace nxt ctx req buf w (rs @ [res]) w2"

lemma chosen_of_snoc: "chosen_of (rs @ [r]) = (case aoChosen (arOutcome r) of None \<Rightarrow> chosen_of rs | Some u \<Rightarrow> chosen_of rs @ [u])"
  by (simp add: chosen_of_def split: option.split)

lemma serveSequential_trace:
  assumes "attempt_trace nxt ctx req buf w0 rs w" and "int (length rs) < mx" and "\<forall>r \<in> set rs. shouldRetry rcfg r"
    and "serveSequential nxt rcfg ctx req buf mx (int (length rs) + 1) (chosen_of rs) w = (calls, w')"
  shows "\<exists>rs' res. attempt_trace nxt ctx req buf w0 (rs' @ [res]) w' \<and> calls = flushTo (arRec res) \<and>
    int (length (rs' @ [res])) \<le> mx \<and> (\<forall>r \<in> set rs'. shouldRetry rcfg r) \<and>
    (shouldRetry rcfg res \<longrightarrow> int (length (rs' @ [res])) = mx)"
  using assms
proof (induction "nat (mx - int (length rs))" arbitrary: rs w rule: less_induct)
  case less
  obtain res w1 where d: "dispatch nxt ctx req (int (length rs) + 1) (chosen_of rs) False buf w = (res, w1)" by fastforce
  have t: "attempt_trace nxt ctx req buf w0 (rs @ [res]) w1" by (rule trace_snoc [OF less.prems(1) d])
  show ?case
  proof (cases "int (length rs) + 1 = mx \<or> \<not> shouldRetry rcfg res")
    case True
    then have "calls = flushTo (arRec res)" "w' = w1"
      using less.prems(2,4) d by (auto simp: serveSequential.simps [of nxt rcfg ctx req buf mx "int (length rs) + 1"])
    with t True less.prems(2,3) show ?thesis by (intro exI [of _ rs] exI [of _ res]) auto
  next
    case False
    then have "serveSequential nxt rcfg ctx req buf mx (int (length (rs @ [res])) + 1) (chosen_of (rs @ [res])) w1 = (calls, w')"
      using less.prems(2,4) d
      by (subst (asm) serveSequential.simps) (simp add: chosen_of_snoc add.commute)
    with less.hyps [OF _ t _ _ this] less.prems(2,3) False show ?thesis by auto
  qed
qed


lemma stringInSlice_iff [simp]: "stringInSlice vs s \<longleftrightarrow> s \<in> set vs"
  by (induction vs) auto

lemma dispatch_body: "dispatch nxt ctx (r\<lparr>rBody := b\<rparr>) n ex hedge (Some bs) w = dispatch nxt ctx r n ex hedge (Some bs) w"
  by (simp add: dispatch_def)

text \<open>A body that fits the replay buffer, with what the buffer then holds.\<close>

definition replayable :: "int \<Rightarrow> http_request \<Rightarrow> string option \<Rightarrow> bool" where
  "replayable m r buf \<longleftrightarrow>
     (case rBody r of
        NoBody \<Rightarrow> buf = None
      | Bytes bs \<Rightarrow> buf = Some bs \<and> int (length bs) \<le> m \<and> 0 < m \<and> m < max_int64
      | _ \<Rightarrow> False)"

lemma s64_Suc: "0 < m \<Longrightarrow> m < max_int64 \<Longrightarrow> s64 (m + 1) = m + 1"
  by (rule s64_id) (simp add: in64_def)

lemma bufferReplayBody_replayable:
  "replayable m r buf \<Longrightarrow> bufferReplayBody r m = (buf, False, if buf = None then r else r\<lparr>rBody := ClosedBody\<rparr>)"
  by (auto simp: replayable_def bufferReplayBody_def read_limited_def s64_Suc nat_add_distrib split: body.splits)

lemma attempt_trace_body:
  assumes "attempt_trace nxt ctx (r\<lparr>rBody := b\<rparr>) (Some bs) w rs w'"
  shows "attempt_trace nxt ctx r (Some bs) w rs w'"
  using assms
proof (induction rule: attempt_trace.induct)
  case (trace_snoc rs w1 res w2)
  then show ?case by (auto simp: dispatch_body intro: attempt_trace.trace_snoc)
qed (rule trace_nil)

lemma Retry_trace:
  assumes "replayable (rtMaxReplayableBody rcfg) r buf" and "rMethod r \<in> set (rtRetryMethods rcfg)" and "rtHedgeAfter rcfg \<le> 0"
    and "Retry sched rcfg nxt ctx r w = (rn, w')"
  shows "rnEnding rn = Returned \<and>
    (\<exists>rs res. attempt_trace nxt ctx r buf w (rs @ [res]) w' \<and> rnCalls rn = flushTo (arRec res) \<and>
      int (length (rs @ [res])) \<le> max 1 (rtMaxAttempts rcfg) \<and> (\<forall>a \<in> set rs. shouldRetry rcfg a) \<and>
      (shouldRetry rcfg res \<longrightarrow> int (length (rs @ [res])) = max 1 (rtMaxAttempts rcfg)))"
proof -
  define c where "c = (if rtMaxAttempts rcfg < 1 then rcfg\<lparr>rtMaxAttempts := 1\<rparr> else rcfg)"
  define r' where "r' = (if buf = None then r else r\<lparr>rBody := ClosedBody\<rparr>)"
  have c: "rtRetryMethods c = rtRetryMethods rcfg" "rtHedgeAfter c = rtHedgeAfter rcfg" "rtMaxReplayableBody c = rtMaxReplayableBody rcfg"
    "rtMaxAttempts c = max 1 (rtMaxAttempts rcfg)" "shouldRetry c = shouldRetry rcfg"
    by (auto simp: c_def shouldRetry_def)
  obtain calls where s: "serveSequential nxt c ctx r' buf (rtMaxAttempts c) (int (length ([] :: attempt_result list)) + 1) (chosen_of []) w = (calls, w')" "rnCalls rn = calls"
    "rnEnding rn = Returned"
    using assms(2,3,4) bufferReplayBody_replayable [OF assms(1)]
    by (auto simp: Retry_def c_def [symmetric] retry_ServeHTTP_def c(1-3) r'_def chosen_of_def split: prod.splits)
  have "int (length ([] :: attempt_result list)) < rtMaxAttempts c" by (simp add: c(4))
  from serveSequential_trace [OF trace_nil this _ s(1)] obtain rs res where
    t: "attempt_trace nxt ctx r' buf w (rs @ [res]) w'" "calls = flushTo (arRec res)" "int (length (rs @ [res])) \<le> rtMaxAttempts c"
      "\<forall>a \<in> set rs. shouldRetry c a" "shouldRetry c res \<longrightarrow> int (length (rs @ [res])) = rtMaxAttempts c"
    by auto
  have "attempt_trace nxt ctx r buf w (rs @ [res]) w'"
    using t(1) attempt_trace_body by (cases buf) (auto simp: r'_def)
  with t s(2,3) show ?thesis unfolding c by blast
qed

section \<open>Properties\<close>


definition answering :: "int \<Rightarrow> handler" where
  "answering code ctx r w = (\<lparr>rnCalls = [WriteHeader code, Write ''x''], rnEnding = Returned, rnChosen = Some 7, rnErr = None\<rparr>, w)"

definition sample_retry :: retry_mw where
  "sample_retry = \<lparr>rtMaxAttempts = 3, rtRetryMethods = [''GET''], rtRetryOn = [503], rtMaxReplayableBody = 64, rtHedgeAfter = 0,
     rtHedgeAfterPercentile = 0, rtHedgeableMethods = []\<rparr>"

lemma trace_answering:
  assumes "attempt_trace (answering code) ctx r buf w rs w'"
  shows "\<forall>a \<in> set rs. arRec a = fold br_step [WriteHeader code, Write ''x''] newBufferedResponse \<and> aoErr (arOutcome a) = None"
  using assms by (induction rule: attempt_trace.induct) (auto simp: dispatch_def answering_def Let_def)


text \<open>
  A request that needs no retry is not changed by the middleware: when the first attempt returns a
  status that is not retryable, without an error, the inner handler runs exactly once and the client
  sees the status and the body it wrote.
\<close>

theorem retry_transparent:
  assumes "rBody r = NoBody" and "rtHedgeAfter rcfg \<le> 0"
    and "nxt (attempt_ctx ctx \<lparr>aiNumber = 1, aiExclude = [], aiIsHedge = False\<rparr>) r w = (rn, w1)"
    and "rnEnding rn = Returned" and "rnErr rn = None" and "list_all final_call (rnCalls rn)"
    and "status_of (respond (rnCalls rn) new_response) \<notin> set (rtRetryOn rcfg)" and "0 \<notin> set (rtRetryOn rcfg)"
    and "Retry sched rcfg nxt ctx r w = (rn', w')"
  shows "w' = w1 \<and> rnEnding rn' = Returned \<and>
    status_of (respond (rnCalls rn') new_response) = status_of (respond (rnCalls rn) new_response) \<and>
    wBody (respond (rnCalls rn') new_response) = wBody (respond (rnCalls rn) new_response)"
proof -
  define c where "c = (if rtMaxAttempts rcfg < 1 then rcfg\<lparr>rtMaxAttempts := 1\<rparr> else rcfg)"
  have c: "rtHedgeAfter c = rtHedgeAfter rcfg" "1 \<le> rtMaxAttempts c" "shouldRetry c = shouldRetry rcfg"
    by (auto simp: c_def shouldRetry_def)
  define b where "b = fold br_step (rnCalls rn) newBufferedResponse"
  define res where "res = \<lparr>arRec = b, arOutcome = \<lparr>aoChosen = rnChosen rn, aoErr = None\<rparr>\<rparr>"
  have d: "dispatch nxt ctx r 1 [] False None w = (res, w1)"
    using assms(3-5) by (simp add: dispatch_def res_def b_def Let_def)
  have "br_rel newBufferedResponse new_response"
    by (simp add: br_rel_def newBufferedResponse_def new_response_def)
  from br_rel_fold [OF this assms(6)] have "brStatusCode b = 0 \<or> brStatusCode b = status_of (respond (rnCalls rn) new_response)"
    by (auto simp: br_rel_def b_def)
  then have n: "\<not> shouldRetry rcfg res" using assms(7,8) by (auto simp: shouldRetry_def res_def)
  have "serveSequential nxt c ctx r None mx 1 [] w = (flushTo b, w1)" if "1 \<le> mx" for mx
    using that d n by (subst serveSequential.simps) (simp add: c(3), simp add: res_def)
  moreover have "bufferReplayBody r m = (None, False, r)" for m using assms(1) by (simp add: bufferReplayBody_def)
  ultimately have "rn' = \<lparr>rnCalls = flushTo b, rnEnding = Returned, rnChosen = None, rnErr = None\<rparr> \<and> w' = w1"
    using assms(2,9) c(1,2) by (auto simp: Retry_def c_def [symmetric] retry_ServeHTTP_def split: prod.splits if_splits)
  then show ?thesis using buffered_response_faithful [OF assms(6)] by (simp add: b_def)
qed

theorem retry_transparent_witness:
  "status_of (respond (rnCalls (fst (Retry (\<lambda>_. PrimaryInTime) sample_retry (answering 404) background (sample_request []) sample_world))) new_response) = 404"
proof -
  obtain rn w' where run: "Retry (\<lambda>_. PrimaryInTime) sample_retry (answering 404) background (sample_request []) sample_world = (rn, w')"
    by fastforce
  have st: "status_of (respond [WriteHeader 404, Write ''x''] new_response) = 404" by code_simp
  have req: "rBody (sample_request []) = NoBody" by (simp add: sample_request_def)
  have cfg: "rtHedgeAfter sample_retry \<le> 0" "rtRetryOn sample_retry = [503]" by (simp_all add: sample_retry_def)
  show ?thesis using retry_transparent [OF req cfg(1) answering_def _ _ _ _ _ run] st run by (simp add: cfg del: respond_simps)
qed

text \<open>
  The replay buffer loses body bytes. A body longer than \<^verbatim>\<open>MaxReplayableBody\<close> is not retried, but
  what is forwarded is only its first \<^verbatim>\<open>MaxReplayableBody + 1\<close> bytes: the whole middleware cannot tell
  the request from the truncated one. With a limit of zero or less the body is closed unread, so
  all non-empty bodies are treated alike.
\<close>

theorem replay_buffer_loses_body:
  "(0 < rtMaxReplayableBody rcfg \<and> rtMaxReplayableBody rcfg < max_int64 \<and> rtMaxReplayableBody rcfg < int (length bs) \<longrightarrow>
   Retry sched rcfg nxt ctx (r\<lparr>rBody := Bytes bs\<rparr>) w =
     Retry sched rcfg nxt ctx (r\<lparr>rBody := Bytes (take (nat (rtMaxReplayableBody rcfg) + 1) bs)\<rparr>) w) \<and>
   (rtMaxReplayableBody rcfg \<le> 0 \<longrightarrow>
   Retry sched rcfg nxt ctx (r\<lparr>rBody := Bytes bs\<rparr>) w = Retry sched rcfg nxt ctx (r\<lparr>rBody := Bytes cs\<rparr>) w)"
  by (auto simp: Retry_def retry_ServeHTTP_def bufferReplayBody_def read_limited_def s64_Suc nat_add_distrib fun_eq_iff Let_def min_def)

theorem replay_buffer_loses_body_witness:
  "Retry (\<lambda>_. PrimaryInTime) (sample_retry\<lparr>rtMaxReplayableBody := 2\<rparr>) (answering 200) background ((sample_request [])\<lparr>rBody := Bytes ''hello''\<rparr>) sample_world =
   Retry (\<lambda>_. PrimaryInTime) (sample_retry\<lparr>rtMaxReplayableBody := 2\<rparr>) (answering 200) background ((sample_request [])\<lparr>rBody := Bytes ''hel''\<rparr>) sample_world"
proof -
  have "take (nat 2 + 1) ''hello'' = ''hel''" by simp
  then show ?thesis
    using replay_buffer_loses_body [of "sample_retry\<lparr>rtMaxReplayableBody := 2\<rparr>" "''hello''"]
    by (simp del: take_Suc_Cons)
qed

end
