(* ===== verification/Proxy.thy ===== *)
theory Proxy
  imports Retry
begin

text \<open>
  The terminal handler of every route, \<^verbatim>\<open>internal/upstream/proxy.go\<close> and \<^verbatim>\<open>internal/upstream/websocket.go\<close>: pick an
  upstream, reserve a slot of its breaker, forward the request, report the outcome, copy the response.
  What the \<^verbatim>\<open>http.RoundTripper\<close> and the sockets of a WebSocket session do is an argument
  (\<open>pxTransport\<close>, \<open>pxSockets\<close>): it says what came back, how long it took and the state of the request's
  context then. \<^verbatim>\<open>ServeHTTP\<close> is composed of the parts \<open>admit\<close>, \<open>enter\<close>, \<open>settle\<close> and \<open>leave\<close>; the relation
  \<open>px_step\<close> interleaves these parts for any number of requests. Spans and metrics are not modelled, and
  writes to the client do not fail. Case-insensitive comparison is on ASCII.
\<close>

section \<open>Requests and responses\<close>

definition equal_fold :: "string \<Rightarrow> string \<Rightarrow> bool" where
  "equal_fold a b \<longleftrightarrow> to_lower a = to_lower b"

definition isWebSocketUpgrade :: "http_request \<Rightarrow> bool" where
  "isWebSocketUpgrade r =
     (if rMethod r \<noteq> ''GET'' then False
      else if \<not> equal_fold (hdr_get (rHeader r) ''Upgrade'') ''websocket'' then False
      else list_ex (\<lambda>c. equal_fold (trim_space c) ''upgrade'') (split_on (CHR '','') (hdr_get (rHeader r) ''Connection'')))"

definition buildUpstreamRequest :: "http_request \<Rightarrow> upstream \<Rightarrow> http_request" where
  "buildUpstreamRequest r u =
     (let req = r\<lparr>rURLScheme := uScheme (uURL u), rURLHost := uHost (uURL u)\<rparr>;
          req' = (if uPath (uURL u) \<noteq> [] \<and> uPath (uURL u) \<noteq> ''/'' then req\<lparr>rPath := uPath (uURL u) @ rPath req\<rparr> else req)
      in req'\<lparr>rHost := uHost (uURL u)\<rparr>)"

text \<open>
  An upstream's response: the body as the non-empty pieces that successive reads deliver; the names of
  the trailers known when the header has arrived and, after the body, the trailers, both in the order
  in which the maps are iterated.
\<close>

record up_response =
  urStatus :: int
  urHeader :: header
  urChunks :: "string list"
  urTrailerNames :: "string list"
  urTrailer :: "(string \<times> string list) list"

definition announceTrailers :: "up_response \<Rightarrow> wcall list" where
  "announceTrailers resp =
     map (HAdd ''Trailer'') (filter (\<lambda>k. k \<noteq> []) (map trim_space (split_on (CHR '','') (hdr_get (urHeader resp) ''Trailer'')))) @
     map (HAdd ''Trailer'') (urTrailerNames resp)"

definition copyResponse :: "bool \<Rightarrow> up_response \<Rightarrow> wcall list" where
  "copyResponse flusher resp =
     HPutAll (urHeader resp) # announceTrailers resp @ WriteHeader (urStatus resp) #
     concat (map (\<lambda>b. Write b # (if flusher then [Flush] else [])) (urChunks resp)) @
     concat (map (\<lambda>(k, vs). map (HAdd (''Trailer:'' @ k)) vs) (urTrailer resp))"

definition writeError :: "int \<Rightarrow> string \<Rightarrow> wcall list" where
  "writeError code msg =
     [HSet ''Content-Type'' ''text/plain; charset=utf-8'', HSet ''X-Content-Type-Options'' ''nosniff'', WriteHeader code,
      Write (msg @ [CHR 0x0A])]"

definition newline :: string where
  "newline = [CHR 0x0D, CHR 0x0A]"

text \<open>The second argument is \<^verbatim>\<open>http.StatusText(status)\<close>.\<close>

definition writeRawError :: "int \<Rightarrow> string \<Rightarrow> string" where
  "writeRawError status statusText =
     ''HTTP/1.1 '' @ itoa status @ '' '' @ statusText @ newline @
     ''Content-Type: text/plain; charset=utf-8'' @ newline @
     ''Content-Length: '' @ itoa (int (length statusText) + 1) @ newline @
     ''Connection: close'' @ newline @ newline @ statusText @ [CHR 0x0A]"

definition dial_addr :: "upstream \<Rightarrow> string" where
  "dial_addr u =
     (let addr = uHost (uURL u)
      in if List.member addr (CHR '':'') then addr
         else if uScheme (uURL u) = ''https'' \<or> uScheme (uURL u) = ''wss'' then addr @ '':443'' else addr @ '':80'')"

definition dials_tls :: "upstream \<Rightarrow> bool" where
  "dials_tls u \<longleftrightarrow> uScheme (uURL u) = ''https'' \<or> uScheme (uURL u) = ''wss''"

section \<open>The proxy\<close>

datatype ctx_error = Canceled | DeadlineExceeded

datatype rt_result = RTError string | RTResponse up_response

record round_trip =
  teResult :: rt_result
  teElapsed :: duration
  teCtxErr :: "ctx_error option"

text \<open>
  What the sockets of a WebSocket request do: whether \<^verbatim>\<open>Hijack\<close>, the dial (with its TLS handshake) and the
  write of the request succeed, the status of the upstream's answer if one was read, whether it could
  be relayed, and how long the session lasted.
\<close>

record ws_io =
  wsHijacked :: bool
  wsDial :: "string \<Rightarrow> bool \<Rightarrow> bool"
  wsWritten :: bool
  wsAnswer :: "int option"
  wsRelayed :: bool
  wsElapsed :: duration

record proxy =
  pxPoolName :: string
  pxSelector :: nat
  pxTransport :: "http_request \<Rightarrow> world \<Rightarrow> round_trip"
  pxSockets :: "http_request \<Rightarrow> world \<Rightarrow> ws_io"
  pxPassive :: "(uid \<Rightarrow> duration \<Rightarrow> bool \<Rightarrow> world \<Rightarrow> world) option"

definition update_upstream :: "uid \<Rightarrow> (upstream \<Rightarrow> upstream) \<Rightarrow> world \<Rightarrow> world" where
  "update_upstream u f w = w\<lparr>wUpstreams := (wUpstreams w)(u := f (wUpstreams w u))\<rparr>"

definition add_inflight :: "int \<Rightarrow> upstream \<Rightarrow> upstream" where
  "add_inflight d u = u\<lparr>uInFlight := s64 (uInFlight u + d)\<rparr>"

definition record_breaker :: "time \<Rightarrow> breaker_outcome \<Rightarrow> upstream \<Rightarrow> upstream" where
  "record_breaker now oc u = u\<lparr>uBreaker := brk_Record now now oc (uBreaker u)\<rparr>"

definition proxy_pick :: "proxy \<Rightarrow> reqctx \<Rightarrow> http_request \<Rightarrow> world \<Rightarrow> pick_result \<times> world" where
  "proxy_pick p ctx r w =
     (let draw = wDraws w (wDrawn w);
          e = \<lparr>peRequest = r, peDraw = fst draw, pePair = snd draw\<rparr>;
          (res, s, h) = sel_Pick e (wClock w) (aiExclude (AttemptFromContext ctx)) (wSelectors w (pxSelector p)) (wUpstreams w)
      in (res, w\<lparr>wSelectors := (wSelectors w)(pxSelector p := s), wUpstreams := h, wDrawn := wDrawn w + 1\<rparr>))"

definition reserve :: "uid \<Rightarrow> world \<Rightarrow> bool \<times> world" where
  "reserve u w =
     (let (ok, b) = brk_Reserve (wClock w) (uBreaker (wUpstreams w u)) in (ok, update_upstream u (\<lambda>up. up\<lparr>uBreaker := b\<rparr>) w))"

definition enter :: "uid \<Rightarrow> world \<Rightarrow> world" where
  "enter u w = update_upstream u (add_inflight 1) w"

definition leave :: "uid \<Rightarrow> world \<Rightarrow> world" where
  "leave u w = update_upstream u (add_inflight (- 1)) w"

definition passive_call :: "proxy \<Rightarrow> uid \<Rightarrow> duration \<Rightarrow> bool \<Rightarrow> world \<Rightarrow> world" where
  "passive_call p u latency isError w = (case pxPassive p of None \<Rightarrow> w | Some f \<Rightarrow> f u latency isError w)"

definition ctx_error_of :: "reqctx \<Rightarrow> round_trip \<Rightarrow> ctx_error option" where
  "ctx_error_of ctx t = (if cCancelled ctx then Some Canceled else teCtxErr t)"

text \<open>From the return of \<^verbatim>\<open>RoundTrip\<close> to the end: report, answer. \<open>start\<close> is the clock reading at the request's start.\<close>

definition settle ::
  "proxy \<Rightarrow> reqctx \<Rightarrow> uid \<Rightarrow> time \<Rightarrow> round_trip \<Rightarrow> world \<Rightarrow> (wcall list \<times> string option) \<times> world" where
  "settle p ctx u start t w =
     (let latency = time_sub (wClock w) start
      in case teResult t of
           RTError msg \<Rightarrow>
             let ctxErr = ctx_error_of ctx t;
                 canceled = (ctxErr \<noteq> None);
                 timedOut = (ctxErr = Some DeadlineExceeded);
                 w1 = update_upstream u (record_breaker (wClock w) (if canceled then OutcomeCancellation else OutcomeFailure)) w;
                 w2 = (if \<not> canceled then passive_call p u latency True w1 else w1)
             in ((if timedOut then writeError 504 ''gateway timeout'' else writeError 502 ''upstream error'', Some msg), w2)
         | RTResponse resp \<Rightarrow>
             let isUpstreamErr = (urStatus resp \<ge> 500);
                 w1 = update_upstream u (record_breaker (wClock w) (if isUpstreamErr then OutcomeFailure else OutcomeSuccess)) w;
                 w2 = passive_call p u latency isUpstreamErr w1
             in ((copyResponse (cFlusher ctx) resp, None), w2))"

definition serveWebSocket :: "proxy \<Rightarrow> reqctx \<Rightarrow> http_request \<Rightarrow> uid \<Rightarrow> world \<Rightarrow> wcall list \<times> string \<times> world" where
  "serveWebSocket p ctx r u w =
     (let io = pxSockets p r w; up = wUpstreams w u
      in if \<not> cHijacker ctx then (writeError 500 ''websocket: hijack unsupported'', [], w)
         else if \<not> wsHijacked io then (writeError 500 ''websocket: hijack failed'', [], w)
         else if \<not> wsDial io (dial_addr up) (dials_tls up) then ([], writeRawError 502 ''Bad Gateway'', w)
         else if \<not> wsWritten io then ([], writeRawError 502 ''Bad Gateway'', w)
         else (case wsAnswer io of
                 None \<Rightarrow> ([], writeRawError 502 ''Bad Gateway'', w)
               | Some status \<Rightarrow>
                   if \<not> wsRelayed io then ([], [], w)
                   else if status \<noteq> 101 then ([], [], w)
                   else let w1 = update_upstream u (record_breaker (wClock w) OutcomeSuccess) w;
                            w2 = (enter u w1)\<lparr>wClock := wClock w1 + wsElapsed io\<rparr>
                        in ([], [], leave u w2)))"

definition finish_run :: "reqctx \<Rightarrow> wcall list \<Rightarrow> uid option \<Rightarrow> string option \<Rightarrow> run" where
  "finish_run ctx calls chosen err =
     \<lparr>rnCalls = calls, rnEnding = Returned, rnChosen = (if cHasOutcome ctx then chosen else None),
      rnErr = (if cHasOutcome ctx then err else None)\<rparr>"

definition proxy_ServeHTTP :: "proxy \<Rightarrow> handler" where
  "proxy_ServeHTTP p ctx r w =
     (let start = wClock w; (picked, w1) = proxy_pick p ctx r w
      in case picked of
           NoEligibleUpstream \<Rightarrow> (finish_run ctx (writeError 503 ''no eligible upstream'') None (Some ''no eligible upstream''), w1)
         | PickPanic \<Rightarrow> ((finish_run ctx [] None None)\<lparr>rnEnding := Panicked ''selector''\<rparr>, w1)
         | PickedNil \<Rightarrow> ((finish_run ctx [] None None)\<lparr>rnEnding := Panicked ''nil pointer dereference''\<rparr>, w1)
         | Picked u \<Rightarrow>
             let (ok, w2) = reserve u w1
             in if \<not> ok then (finish_run ctx (writeError 503 ''upstream breaker open'') (Some u) None, w2)
                else if isWebSocketUpgrade r
                then let (calls, raw, w3) = serveWebSocket p ctx r u w2 in (finish_run ctx calls (Some u) None, w3)
                else
                  let w3 = enter u w2;
                      t = pxTransport p (buildUpstreamRequest r (wUpstreams w3 u)) w3;
                      w4 = w3\<lparr>wClock := wClock w3 + teElapsed t\<rparr>;
                      ((calls, err), w5) = settle p ctx u start t w4
                  in (finish_run ctx calls (Some u) err, leave u w5))"

section \<open>What one request does\<close>

lemma update_upstream_frame [simp]:
  "wClock (update_upstream u f w) = wClock w" "wSelectors (update_upstream u f w) = wSelectors w"
  "wMonitors (update_upstream u f w) = wMonitors w" "wUpstreams (update_upstream u f w) u = f (wUpstreams w u)"
  "v \<noteq> u \<Longrightarrow> wUpstreams (update_upstream u f w) v = wUpstreams w v"
  by (simp_all add: update_upstream_def)

lemma add_inflight_frame [simp]:
  "uBreaker (add_inflight d u) = uBreaker u" "uURL (add_inflight d u) = uURL u" "uInFlight (add_inflight d u) = s64 (uInFlight u + d)"
  by (simp_all add: add_inflight_def)

lemma record_breaker_frame [simp]:
  "uBreaker (record_breaker now oc u) = brk_Record now now oc (uBreaker u)" "uURL (record_breaker now oc u) = uURL u"
  "uInFlight (record_breaker now oc u) = uInFlight u"
  by (simp_all add: record_breaker_def)

lemma s64_add: "s64 (s64 x + y) = s64 (x + y)"
  by (simp add: s64_def mod_simps algebra_simps)

lemma s64_cancel: "in64 x \<Longrightarrow> s64 (s64 (x + 1) + - 1) = x"
  unfolding s64_add by (simp add: s64_id)

lemma proxy_pick_heap: "wUpstreams (snd (proxy_pick p ctx r w)) = look_pool (wClock w) (sel_pool (wSelectors w (pxSelector p))) (wUpstreams w)"
  using sel.writes [of _ "wClock w" "aiExclude (AttemptFromContext ctx)" "wSelectors w (pxSelector p)" "wUpstreams w"]
  by (simp add: proxy_pick_def Let_def case_prod_beta)

lemma proxy_pick_clock [simp]: "wClock (snd (proxy_pick p ctx r w)) = wClock w"
  by (simp add: proxy_pick_def Let_def case_prod_beta)

lemma proxy_pick_sound:
  assumes "fst (proxy_pick p ctx r w) = Picked u"
  shows "u \<in> set (sel_pool (wSelectors w (pxSelector p))) \<and> u \<notin> set (aiExclude (AttemptFromContext ctx)) \<and> uEligible (wUpstreams w u)"
  using assms sel.picked_healthy [of _ "wClock w" "aiExclude (AttemptFromContext ctx)" "wSelectors w (pxSelector p)" "wUpstreams w" u]
  by (simp add: proxy_pick_def Let_def case_prod_beta)

text \<open>What the passive recorder may change: health scores and eligibility, nothing the proxy accounts for.\<close>

locale passive_recorder =
  fixes f :: "uid \<Rightarrow> duration \<Rightarrow> bool \<Rightarrow> world \<Rightarrow> world"
  assumes keeps_clock: "wClock (f u l e w) = wClock w"
    and keeps_selectors: "wSelectors (f u l e w) = wSelectors w"
    and keeps_inflight: "uInFlight (wUpstreams (f u l e w) v) = uInFlight (wUpstreams w v)"
    and keeps_breaker: "uBreaker (wUpstreams (f u l e w) v) = uBreaker (wUpstreams w v)"
    and keeps_url: "uURL (wUpstreams (f u l e w) v) = uURL (wUpstreams w v)"

text \<open>The recorder the program installs: \<^verbatim>\<open>RecordOutcome\<close> of the monitor of pool \<open>k\<close>.\<close>

definition monitor_recorder :: "(float64 \<Rightarrow> float64) \<Rightarrow> nat \<Rightarrow> uid \<Rightarrow> duration \<Rightarrow> bool \<Rightarrow> world \<Rightarrow> world" where
  "monitor_recorder mexp k u latency isError w =
     (let (m, h, ts) = mon_RecordOutcome mexp (wClock w) u latency isError (wMonitors w k) (wUpstreams w)
      in w\<lparr>wMonitors := (wMonitors w)(k := m), wUpstreams := h\<rparr>)"

lemma RecordOutcome_frame:
  assumes "mon_RecordOutcome mexp now u l e mo h = (mo', h', ts)"
  shows "uInFlight (h' v) = uInFlight (h v)" "uBreaker (h' v) = uBreaker (h v)" "uURL (h' v) = uURL (h v)"
  using assms by (auto simp: mon_RecordOutcome_def Let_def split: option.splits if_splits)

interpretation mon: passive_recorder "monitor_recorder mexp k" for mexp k
  by unfold_locales (auto simp: monitor_recorder_def RecordOutcome_frame split: prod.split)

definition recorder_ok :: "proxy \<Rightarrow> bool" where
  "recorder_ok p \<longleftrightarrow> (\<forall>f. pxPassive p = Some f \<longrightarrow> passive_recorder f)"

lemma passive_call_frame:
  assumes "recorder_ok p"
  shows "wClock (passive_call p u l e w) = wClock w" "wSelectors (passive_call p u l e w) = wSelectors w"
    "uInFlight (wUpstreams (passive_call p u l e w) v) = uInFlight (wUpstreams w v)"
    "uBreaker (wUpstreams (passive_call p u l e w) v) = uBreaker (wUpstreams w v)"
  using assms by (auto simp: passive_call_def recorder_ok_def passive_recorder_def split: option.splits)

text \<open>The verdict on the upstream and the status for the client, by what \<^verbatim>\<open>RoundTrip\<close> returned.\<close>

definition verdict :: "reqctx \<Rightarrow> round_trip \<Rightarrow> breaker_outcome" where
  "verdict ctx t =
     (case teResult t of
        RTError _ \<Rightarrow> if ctx_error_of ctx t = None then OutcomeFailure else OutcomeCancellation
      | RTResponse resp \<Rightarrow> if urStatus resp \<ge> 500 then OutcomeFailure else OutcomeSuccess)"

definition client_status :: "reqctx \<Rightarrow> round_trip \<Rightarrow> int" where
  "client_status ctx t =
     (case teResult t of
        RTError _ \<Rightarrow> if ctx_error_of ctx t = Some DeadlineExceeded then 504 else 502
      | RTResponse resp \<Rightarrow> urStatus resp)"

lemma settle_frame:
  assumes "recorder_ok p" and "settle p ctx u start t w = (res, w')"
  shows "wClock w' = wClock w" "wSelectors w' = wSelectors w" "uInFlight (wUpstreams w' v) = uInFlight (wUpstreams w v)"
    "uBreaker (wUpstreams w' v) =
       (if v = u then brk_Record (wClock w) (wClock w) (verdict ctx t) (uBreaker (wUpstreams w v)) else uBreaker (wUpstreams w v))"
proof -
  let ?b = "\<lambda>v. if v = u then brk_Record (wClock w) (wClock w) (verdict ctx t) (uBreaker (wUpstreams w v)) else uBreaker (wUpstreams w v)"
  have "wClock w' = wClock w \<and> wSelectors w' = wSelectors w \<and> uInFlight (wUpstreams w' v) = uInFlight (wUpstreams w v) \<and> uBreaker (wUpstreams w' v) = ?b v"
  proof (cases "teResult t")
    case (RTError msg)
    then show ?thesis using assms by (auto simp: settle_def verdict_def Let_def passive_call_frame)
  next
    case (RTResponse resp)
    then show ?thesis using assms by (auto simp: settle_def verdict_def Let_def passive_call_frame)
  qed
  then show "wClock w' = wClock w" "wSelectors w' = wSelectors w" "uInFlight (wUpstreams w' v) = uInFlight (wUpstreams w v)"
    "uBreaker (wUpstreams w' v) = ?b v" by simp_all
qed

lemma writeError_status: "200 \<le> code \<Longrightarrow> status_of (respond (writeError code msg) new_response) = code"
  by (simp add: writeError_def new_response_def commit_status_def status_of_def informational_def Let_def)

lemma respond_hdr_calls:
  "\<forall>c \<in> set cs. \<exists>k v. c = HAdd k v \<Longrightarrow> wCommitted (respond cs r) = wCommitted r \<and> wBody (respond cs r) = wBody r"
  by (induction cs arbitrary: r) auto

lemma respond_chunks:
  "wCommitted r = Some ch \<Longrightarrow> wCommitted (respond (concat (map (\<lambda>b. Write b # (if fl then [Flush] else [])) bs)) r) = Some ch \<and>
   wBody (respond (concat (map (\<lambda>b. Write b # (if fl then [Flush] else [])) bs)) r) = wBody r @ concat bs"
  by (induction bs arbitrary: r) (auto simp: commit_status_def Let_def)

lemma copyResponse_respond:
  assumes "200 \<le> urStatus resp"
  shows "status_of (respond (copyResponse fl resp) new_response) = urStatus resp"
    and "wBody (respond (copyResponse fl resp) new_response) = concat (urChunks resp)"
proof -
  let ?tr = "concat (map (\<lambda>(k, vs). map (HAdd (''Trailer:'' @ k)) vs) (urTrailer resp))"
  define r1 where "r1 = respond (announceTrailers resp) (new_response\<lparr>wHeader := Map.empty ++ urHeader resp\<rparr>)"
  have r1: "wCommitted r1 = None" "wBody r1 = []"
    unfolding r1_def by (subst respond_hdr_calls; auto simp: announceTrailers_def new_response_def)+
  define r2 where "r2 = base_step (WriteHeader (urStatus resp)) r1"
  have r2: "wCommitted r2 = Some (urStatus resp, wHeader r1)" "wBody r2 = []"
    using r1 assms by (simp_all add: r2_def commit_status_def informational_def)
  have tr: "\<forall>c \<in> set ?tr. \<exists>k v. c = HAdd k v" by auto
  have eq: "respond (copyResponse fl resp) new_response =
      respond ?tr (respond (concat (map (\<lambda>b. Write b # (if fl then [Flush] else [])) (urChunks resp))) r2)"
    by (simp add: copyResponse_def r2_def r1_def new_response_def)
  show "status_of (respond (copyResponse fl resp) new_response) = urStatus resp"
    and "wBody (respond (copyResponse fl resp) new_response) = concat (urChunks resp)"
    using respond_hdr_calls [OF tr] respond_chunks [OF r2(1), of fl "urChunks resp"] r2(2)
    unfolding eq by (simp_all add: status_of_def)
qed

lemma settle_status:
  assumes "200 \<le> client_status ctx t" and "settle p ctx u start t w = ((calls, err), w')"
  shows "status_of (respond calls new_response) = client_status ctx t"
  using assms by (auto simp: settle_def client_status_def Let_def writeError_status copyResponse_respond split: rt_result.splits if_splits)

lemma reserve_after_look:
  "uEligible up \<Longrightarrow> brk_Reserve now (uBreaker (looked now up)) = brk_Reserve now (uBreaker up)"
  by (simp add: looked_def brk_Reserve_def)

lemma reserved_breaker:
  assumes "fst (proxy_pick p ctx r w) = Picked u" and "reserve u (snd (proxy_pick p ctx r w)) = (ok, w2)"
  shows "ok = fst (brk_Reserve (wClock w) (uBreaker (wUpstreams w u)))"
    and "uBreaker (wUpstreams w2 u) = snd (brk_Reserve (wClock w) (uBreaker (wUpstreams w u)))"
    and "wClock w2 = wClock w" and "uInFlight (wUpstreams w2 v) = uInFlight (wUpstreams w v)"
    and "wSelectors w2 = wSelectors (snd (proxy_pick p ctx r w))"
    and "v \<noteq> u \<Longrightarrow> wUpstreams w2 v = look_pool (wClock w) (sel_pool (wSelectors w (pxSelector p))) (wUpstreams w) v"
proof -
  have u: "u \<in> set (sel_pool (wSelectors w (pxSelector p)))" "uEligible (wUpstreams w u)" using proxy_pick_sound [OF assms(1)] by auto
  then have b: "brk_Reserve (wClock w) (uBreaker (wUpstreams (snd (proxy_pick p ctx r w)) u)) = brk_Reserve (wClock w) (uBreaker (wUpstreams w u))"
    by (simp add: proxy_pick_heap look_pool_def reserve_after_look)
  show "ok = fst (brk_Reserve (wClock w) (uBreaker (wUpstreams w u)))"
    and "uBreaker (wUpstreams w2 u) = snd (brk_Reserve (wClock w) (uBreaker (wUpstreams w u)))" and "wClock w2 = wClock w"
    and "wSelectors w2 = wSelectors (snd (proxy_pick p ctx r w))"
    using assms(2) b by (auto simp: reserve_def split: prod.splits)
  show "uInFlight (wUpstreams w2 v) = uInFlight (wUpstreams w v)"
    using assms(2) by (cases "v = u") (auto simp: reserve_def proxy_pick_heap split: prod.splits)
  show "v \<noteq> u \<Longrightarrow> wUpstreams w2 v = look_pool (wClock w) (sel_pool (wSelectors w (pxSelector p))) (wUpstreams w) v"
    using assms(2) by (auto simp: reserve_def proxy_pick_heap split: prod.splits)
qed

section \<open>Requests in flight together\<close>

text \<open>
  Any number of requests in progress: \<open>M\<close> holds the upstream of every request that is between its
  \<^verbatim>\<open>InFlight.Add(1)\<close> and its deferred \<^verbatim>\<open>InFlight.Add(-1)\<close>. \<open>px_other\<close> is everything else in the process:
  the clock, health probes, other middlewares; only the proxy writes the counters.
\<close>

inductive px_step :: "proxy \<Rightarrow> world \<times> uid multiset \<Rightarrow> world \<times> uid multiset \<Rightarrow> bool" for p where
  px_refuse: "\<lbrakk> proxy_pick p ctx r w = (res, w1); \<forall>u. res \<noteq> Picked u \<rbrakk> \<Longrightarrow> px_step p (w, M) (w1, M)"
| px_busy: "\<lbrakk> proxy_pick p ctx r w = (Picked u, w1); reserve u w1 = (False, w2) \<rbrakk> \<Longrightarrow> px_step p (w, M) (w2, M)"
| px_start: "\<lbrakk> proxy_pick p ctx r w = (Picked u, w1); reserve u w1 = (True, w2) \<rbrakk> \<Longrightarrow> px_step p (w, M) (enter u w2, add_mset u M)"
| px_end: "\<lbrakk> u \<in># M; settle p ctx u start t w = (res, w1) \<rbrakk> \<Longrightarrow> px_step p (w, M) (leave u w1, M - {#u#})"
| px_other: "(\<And>u. uInFlight (wUpstreams w' u) = uInFlight (wUpstreams w u)) \<Longrightarrow> px_step p (w, M) (w', M)"

inductive_cases px_stepE: "px_step p (w, M) (w', M')"

definition inflight_balanced :: "(uid \<Rightarrow> int) \<Rightarrow> world \<times> uid multiset \<Rightarrow> bool" where
  "inflight_balanced base s \<longleftrightarrow> (\<forall>u. uInFlight (wUpstreams (fst s) u) = s64 (base u + int (count (snd s) u)))"

lemma enter_leave_inflight:
  "uInFlight (wUpstreams (enter u w) v) = (if v = u then s64 (uInFlight (wUpstreams w v) + 1) else uInFlight (wUpstreams w v))"
  "uInFlight (wUpstreams (leave u w) v) = (if v = u then s64 (uInFlight (wUpstreams w v) - 1) else uInFlight (wUpstreams w v))"
  by (auto simp: enter_def leave_def)

lemma proxy_pick_inflight: "proxy_pick p ctx r w = (res, w1) \<Longrightarrow> uInFlight (wUpstreams w1 v) = uInFlight (wUpstreams w v)"
  using proxy_pick_heap [of p ctx r w] by simp

lemma reserve_inflight: "reserve u w = (ok, w2) \<Longrightarrow> uInFlight (wUpstreams w2 v) = uInFlight (wUpstreams w v)"
  by (cases "v = u") (auto simp: reserve_def split: prod.splits)

lemma px_step_balanced:
  assumes "recorder_ok p" and "px_step p s s'" and "inflight_balanced base s"
  shows "inflight_balanced base s'"
  using assms(2,3)
proof cases
  case (px_end u M ctx start t w res w1)
  have "uInFlight (wUpstreams (leave u w1) v) = s64 (base v + int (count (M - {#u#}) v))" for v
  proof (cases "v = u")
    case True
    obtain n where n: "count M u = Suc n" using px_end(3) by (metis count_greater_zero_iff gr0_implies_Suc)
    have "uInFlight (wUpstreams w1 u) = s64 (base u + int (count M u))"
      using assms(3) px_end(1) settle_frame(3) [OF assms(1) px_end(4)] by (simp add: inflight_balanced_def)
    then show ?thesis using s64_add [of "base u + 1 + int n" "- 1"] True n by (simp add: enter_leave_inflight algebra_simps)
  next
    case False
    then show ?thesis using assms(3) px_end(1) settle_frame(3) [OF assms(1) px_end(4)] by (simp add: inflight_balanced_def enter_leave_inflight)
  qed
  then show ?thesis by (simp add: inflight_balanced_def px_end(2))
next
  case (px_start ctx r w u w1 w2 M)
  then have "uInFlight (wUpstreams w2 v) = s64 (base v + int (count M v))" for v
    using assms(3) proxy_pick_inflight [OF px_start(3)] reserve_inflight [OF px_start(4)] by (simp add: inflight_balanced_def)
  then show ?thesis using s64_add [of _ 1] by (simp add: inflight_balanced_def px_start(2) enter_leave_inflight add.commute add.left_commute)
qed (auto simp: inflight_balanced_def proxy_pick_inflight reserve_inflight)

lemma px_reach_balanced: "recorder_ok p \<Longrightarrow> (px_step p)\<^sup>*\<^sup>* s s' \<Longrightarrow> inflight_balanced base s \<Longrightarrow> inflight_balanced base s'"
  by (rotate_tac 1, induction rule: rtranclp_induct) (auto intro: px_step_balanced)

section \<open>Properties\<close>

text \<open>
  (C3) The in-flight counters are exact: in every state that any number of concurrent requests can
  reach from an idle proxy, in any interleaving, the counter of an upstream is the number of requests
  in progress on it. So the load that the selectors compare is the real one, and an idle proxy
  has all counters at zero again.
\<close>

theorem inflight_exact:
  assumes "recorder_ok p" and "(px_step p)\<^sup>*\<^sup>* (w0, {#}) (w, M)" and "\<And>u. uInFlight (wUpstreams w0 u) = 0" and "int (size M) < 2 ^ 63"
  shows "uInFlight (wUpstreams w u) = int (count M u)"
proof -
  have "inflight_balanced (\<lambda>_. 0) (w0, {#})" using assms(3) by (simp add: inflight_balanced_def s64_def)
  from px_reach_balanced [OF assms(1,2) this] have "uInFlight (wUpstreams w u) = s64 (int (count M u))" by (simp add: inflight_balanced_def)
  moreover have "in64 (int (count M u))" using assms(4) count_le_size [of M u] by (simp add: in64_def)
  ultimately show ?thesis by (simp add: s64_id)
qed

definition sample_proxy :: "rt_result \<Rightarrow> proxy" where
  "sample_proxy res = \<lparr>pxPoolName = ''pool'', pxSelector = 0,
     pxTransport = (\<lambda>_ _. \<lparr>teResult = res, teElapsed = 5, teCtxErr = None\<rparr>),
     pxSockets = (\<lambda>_ _. \<lparr>wsHijacked = True, wsDial = (\<lambda>_ _. True), wsWritten = True, wsAnswer = Some 101, wsRelayed = True, wsElapsed = 9\<rparr>),
     pxPassive = Some (monitor_recorder (\<lambda>_. 1) 0)\<rparr>"

lemma sample_recorder [simp]: "recorder_ok (sample_proxy res)"
  by (auto simp: recorder_ok_def sample_proxy_def intro: mon.passive_recorder_axioms)

lemma sample_pick: "fst (proxy_pick (sample_proxy res) ctx r sample_world) = (if 0 \<in> set (aiExclude (AttemptFromContext ctx)) then NoEligibleUpstream else Picked 0)"
  by (simp add: proxy_pick_def sample_proxy_def sample_world_def rr_Pick_def NewRoundRobin_def eligibleSet_eq candidates_def Let_def case_prod_beta)

lemma sample_reserve: "fst (brk_Reserve now (uBreaker (sample_upstream n wt))) = True"
  by (simp add: sample_upstream_def NewCircuitBreaker_def brk_Reserve_def)

lemma sample_start:
  "px_step (sample_proxy res) (sample_world, M)
     (enter 0 (snd (reserve 0 (snd (proxy_pick (sample_proxy res) background r sample_world)))), add_mset 0 M)"
proof -
  have p: "fst (proxy_pick (sample_proxy res) background r sample_world) = Picked 0"
    by (simp add: sample_pick background_def AttemptFromContext_def zero_attempt_def)
  obtain ok w2 where r: "reserve 0 (snd (proxy_pick (sample_proxy res) background r sample_world)) = (ok, w2)" by fastforce
  have "ok" using reserved_breaker(1) [OF p r] by (simp add: sample_world_def sample_reserve)
  with p r show ?thesis by (intro px_start [of _ background r]) (auto intro: prod_eqI)
qed

theorem inflight_exact_witness:
  "\<exists>w. (px_step (sample_proxy (RTError ''refused'')))\<^sup>*\<^sup>* (sample_world, {#}) (w, {#0#}) \<and> uInFlight (wUpstreams w 0) = 1"
proof -
  obtain w where s: "px_step (sample_proxy (RTError ''refused'')) (sample_world, {#}) (w, {#0#})" using sample_start by blast
  have "uInFlight (wUpstreams sample_world u) = 0" for u by (simp add: sample_world_def sample_upstream_def)
  with inflight_exact [OF sample_recorder r_into_rtranclp [of "px_step (sample_proxy (RTError ''refused''))", OF s], of 0] s
  show ?thesis by auto
qed



lemma proxy_selectors:
  assumes "recorder_ok p" and "proxy_ServeHTTP p ctx r w = (rn, w')"
  shows "sel_pool (wSelectors w' (pxSelector p)) = sel_pool (wSelectors w (pxSelector p))"
proof -
  have pk: "sel_pool (wSelectors (snd (proxy_pick p ctx r w)) (pxSelector p)) = sel_pool (wSelectors w (pxSelector p))"
    by (simp add: proxy_pick_def Let_def case_prod_beta sel.pool_fixed)
  have "wSelectors (snd (reserve u w1)) = wSelectors w1" for u w1 by (simp add: reserve_def case_prod_beta)
  moreover have "wSelectors (enter u w1) = wSelectors w1" "wSelectors (leave u w1) = wSelectors w1" for u w1
    by (simp_all add: enter_def leave_def)
  moreover have "wSelectors (snd (settle p ctx u st t w1)) = wSelectors w1" for u st t w1
    using settle_frame(2) [OF assms(1)] by (metis prod.collapse)
  moreover have "wSelectors (snd (snd (serveWebSocket p ctx r u w1))) = wSelectors w1" for u w1
    by (auto simp: serveWebSocket_def Let_def enter_def leave_def split: option.split)
  ultimately have "wSelectors (snd (proxy_ServeHTTP p ctx r w)) = wSelectors (snd (proxy_pick p ctx r w))"
    by (auto simp: proxy_ServeHTTP_def Let_def case_prod_beta split: pick_result.split)
  with pk assms(2) show ?thesis by simp
qed

lemma proxy_chosen:
  assumes "proxy_ServeHTTP p ctx r w = (rn, w')" and "rnChosen rn = Some u"
  shows "fst (proxy_pick p ctx r w) = Picked u"
  using assms by (auto simp: proxy_ServeHTTP_def finish_run_def Let_def split: pick_result.splits prod.splits if_splits)

lemma dispatch_proxy:
  assumes "recorder_ok p" and "dispatch (proxy_ServeHTTP p) ctx r n ex hg buf w = (res, w')"
  shows "sel_pool (wSelectors w' (pxSelector p)) = sel_pool (wSelectors w (pxSelector p))"
    and "aoChosen (arOutcome res) = Some u \<Longrightarrow> u \<in> set (sel_pool (wSelectors w (pxSelector p))) \<and> u \<notin> set ex"
proof -
  define actx where "actx = attempt_ctx ctx \<lparr>aiNumber = n, aiExclude = ex, aiIsHedge = hg\<rparr>"
  define req where "req = (case buf of None \<Rightarrow> r | Some b \<Rightarrow> r\<lparr>rBody := Bytes b\<rparr>)"
  obtain rn w1 where run: "proxy_ServeHTTP p actx req w = (rn, w1)" by fastforce
  have res: "w' = w1" "aoChosen (arOutcome res) = rnChosen rn"
    using assms(2) run by (auto simp: dispatch_def actx_def [symmetric] req_def [symmetric] Let_def split: ending.splits)
  show "sel_pool (wSelectors w' (pxSelector p)) = sel_pool (wSelectors w (pxSelector p))"
    using proxy_selectors [OF assms(1) run] res by simp
  have ex: "aiExclude (AttemptFromContext actx) = ex"
    by (simp add: actx_def attempt_ctx_def WithAttempt_def AttemptFromContext_def Let_def)
  show "u \<in> set (sel_pool (wSelectors w (pxSelector p))) \<and> u \<notin> set ex" if "aoChosen (arOutcome res) = Some u"
    using proxy_pick_sound [OF proxy_chosen [OF run]] that res(2) ex by auto
qed

lemma trace_fresh:
  assumes "recorder_ok p" and "attempt_trace (proxy_ServeHTTP p) ctx r buf w rs w'"
  shows "distinct (chosen_of rs) \<and> set (chosen_of rs) \<subseteq> set (sel_pool (wSelectors w (pxSelector p))) \<and>
    sel_pool (wSelectors w' (pxSelector p)) = sel_pool (wSelectors w (pxSelector p))"
  using assms(2)
proof (induction rule: attempt_trace.induct)
  case (trace_snoc rs w1 res w2)
  show ?case using trace_snoc.IH dispatch_proxy [OF assms(1) trace_snoc.hyps(2)]
    by (auto simp: chosen_of_snoc split: option.split)
qed (simp add: chosen_of_def)



text \<open>
  A WebSocket upgrade that the response writer cannot hijack (every writer behind the proxy's own
  logging, recovery and metrics wrappers) is answered with 500 after the breaker slot was
  reserved, and the slot is never reported back: a half-open breaker loses a probe slot to every
  such request.
\<close>

theorem websocket_leaks_probe_slot:
  assumes "\<not> cHijacker ctx" and "isWebSocketUpgrade r" and "fst (proxy_pick p ctx r w) = Picked u"
    and "fst (brk_Reserve (wClock w) (uBreaker (wUpstreams w u)))" and "state (uBreaker (wUpstreams w u)) = BreakerHalfOpen"
    and "proxy_ServeHTTP p ctx r w = (rn, w')"
  shows "status_of (respond (rnCalls rn) new_response) = 500 \<and> state (uBreaker (wUpstreams w' u)) = BreakerHalfOpen \<and>
    probesAdmitted (uBreaker (wUpstreams w' u)) = probesAdmitted (uBreaker (wUpstreams w u)) + 1 \<and>
    probesSucceeded (uBreaker (wUpstreams w' u)) = probesSucceeded (uBreaker (wUpstreams w u))"
proof -
  obtain w1 where pk: "proxy_pick p ctx r w = (Picked u, w1)" using assms(3) by (metis prod.collapse)
  obtain ok w2 where rs: "reserve u (snd (proxy_pick p ctx r w)) = (ok, w2)" by fastforce
  note R = reserved_breaker [OF assms(3) rs]
  have "rn = finish_run ctx (writeError 500 ''websocket: hijack unsupported'') (Some u) None" "w' = w2"
    using assms(1,2,4,6) pk rs R(1) by (auto simp: proxy_ServeHTTP_def serveWebSocket_def Let_def)
  then show ?thesis using assms(4,5) R(2) writeError_status [of 500]
    by (auto simp: finish_run_def brk_Reserve_def Let_def split: if_splits)
qed

definition half_open_world :: world where
  "half_open_world = sample_world\<lparr>wUpstreams := (\<lambda>_. (sample_upstream ''a'' 1)\<lparr>uBreaker :=
     (NewCircuitBreaker DefaultCircuitBreakerConfig)\<lparr>state := BreakerHalfOpen\<rparr>\<rparr>)\<rparr>"

definition upgrade_request :: http_request where
  "upgrade_request = sample_request [(''Upgrade'', [''websocket'']), (''Connection'', [''keep-alive, Upgrade''])]"

theorem websocket_leaks_probe_slot_witness:
  "probesAdmitted (uBreaker (wUpstreams (snd (proxy_ServeHTTP (sample_proxy (RTError ''unused'')) (background\<lparr>cHijacker := False\<rparr>)
     upgrade_request half_open_world)) 0)) = 1"
proof -
  let ?p = "sample_proxy (RTError ''unused'')" and ?c = "background\<lparr>cHijacker := False\<rparr>"
  obtain rn w' where run: "proxy_ServeHTTP ?p ?c upgrade_request half_open_world = (rn, w')" by fastforce
  have up: "isWebSocketUpgrade upgrade_request" by code_simp
  have b: "uBreaker (wUpstreams half_open_world 0) = (NewCircuitBreaker DefaultCircuitBreakerConfig)\<lparr>state := BreakerHalfOpen\<rparr>"
    by (simp add: half_open_world_def)
  have pk: "fst (proxy_pick ?p ?c upgrade_request half_open_world) = Picked 0"
    by (simp add: proxy_pick_def sample_proxy_def half_open_world_def sample_world_def rr_Pick_def NewRoundRobin_def eligibleSet_eq
        candidates_def selectable_def sample_upstream_def background_def AttemptFromContext_def zero_attempt_def Let_def case_prod_beta)
  have "probesAdmitted (NewCircuitBreaker DefaultCircuitBreakerConfig) = 0" "0 < halfOpenProbes (cfg (NewCircuitBreaker DefaultCircuitBreakerConfig))"
    by (simp_all add: NewCircuitBreaker_def DefaultCircuitBreakerConfig_def)
  with websocket_leaks_probe_slot [OF _ up pk _ _ run] run show ?thesis
    by (simp add: b brk_Reserve_def)
qed

end
