(* ===== verification/StepProgress.thy ===== *)
theory StepProgress
  imports Main
begin

text \<open>
  A relation that keeps an invariant, decreases a measure and can always make a step until it is done
  ends, in every order of its steps, and ends done.
\<close>

locale progress =
  fixes step :: "'s \<Rightarrow> 's \<Rightarrow> bool" and inv :: "'s \<Rightarrow> bool" and finished :: "'s \<Rightarrow> bool" and mu :: "'s \<Rightarrow> nat"
  assumes keeps: "step s s' \<Longrightarrow> inv s \<Longrightarrow> inv s'"
    and decreases: "step s s' \<Longrightarrow> inv s \<Longrightarrow> mu s' < mu s"
    and enabled: "inv s \<Longrightarrow> \<not> finished s \<Longrightarrow> \<exists>s'. step s s'"
begin

lemma keeps_star: "step\<^sup>*\<^sup>* s s' \<Longrightarrow> inv s \<Longrightarrow> inv s'"
  by (induction rule: rtranclp_induct) (auto dest: keeps)

lemma terminates: "inv s \<Longrightarrow> termip step s"
proof (induction "mu s" arbitrary: s rule: less_induct)
  case less
  have "termip step s'" if "step s s'" for s'
    using less(1) [OF decreases keeps, OF that less(2) that less(2)] .
  then show ?case by (rule accp.accI) simp
qed

lemma run_bound: "(step ^^ n) s s' \<Longrightarrow> inv s \<Longrightarrow> mu s' + n \<le> mu s"
proof (induction n arbitrary: s')
  case (Suc n)
  then obtain t where t: "(step ^^ n) s t" "step t s'" by auto
  have "inv t" using keeps_star [OF relpowp_imp_rtranclp [OF t(1)]] Suc.prems(2) by simp
  then show ?case using Suc.IH [OF t(1) Suc.prems(2)] decreases [OF t(2)] by simp
qed simp

lemma stuck_is_finished: "inv s \<Longrightarrow> step\<^sup>*\<^sup>* s s' \<Longrightarrow> \<nexists>s''. step s' s'' \<Longrightarrow> finished s'"
  using keeps_star enabled by blast

lemma reaches_finished: "inv s \<Longrightarrow> \<exists>s'. step\<^sup>*\<^sup>* s s' \<and> finished s'"
proof (induction "mu s" arbitrary: s rule: less_induct)
  case less
  show ?case
  proof (cases "finished s")
    case False
    then obtain s1 where st: "step s s1" using enabled less(2) by blast
    then obtain s' where "step\<^sup>*\<^sup>* s1 s'" "finished s'"
      using less(1) [OF decreases [OF st less(2)] keeps [OF st less(2)]] by blast
    then show ?thesis using st by (meson converse_rtranclp_into_rtranclp)
  qed blast
qed

end

lemma accp_normal_form: "termip step s \<Longrightarrow> \<exists>s'. step\<^sup>*\<^sup>* s s' \<and> (\<nexists>s''. step s' s'')"
proof (induction rule: accp.induct)
  case (accI s)
  then show ?case by (cases "\<exists>s1. step s s1") (auto, meson converse_rtranclp_into_rtranclp)
qed

end
