(* ===== verification/Tunnel.thy ===== *)
theory Tunnel
  imports GoPrelude StepProgress "HOL-Library.Sublist"
begin

text \<open>
  The byte shuttle between a client and an upstream: \<^verbatim>\<open>copyBidirectional\<close> and \<^verbatim>\<open>closeWriteOrFull\<close> of
  \<^verbatim>\<open>internal/l4/proxy.go\<close>, and the same two goroutines at the end of \<^verbatim>\<open>serveWebSocket\<close>
  (\<^verbatim>\<open>internal/upstream/websocket.go\<close>). Each direction is one goroutine that runs \<^verbatim>\<open>io.Copy\<close> (read a chunk,
  write it, until a read or a write fails) and then propagates the end of the stream; \<open>copy_step\<close> has one
  rule per system call, \<open>tunnel_step\<close> interleaves the two goroutines, and \<open>peer_acts\<close> and \<open>peer_resets\<close> are
  what the two ends may do at any time. \<open>cnBuf\<close> holds what a \<^verbatim>\<open>bufio.Reader\<close> in front of the socket has
  already read (empty for raw TCP; the hijacked buffer and the rest of the upstream's answer for a
  WebSocket); it can be read even after the socket is closed.
\<close>

section \<open>Connections and copy loops\<close>

text \<open>
  A connection as the proxy sees it. \<open>cnIn\<close>: bytes that have arrived and are not read; \<open>cnSent\<close>: all the
  peer has ever sent; \<open>cnOut\<close>: all that was written to the peer; \<open>cnHalf\<close>: the type has \<^verbatim>\<open>CloseWrite\<close>.
\<close>

record conn =
  cnBuf :: string
  cnIn :: string
  cnSent :: string
  cnPeerDone :: bool
  cnReset :: bool
  cnOut :: string
  cnWriteShut :: bool
  cnClosed :: bool
  cnHalf :: bool

definition closeWriteOrFull :: "conn \<Rightarrow> conn" where
  "closeWriteOrFull c = (if cnHalf c then c\<lparr>cnWriteShut := True\<rparr> else c\<lparr>cnClosed := True\<rparr>)"

text \<open>
  A copy goroutine: waiting in \<^verbatim>\<open>Read\<close>, waiting in \<^verbatim>\<open>Write\<close> with a chunk, \<^verbatim>\<open>io.Copy\<close> has returned, the end of
  the stream has been propagated. The number is the count of bytes written.
\<close>

datatype copier = Reading nat | Writing nat string | Ended nat | Finished nat

inductive copy_step :: "copier \<times> conn \<times> conn \<Rightarrow> copier \<times> conn \<times> conn \<Rightarrow> bool" where
  read_buffered: "\<lbrakk> cnBuf src = c @ rest; c \<noteq> [] \<rbrakk> \<Longrightarrow>
     copy_step (Reading n, src, dst) (Writing n c, src\<lparr>cnBuf := rest\<rparr>, dst)"
| read_chunk: "\<lbrakk> cnBuf src = []; \<not> cnClosed src; cnIn src = c @ rest; c \<noteq> [] \<rbrakk> \<Longrightarrow>
     copy_step (Reading n, src, dst) (Writing n c, src\<lparr>cnIn := rest\<rparr>, dst)"
| read_eof: "\<lbrakk> cnBuf src = []; \<not> cnClosed src; cnIn src = []; cnPeerDone src \<rbrakk> \<Longrightarrow>
     copy_step (Reading n, src, dst) (Ended n, src, dst)"
| read_error: "\<lbrakk> cnBuf src = []; cnClosed src \<or> cnReset src \<rbrakk> \<Longrightarrow>
     copy_step (Reading n, src, dst) (Ended n, src, dst)"
| write_chunk: "\<not> cnClosed dst \<Longrightarrow> \<not> cnWriteShut dst \<Longrightarrow> \<not> cnReset dst \<Longrightarrow>
     copy_step (Writing n c, src, dst) (Reading (n + length c), src, dst\<lparr>cnOut := cnOut dst @ c\<rparr>)"
| write_error: "cnClosed dst \<or> cnWriteShut dst \<Longrightarrow> copy_step (Writing n c, src, dst) (Ended n, src, dst)"
| write_reset: "cnReset dst \<Longrightarrow> k \<le> length c \<Longrightarrow>
     copy_step (Writing n c, src, dst) (Ended (n + k), src, dst\<lparr>cnOut := cnOut dst @ take k c\<rparr>)"
| propagate: "copy_step (Ended n, src, dst) (Finished n, src, closeWriteOrFull dst)"

inductive_cases copy_stepE: "copy_step (g, src, dst) (g', src', dst')"

record tunnel =
  tnClient :: conn
  tnUpstream :: conn
  tnUp :: copier
  tnDown :: copier

inductive tunnel_step :: "tunnel \<Rightarrow> tunnel \<Rightarrow> bool" where
  up: "copy_step (tnUp t, tnClient t, tnUpstream t) (g, c, u) \<Longrightarrow> tunnel_step t (t\<lparr>tnUp := g, tnClient := c, tnUpstream := u\<rparr>)"
| down: "copy_step (tnDown t, tnUpstream t, tnClient t) (g, u, c) \<Longrightarrow> tunnel_step t (t\<lparr>tnDown := g, tnUpstream := u, tnClient := c\<rparr>)"

inductive peer_acts :: "conn \<Rightarrow> conn \<Rightarrow> bool" where
  sends: "\<not> cnPeerDone c \<Longrightarrow> peer_acts c (c\<lparr>cnIn := cnIn c @ s, cnSent := cnSent c @ s\<rparr>)"
| finishes: "peer_acts c (c\<lparr>cnPeerDone := True\<rparr>)"

inductive peer_resets :: "conn \<Rightarrow> conn \<Rightarrow> bool" where
  resets: "peer_resets c (c\<lparr>cnReset := True\<rparr>)"

text \<open>A session in which the peers may do anything, and one in which neither resets its connection.\<close>

inductive orderly_step :: "tunnel \<Rightarrow> tunnel \<Rightarrow> bool" where
  proxy: "tunnel_step t t' \<Longrightarrow> orderly_step t t'"
| client: "peer_acts (tnClient t) c \<Longrightarrow> orderly_step t (t\<lparr>tnClient := c\<rparr>)"
| upstream: "peer_acts (tnUpstream t) u \<Longrightarrow> orderly_step t (t\<lparr>tnUpstream := u\<rparr>)"

inductive session_step :: "tunnel \<Rightarrow> tunnel \<Rightarrow> bool" where
  orderly: "orderly_step t t' \<Longrightarrow> session_step t t'"
| client_resets: "peer_resets (tnClient t) c \<Longrightarrow> session_step t (t\<lparr>tnClient := c\<rparr>)"
| upstream_resets: "peer_resets (tnUpstream t) u \<Longrightarrow> session_step t (t\<lparr>tnUpstream := u\<rparr>)"

inductive_cases tunnel_stepE: "tunnel_step t t'"

inductive_cases orderly_stepE: "orderly_step t t'"

inductive_cases session_stepE: "session_step t t'"

inductive_cases peer_actsE: "peer_acts c c'"

inductive_cases peer_resetsE: "peer_resets c c'"

definition new_conn :: "bool \<Rightarrow> string \<Rightarrow> conn" where
  "new_conn half buf =
     \<lparr>cnBuf = buf, cnIn = [], cnSent = buf, cnPeerDone = False, cnReset = False, cnOut = [], cnWriteShut = False,
      cnClosed = False, cnHalf = half\<rparr>"

definition start_tunnel :: "conn \<Rightarrow> conn \<Rightarrow> tunnel" where
  "start_tunnel c u = \<lparr>tnClient = c, tnUpstream = u, tnUp = Reading 0, tnDown = Reading 0\<rparr>"

text \<open>\<^verbatim>\<open>wg.Wait()\<close> returns when both goroutines are through; the results are the two counts.\<close>

definition copyBidirectional :: "tunnel \<Rightarrow> (nat \<times> nat) option" where
  "copyBidirectional t = (case (tnUp t, tnDown t) of (Finished m, Finished n) \<Rightarrow> Some (m, n) | _ \<Rightarrow> None)"

section \<open>What is delivered\<close>

primrec written :: "copier \<Rightarrow> nat" where
  "written (Reading n) = n"
| "written (Writing n c) = n"
| "written (Ended n) = n"
| "written (Finished n) = n"

definition in_order :: "copier \<Rightarrow> conn \<Rightarrow> conn \<Rightarrow> bool" where
  "in_order g src dst \<longleftrightarrow>
     written g = length (cnOut dst) \<and> prefix (cnOut dst) (cnSent src) \<and>
     (case g of
        Reading n \<Rightarrow> cnSent src = cnOut dst @ cnBuf src @ cnIn src
      | Writing n c \<Rightarrow> cnSent src = cnOut dst @ c @ cnBuf src @ cnIn src
      | _ \<Rightarrow> True)"

definition tunnel_in_order :: "tunnel \<Rightarrow> bool" where
  "tunnel_in_order t \<longleftrightarrow> in_order (tnUp t) (tnClient t) (tnUpstream t) \<and> in_order (tnDown t) (tnUpstream t) (tnClient t)"

lemma closeWriteOrFull_frame [simp]:
  "cnBuf (closeWriteOrFull c) = cnBuf c" "cnIn (closeWriteOrFull c) = cnIn c" "cnSent (closeWriteOrFull c) = cnSent c"
  "cnOut (closeWriteOrFull c) = cnOut c" "cnReset (closeWriteOrFull c) = cnReset c"
  "cnPeerDone (closeWriteOrFull c) = cnPeerDone c" "cnHalf (closeWriteOrFull c) = cnHalf c"
  "cnWriteShut (closeWriteOrFull c) = (cnWriteShut c \<or> cnHalf c)" "cnClosed (closeWriteOrFull c) = (cnClosed c \<or> \<not> cnHalf c)"
  by (simp_all add: closeWriteOrFull_def)

lemma prefix_take: "prefix (take k c) (c @ r)"
  by (simp add: prefix_prefix take_is_prefix)

lemma copy_in_order:
  assumes "copy_step (g, src, dst) (g', src', dst')" and "in_order g src dst"
  shows "in_order g' src' dst'"
  using assms by (cases rule: copy_stepE) (auto simp: in_order_def prefix_take)

text \<open>The other direction sees a step of a copy loop only through flags it does not depend on.\<close>

lemma copy_keeps_reverse:
  assumes "copy_step (g, src, dst) (g', src', dst')"
  shows "in_order r dst' src' = in_order r dst src"
  using assms by (cases rule: copy_stepE) (auto simp: in_order_def split: copier.split)

lemma peer_acts_order:
  assumes "peer_acts c c'"
  shows "in_order g c d \<Longrightarrow> in_order g c' d" "in_order g d c \<Longrightarrow> in_order g d c'"
  using assms by (auto elim!: peer_actsE simp: in_order_def prefix_def split: copier.splits)

lemma peer_resets_order:
  assumes "peer_resets c c'"
  shows "in_order g c d \<Longrightarrow> in_order g c' d" "in_order g d c \<Longrightarrow> in_order g d c'"
  using assms by (auto elim!: peer_resetsE simp: in_order_def split: copier.splits)

lemma session_in_order: "session_step t t' \<Longrightarrow> tunnel_in_order t \<Longrightarrow> tunnel_in_order t'"
  by (auto elim!: session_stepE orderly_stepE tunnel_stepE
      simp: tunnel_in_order_def copy_keeps_reverse intro: copy_in_order peer_acts_order peer_resets_order)

lemma start_in_order: "tunnel_in_order (start_tunnel (new_conn a b) (new_conn a' b'))"
  by (simp add: tunnel_in_order_def in_order_def start_tunnel_def new_conn_def)

lemma session_star_in_order:
  "session_step\<^sup>*\<^sup>* (start_tunnel (new_conn a b) (new_conn a' b')) t \<Longrightarrow> tunnel_in_order t"
  by (induction rule: rtranclp_induct) (auto intro: start_in_order session_in_order)

lemma copyBidirectional_Some: "copyBidirectional t = Some (m, n) \<longleftrightarrow> tnUp t = Finished m \<and> tnDown t = Finished n"
  by (auto simp: copyBidirectional_def split: copier.splits)

lemma session_counts:
  assumes "session_step\<^sup>*\<^sup>* (start_tunnel (new_conn hc bc) (new_conn hu bu)) t" and "copyBidirectional t = Some (m, n)"
  shows "m = length (cnOut (tnUpstream t)) \<and> n = length (cnOut (tnClient t))"
  using session_star_in_order [OF assms(1)] assms(2) by (auto simp: tunnel_in_order_def in_order_def copyBidirectional_Some)

section \<open>Completeness\<close>

definition plain_conn :: "conn \<Rightarrow> bool" where
  "plain_conn c \<longleftrightarrow> cnHalf c \<and> \<not> cnReset c \<and> \<not> cnClosed c"

definition complete_copy :: "copier \<Rightarrow> conn \<Rightarrow> conn \<Rightarrow> bool" where
  "complete_copy g src dst \<longleftrightarrow>
     (case g of
        Ended n \<Rightarrow> cnOut dst = cnSent src \<and> cnPeerDone src \<and> \<not> cnWriteShut dst
      | Finished n \<Rightarrow> cnOut dst = cnSent src \<and> cnPeerDone src \<and> cnWriteShut dst
      | _ \<Rightarrow> \<not> cnWriteShut dst)"

definition orderly_tunnel :: "tunnel \<Rightarrow> bool" where
  "orderly_tunnel t \<longleftrightarrow>
     tunnel_in_order t \<and> plain_conn (tnClient t) \<and> plain_conn (tnUpstream t) \<and>
     complete_copy (tnUp t) (tnClient t) (tnUpstream t) \<and> complete_copy (tnDown t) (tnUpstream t) (tnClient t)"

lemma copy_complete:
  assumes "copy_step (g, src, dst) (g', src', dst')" "in_order g src dst" "plain_conn src" "plain_conn dst" "complete_copy g src dst"
  shows "complete_copy g' src' dst' \<and> plain_conn src' \<and> plain_conn dst' \<and> (complete_copy r dst src \<longrightarrow> complete_copy r dst' src')"
  using assms by (cases rule: copy_stepE) (auto simp: in_order_def plain_conn_def complete_copy_def split: copier.splits)

lemma peer_acts_complete:
  assumes "peer_acts c c'"
  shows "plain_conn c \<Longrightarrow> plain_conn c'" "complete_copy g c d \<Longrightarrow> complete_copy g c' d" "complete_copy g d c \<Longrightarrow> complete_copy g d c'"
  using assms by (auto elim!: peer_actsE simp: plain_conn_def complete_copy_def split: copier.splits)

lemma tunnel_orderly: "tunnel_step t t' \<Longrightarrow> orderly_tunnel t \<Longrightarrow> orderly_tunnel t'"
  using copy_complete
  by (auto elim!: tunnel_stepE simp: orderly_tunnel_def tunnel_in_order_def copy_keeps_reverse intro: copy_in_order)

lemma orderly_orderly: "orderly_step t t' \<Longrightarrow> orderly_tunnel t \<Longrightarrow> orderly_tunnel t'"
  by (erule orderly_stepE)
    (auto simp: tunnel_orderly, auto simp: orderly_tunnel_def tunnel_in_order_def intro: peer_acts_order peer_acts_complete)

lemma orderly_star: "orderly_step\<^sup>*\<^sup>* (start_tunnel (new_conn True b) (new_conn True b')) t \<Longrightarrow> orderly_tunnel t"
proof (induction rule: rtranclp_induct)
  case base
  show ?case using start_in_order by (simp add: orderly_tunnel_def start_tunnel_def plain_conn_def complete_copy_def new_conn_def)
qed (rule orderly_orderly)

definition remaining :: "copier \<Rightarrow> conn \<Rightarrow> nat" where
  "remaining g src =
     2 * (length (cnBuf src) + length (cnIn src)) + (case g of Writing n c \<Rightarrow> 3 | Reading n \<Rightarrow> 2 | Ended n \<Rightarrow> 1 | Finished n \<Rightarrow> 0)"

definition peers_done :: "tunnel \<Rightarrow> bool" where
  "peers_done t \<longleftrightarrow> cnPeerDone (tnClient t) \<and> cnPeerDone (tnUpstream t)"

lemma two_length: "c \<noteq> [] \<Longrightarrow> Suc 0 < 2 * length c"
  by (cases c) auto

lemma copy_decreases:
  assumes "copy_step (g, src, dst) (g', src', dst')"
  shows "remaining g' src' < remaining g src \<and> remaining r dst' = remaining r dst \<and>
    cnPeerDone src' = cnPeerDone src \<and> cnPeerDone dst' = cnPeerDone dst"
  using assms by (cases rule: copy_stepE) (auto simp: remaining_def two_length split: copier.splits)

lemma copy_sent: "copy_step (g, src, dst) (g', src', dst') \<Longrightarrow> cnSent src' = cnSent src \<and> cnSent dst' = cnSent dst"
  by (erule copy_stepE) auto

lemma tunnel_sent:
  "tunnel_step\<^sup>*\<^sup>* t t' \<Longrightarrow> cnSent (tnClient t') = cnSent (tnClient t) \<and> cnSent (tnUpstream t') = cnSent (tnUpstream t)"
  by (induction rule: rtranclp_induct) (auto elim!: tunnel_stepE dest: copy_sent)

lemma copy_enabled:
  assumes "plain_conn src" "plain_conn dst" "cnPeerDone src" "complete_copy g src dst" "\<nexists>n. g = Finished n"
  shows "\<exists>x. copy_step (g, src, dst) x"
proof (cases g)
  case (Reading n)
  show ?thesis
  proof (cases "cnBuf src = []")
    case True
    then show ?thesis
      using assms Reading read_chunk [of src "cnIn src" "[]" n dst] read_eof [of src n dst]
      by (cases "cnIn src = []") (auto simp: plain_conn_def)
  next
    case False
    then show ?thesis using Reading read_buffered [of src "cnBuf src" "[]" n dst] by auto
  qed
next
  case (Writing n c)
  then show ?thesis using assms write_chunk [of dst n c src] by (auto simp: plain_conn_def complete_copy_def)
next
  case (Ended n)
  then show ?thesis using propagate by blast
next
  case (Finished n)
  then show ?thesis using assms by blast
qed

interpretation shuttle: progress tunnel_step "\<lambda>t. orderly_tunnel t \<and> peers_done t" "\<lambda>t. \<exists>r. copyBidirectional t = Some r"
  "\<lambda>t. remaining (tnUp t) (tnClient t) + remaining (tnDown t) (tnUpstream t)"
proof
  fix t t' assume st: "tunnel_step t t'" and i: "orderly_tunnel t \<and> peers_done t"
  show "orderly_tunnel t' \<and> peers_done t'"
    using st i tunnel_orderly [OF st] by (auto elim!: tunnel_stepE dest: copy_decreases simp: peers_done_def)
  show "remaining (tnUp t') (tnClient t') + remaining (tnDown t') (tnUpstream t')
      < remaining (tnUp t) (tnClient t) + remaining (tnDown t) (tnUpstream t)"
    using st by (cases rule: tunnel_stepE) (use copy_decreases in \<open>fastforce intro: add_less_le_mono add_le_less_mono\<close>)+
next
  fix t assume i: "orderly_tunnel t \<and> peers_done t" and nf: "\<nexists>r. copyBidirectional t = Some r"
  have "(\<nexists>n. tnUp t = Finished n) \<or> (\<nexists>n. tnDown t = Finished n)"
    using nf by (auto simp: copyBidirectional_Some)
  then show "\<exists>t'. tunnel_step t t'"
    using i copy_enabled [of "tnClient t" "tnUpstream t" "tnUp t"] copy_enabled [of "tnUpstream t" "tnClient t" "tnDown t"]
    by (auto simp: orderly_tunnel_def peers_done_def intro: up down)
qed

section \<open>Properties\<close>

text \<open>
  (C33) The shuttle never reorders, repeats or invents a byte: whatever the two ends do (sending, half-closing,
  resetting, in any interleaving with the two goroutines, with or without \<^verbatim>\<open>CloseWrite\<close> on either
  connection), what one end has received is at every moment a prefix of what the other has sent, and the
  byte counts that \<^verbatim>\<open>copyBidirectional\<close> returns are the numbers of bytes delivered.
\<close>

theorem tunnel_faithful:
  assumes "session_step\<^sup>*\<^sup>* (start_tunnel (new_conn hc bc) (new_conn hu bu)) t"
  shows "prefix (cnOut (tnUpstream t)) (cnSent (tnClient t)) \<and> prefix (cnOut (tnClient t)) (cnSent (tnUpstream t)) \<and>
    (copyBidirectional t = Some (m, n) \<longrightarrow> m = length (cnOut (tnUpstream t)) \<and> n = length (cnOut (tnClient t)))"
  using session_star_in_order [OF assms] session_counts [OF assms] by (auto simp: tunnel_in_order_def in_order_def)

text \<open>
  (C34) The shuttle is complete: over connections with \<^verbatim>\<open>CloseWrite\<close>, after any session in which neither end reset
  its connection and both have finished sending (at different times, with the other direction going on
  in between), the two goroutines end in every order of their remaining steps, and when they can do no
  more \<^verbatim>\<open>copyBidirectional\<close> returns, every byte sent has been delivered in both directions and both ends have
  been told so.
\<close>

theorem tunnel_completes:
  assumes "orderly_step\<^sup>*\<^sup>* (start_tunnel (new_conn True bc) (new_conn True bu)) t"
    and "cnPeerDone (tnClient t)" and "cnPeerDone (tnUpstream t)"
  shows "termip tunnel_step t \<and>
    (\<forall>t'. tunnel_step\<^sup>*\<^sup>* t t' \<longrightarrow> (\<nexists>t''. tunnel_step t' t'') \<longrightarrow>
      copyBidirectional t' = Some (length (cnSent (tnClient t)), length (cnSent (tnUpstream t))) \<and>
      cnOut (tnUpstream t') = cnSent (tnClient t) \<and> cnOut (tnClient t') = cnSent (tnUpstream t) \<and>
      cnWriteShut (tnUpstream t') \<and> cnWriteShut (tnClient t'))"
proof (intro conjI allI impI)
  have i: "orderly_tunnel t \<and> peers_done t" using assms by (simp add: orderly_star peers_done_def)
  show "termip tunnel_step t" using shuttle.terminates [OF i] .
  fix t' assume r: "tunnel_step\<^sup>*\<^sup>* t t'" and stuck: "\<nexists>t''. tunnel_step t' t''"
  obtain m n where f: "tnUp t' = Finished m" "tnDown t' = Finished n"
    using shuttle.stuck_is_finished [OF i r stuck] by (auto simp: copyBidirectional_Some)
  have o: "orderly_tunnel t'" using shuttle.keeps_star [OF r i] by simp
  show "cnOut (tnUpstream t') = cnSent (tnClient t)" "cnOut (tnClient t') = cnSent (tnUpstream t)"
    "cnWriteShut (tnUpstream t')" "cnWriteShut (tnClient t')"
    "copyBidirectional t' = Some (length (cnSent (tnClient t)), length (cnSent (tnUpstream t)))"
    using o f tunnel_sent [OF r]
    by (auto simp: orderly_tunnel_def complete_copy_def tunnel_in_order_def in_order_def copyBidirectional_Some)
qed

definition sample_session :: tunnel where
  "sample_session =
     start_tunnel ((new_conn True ''hi'')\<lparr>cnPeerDone := True\<rparr>) ((new_conn True ''x'')\<lparr>cnPeerDone := True\<rparr>)"

lemma reach_sample_session: "orderly_step\<^sup>*\<^sup>* (start_tunnel (new_conn True ''hi'') (new_conn True ''x'')) sample_session"
proof -
  let ?t0 = "start_tunnel (new_conn True ''hi'') (new_conn True ''x'')"
  let ?t1 = "?t0\<lparr>tnClient := (tnClient ?t0)\<lparr>cnPeerDone := True\<rparr>\<rparr>"
  have "orderly_step ?t0 ?t1" by (intro client finishes)
  moreover have "orderly_step ?t1 sample_session"
    using upstream [OF finishes, of ?t1] by (simp add: sample_session_def start_tunnel_def)
  ultimately show ?thesis by (meson converse_rtranclp_into_rtranclp rtranclp.rtrancl_refl)
qed

theorem tunnel_faithful_witness:
  "prefix (cnOut (tnUpstream sample_session)) ''hi'' \<and> session_step\<^sup>*\<^sup>* (start_tunnel (new_conn True ''hi'') (new_conn True ''x'')) sample_session"
proof -
  have "session_step\<^sup>*\<^sup>* (start_tunnel (new_conn True ''hi'') (new_conn True ''x'')) sample_session"
    using reach_sample_session by (rule rtranclp_mono [THEN predicate2D, rotated]) (auto intro: orderly)
  from tunnel_faithful [OF this, of 0 0] this show ?thesis by (simp add: sample_session_def start_tunnel_def new_conn_def)
qed

theorem tunnel_completes_witness:
  "\<exists>t'. tunnel_step\<^sup>*\<^sup>* sample_session t' \<and> copyBidirectional t' = Some (2, 1) \<and>
     cnOut (tnUpstream t') = ''hi'' \<and> cnOut (tnClient t') = ''x'' \<and> cnWriteShut (tnUpstream t') \<and> cnWriteShut (tnClient t')"
proof -
  have d: "cnPeerDone (tnClient sample_session)" "cnPeerDone (tnUpstream sample_session)"
    by (simp_all add: sample_session_def start_tunnel_def)
  note k = tunnel_completes [OF reach_sample_session d]
  obtain t' where t': "tunnel_step\<^sup>*\<^sup>* sample_session t'" "\<nexists>t''. tunnel_step t' t''"
    using accp_normal_form [OF conjunct1 [OF k]] by blast
  have "cnSent (tnClient sample_session) = ''hi''" "cnSent (tnUpstream sample_session) = ''x''"
    by (simp_all add: sample_session_def start_tunnel_def new_conn_def)
  then show ?thesis using conjunct2 [OF k] t' by (intro exI [of _ t']) simp
qed

text \<open>
  On a connection without \<^verbatim>\<open>CloseWrite\<close> the fallback closes both directions: when the upstream finishes first,
  what the client has already sent is lost, and the session still ends without an error.
\<close>

theorem full_close_loses_bytes:
  "\<exists>t. orderly_step\<^sup>*\<^sup>* (start_tunnel (new_conn False []) (new_conn True [])) t \<and>
     copyBidirectional t = Some (0, 0) \<and> cnSent (tnClient t) = ''hi'' \<and> cnOut (tnUpstream t) = []"
proof -
  let ?t0 = "start_tunnel (new_conn False []) (new_conn True [])"
  let ?t1 = "?t0\<lparr>tnClient := (tnClient ?t0)\<lparr>cnIn := cnIn (tnClient ?t0) @ ''hi'', cnSent := cnSent (tnClient ?t0) @ ''hi''\<rparr>\<rparr>"
  let ?t2 = "?t1\<lparr>tnUpstream := (tnUpstream ?t1)\<lparr>cnPeerDone := True\<rparr>\<rparr>"
  let ?t3 = "?t2\<lparr>tnDown := Ended 0, tnUpstream := tnUpstream ?t2, tnClient := tnClient ?t2\<rparr>"
  let ?t4 = "?t3\<lparr>tnDown := Finished 0, tnUpstream := tnUpstream ?t3, tnClient := closeWriteOrFull (tnClient ?t3)\<rparr>"
  let ?t5 = "?t4\<lparr>tnUp := Ended 0, tnClient := tnClient ?t4, tnUpstream := tnUpstream ?t4\<rparr>"
  let ?t6 = "?t5\<lparr>tnUp := Finished 0, tnClient := tnClient ?t5, tnUpstream := closeWriteOrFull (tnUpstream ?t5)\<rparr>"
  have "orderly_step ?t0 ?t1" by (intro client sends) (simp add: start_tunnel_def new_conn_def)
  moreover have "orderly_step ?t1 ?t2" by (intro upstream finishes)
  moreover have "orderly_step ?t2 ?t3" by (intro proxy down) (simp add: start_tunnel_def new_conn_def read_eof)
  moreover have "orderly_step ?t3 ?t4" by (intro proxy down) (simp add: propagate)
  moreover have "orderly_step ?t4 ?t5" by (intro proxy up) (simp add: start_tunnel_def new_conn_def closeWriteOrFull_def read_error)
  moreover have "orderly_step ?t5 ?t6" by (intro proxy up) (simp add: propagate)
  ultimately have "orderly_step\<^sup>*\<^sup>* ?t0 ?t6" by (meson converse_rtranclp_into_rtranclp rtranclp.rtrancl_refl)
  then show ?thesis by (intro exI [of _ ?t6]) (simp add: copyBidirectional_def start_tunnel_def new_conn_def)
qed

end
