(* ===== verification/L4.thy ===== *)
theory L4
  imports Proxy Tunnel
begin

text \<open>
  Raw TCP load balancing, package \<^verbatim>\<open>internal/l4\<close>: the per-connection dispatcher (\<^verbatim>\<open>proxy.go\<close>) and the
  listener's accept loop with its shutdown (\<^verbatim>\<open>listener.go\<close>). What a dial does and how far the two copy
  loops have come (a state of \<open>Tunnel\<close>) is an argument (\<open>tcp_io\<close>). The accept loop, the connections and \<^verbatim>\<open>Shutdown\<close> run concurrently; the relation
  \<open>l4_step\<close> has one rule per atomic action, with the time between \<^verbatim>\<open>Accept\<close> and \<^verbatim>\<open>conns.Add(1)\<close> made visible.
\<close>

section \<open>One connection\<close>

record l4_proxy =
  l4PoolName :: string
  l4Selector :: nat
  l4ConnectTimeout :: duration

record tcp_io =
  tioDialed :: bool
  tioDialTime :: duration
  tioSession :: tunnel
  tioCopyTime :: duration

datatype conn_result = NoUpstream | DialFailed uid | InSession uid | Dispatched uid nat nat duration | Crashed

definition dial_timeout :: "l4_proxy \<Rightarrow> duration" where
  "dial_timeout p = (let t = l4ConnectTimeout p in if t \<le> 0 then 5 * second else t)"

definition conn_request :: "string \<Rightarrow> http_request" where
  "conn_request remote =
     \<lparr>rMethod = [], rHost = [], rURLScheme = [], rURLHost = [], rPath = [], rEscapedPath = [],
      rHeader = Map.empty, rRemoteAddr = remote, rTLS = False, rBody = NoBody\<rparr>"

definition pickUpstream :: "l4_proxy \<Rightarrow> string \<Rightarrow> world \<Rightarrow> pick_result \<times> world" where
  "pickUpstream p remote w =
     (let draw = wDraws w (wDrawn w);
          e = \<lparr>peRequest = conn_request remote, peDraw = fst draw, pePair = snd draw\<rparr>;
          (res, s, h) = sel_Pick e (wClock w) [] (wSelectors w (l4Selector p)) (wUpstreams w)
      in (res, w\<lparr>wSelectors := (wSelectors w)(l4Selector p := s), wUpstreams := h, wDrawn := wDrawn w + 1\<rparr>))"

text \<open>
  \<open>mexp\<close> is \<^verbatim>\<open>math.Exp\<close>. A connection runs in its own goroutine without recovery: a panic of the selector
  ends the process (\<open>Crashed\<close>). As long as \<^verbatim>\<open>copyBidirectional\<close> has not returned, so has not \<^verbatim>\<open>ServeConn\<close>
  (\<open>InSession\<close>).
\<close>

definition ServeConn :: "(float64 \<Rightarrow> float64) \<Rightarrow> l4_proxy \<Rightarrow> string \<Rightarrow> tcp_io \<Rightarrow> world \<Rightarrow> conn_result \<times> world" where
  "ServeConn mexp p remote io w =
     (let start = wClock w; (picked, w1) = pickUpstream p remote w
      in case picked of
           NoEligibleUpstream \<Rightarrow> (NoUpstream, w1)
         | PickPanic \<Rightarrow> (Crashed, w1)
         | PickedNil \<Rightarrow> (Crashed, w1)
         | Picked u \<Rightarrow>
             let w2 = w1\<lparr>wClock := wClock w1 + tioDialTime io\<rparr>
             in if \<not> tioDialed io then (DialFailed u, update_upstream u (record_breaker (wClock w2) OutcomeFailure) w2)
                else
                  let w3 = enter u w2
                  in case copyBidirectional (tioSession io) of
                       None \<Rightarrow> (InSession u, w3)
                     | Some (bytesUp, bytesDown) \<Rightarrow>
                         let w4 = w3\<lparr>wClock := wClock w3 + tioCopyTime io\<rparr>;
                             dur = time_sub (wClock w4) start;
                             w5 = update_upstream u (record_breaker (wClock w4) OutcomeSuccess) w4;
                             w6 = update_upstream u (RecordLatency mexp (wClock w5) dur (30 * second)) w5
                         in (Dispatched u bytesUp bytesDown dur, leave u w6))"

section \<open>The accept loop and shutdown\<close>

datatype shutdown_state = NotCalled | FlagSet | Draining | Drained | DeadlineHit

record l4_listener =
  llSocketOpen :: bool
  llStopping :: bool
  llServing :: bool
  llInHand :: bool
  llConns :: nat
  llShutdown :: shutdown_state

definition l4_New :: l4_listener where
  "l4_New = \<lparr>llSocketOpen = True, llStopping = False, llServing = True, llInHand = False, llConns = 0, llShutdown = NotCalled\<rparr>"

text \<open>
  \<open>llInHand\<close>: \<^verbatim>\<open>Accept\<close> has returned a connection that is not yet counted. An error of \<^verbatim>\<open>Accept\<close> ends the
  loop when the stop flag is set or the socket is closed; any other error is waited out.
\<close>

inductive l4_step :: "l4_listener \<Rightarrow> l4_listener \<Rightarrow> bool" where
  accept: "\<lbrakk> llServing l; llSocketOpen l; \<not> llInHand l \<rbrakk> \<Longrightarrow> l4_step l (l\<lparr>llInHand := True\<rparr>)"
| register: "llInHand l \<Longrightarrow> l4_step l (l\<lparr>llInHand := False, llConns := llConns l + 1\<rparr>)"
| conn_done: "0 < llConns l \<Longrightarrow> l4_step l (l\<lparr>llConns := llConns l - 1\<rparr>)"
| accept_retry: "\<lbrakk> llServing l; \<not> llInHand l; \<not> llStopping l; llSocketOpen l \<rbrakk> \<Longrightarrow> l4_step l l"
| accept_exit: "\<lbrakk> llServing l; \<not> llInHand l; llStopping l \<or> \<not> llSocketOpen l \<rbrakk> \<Longrightarrow> l4_step l (l\<lparr>llServing := False\<rparr>)"
| set_flag: "llShutdown l = NotCalled \<Longrightarrow> l4_step l (l\<lparr>llStopping := True, llShutdown := FlagSet\<rparr>)"
| close_socket: "llShutdown l = FlagSet \<Longrightarrow> l4_step l (l\<lparr>llSocketOpen := False, llShutdown := Draining\<rparr>)"
| drained: "\<lbrakk> llShutdown l = Draining; llConns l = 0 \<rbrakk> \<Longrightarrow> l4_step l (l\<lparr>llShutdown := Drained\<rparr>)"
| deadline: "llShutdown l = Draining \<Longrightarrow> l4_step l (l\<lparr>llShutdown := DeadlineHit\<rparr>)"

inductive_simps l4_step_simps: "l4_step l l'"

section \<open>Properties\<close>

lemma pickUpstream_heap: "wUpstreams (snd (pickUpstream p remote w)) = look_pool (wClock w) (sel_pool (wSelectors w (l4Selector p))) (wUpstreams w)"
  using sel.writes [of _ "wClock w" "[]" "wSelectors w (l4Selector p)" "wUpstreams w"]
  by (simp add: pickUpstream_def Let_def case_prod_beta)

lemma pickUpstream_clock [simp]: "wClock (snd (pickUpstream p remote w)) = wClock w"
  by (simp add: pickUpstream_def Let_def case_prod_beta)

lemma pickUpstream_sound:
  assumes "fst (pickUpstream p remote w) = Picked u"
  shows "u \<in> set (sel_pool (wSelectors w (l4Selector p)))" "uEligible (wUpstreams w u)"
  using assms sel.picked_healthy [of _ "wClock w" "[]" "wSelectors w (l4Selector p)" "wUpstreams w" u]
  by (auto simp: pickUpstream_def Let_def case_prod_beta)

lemma RecordLatency_frame [simp]:
  "uBreaker (RecordLatency mexp now l hl u) = uBreaker u" "uInFlight (RecordLatency mexp now l hl u) = uInFlight u"
  by (simp_all add: RecordLatency_def Let_def)

lemma ServeConn_Picked:
  assumes "pickUpstream p remote w = (Picked u, w1)"
  shows "ServeConn mexp p remote io w =
    (let w2 = w1\<lparr>wClock := wClock w1 + tioDialTime io\<rparr>; w3 = enter u w2; w4 = w3\<lparr>wClock := wClock w3 + tioCopyTime io\<rparr>;
         dur = time_sub (wClock w4) (wClock w)
     in if \<not> tioDialed io then (DialFailed u, update_upstream u (record_breaker (wClock w2) OutcomeFailure) w2)
        else case copyBidirectional (tioSession io) of
               None \<Rightarrow> (InSession u, w3)
             | Some (m, n) \<Rightarrow>
                 (Dispatched u m n dur,
                  leave u (update_upstream u (\<lambda>up. RecordLatency mexp (wClock w4) dur (30 * second) (record_breaker (wClock w4) OutcomeSuccess up)) w4)))"
  by (auto simp: ServeConn_def assms Let_def update_upstream_def split: option.split)

text \<open>
  One TCP connection: a refused dial is one failure on the chosen upstream's breaker; while the session
  lasts the upstream's in-flight counter is one up and nothing is reported; when the two copy loops are
  through, one success is reported, without a slot having been reserved, every in-flight counter is back
  where it was, and the byte counts that go into the metrics are the numbers of bytes that were
  delivered to the upstream and to the client, in any session that raw TCP connections allow.
\<close>

theorem tcp_connection_lifecycle:
  assumes "fst (pickUpstream p remote w) = Picked u" and "in64 (uInFlight (wUpstreams w u))"
    and "ServeConn mexp p remote io w = (res, w')"
    and "session_step\<^sup>*\<^sup>* (start_tunnel (new_conn True []) (new_conn True [])) (tioSession io)"
  shows "let looked = advanceLocked (wClock w) (uBreaker (wUpstreams w u)); dialed = wClock w + tioDialTime io;
             ended = dialed + tioCopyTime io; same = (\<forall>v. uInFlight (wUpstreams w' v) = uInFlight (wUpstreams w v))
    in case res of
         DialFailed v \<Rightarrow> v = u \<and> \<not> tioDialed io \<and> uBreaker (wUpstreams w' u) = brk_Record dialed dialed OutcomeFailure looked \<and> same
       | InSession v \<Rightarrow> v = u \<and> copyBidirectional (tioSession io) = None \<and> uBreaker (wUpstreams w' u) = looked \<and>
           uInFlight (wUpstreams w' u) = s64 (uInFlight (wUpstreams w u) + 1)
       | Dispatched v m n d \<Rightarrow> v = u \<and> uBreaker (wUpstreams w' u) = brk_Record ended ended OutcomeSuccess looked \<and> same \<and>
           m = length (cnOut (tnUpstream (tioSession io))) \<and> n = length (cnOut (tnClient (tioSession io)))
       | _ \<Rightarrow> False"
proof -
  obtain w1 where pk: "pickUpstream p remote w = (Picked u, w1)" using assms(1) by (metis prod.collapse)
  have w1: "wClock w1 = wClock w" "wUpstreams w1 = look_pool (wClock w) (sel_pool (wSelectors w (l4Selector p))) (wUpstreams w)"
    using pickUpstream_clock [of p remote w] pickUpstream_heap [of p remote w] pk by simp_all
  have b: "uBreaker (wUpstreams w1 u) = advanceLocked (wClock w) (uBreaker (wUpstreams w u))"
    using pickUpstream_sound [OF assms(1)] by (simp add: w1(2) look_pool_def looked_def)
  have fl: "uInFlight (wUpstreams w1 v) = uInFlight (wUpstreams w v)" for v by (simp add: w1(2))
  have c: "s64 (s64 (uInFlight (wUpstreams w u) + 1) - 1) = uInFlight (wUpstreams w u)"
    using s64_cancel [OF assms(2)] by simp
  have all: "(\<forall>v. uInFlight (wUpstreams w' v) = uInFlight (wUpstreams w v)) \<longleftrightarrow>
      uInFlight (wUpstreams w' u) = uInFlight (wUpstreams w u) \<and> (\<forall>v. v \<noteq> u \<longrightarrow> uInFlight (wUpstreams w' v) = uInFlight (wUpstreams w v))"
    by metis
  have counts: "copyBidirectional (tioSession io) = Some (m, n) \<Longrightarrow>
      m = length (cnOut (tnUpstream (tioSession io))) \<and> n = length (cnOut (tnClient (tioSession io)))" for m n
    using session_counts [OF assms(4)] .
  show ?thesis using assms(3) unfolding all
    by (auto simp: ServeConn_Picked [OF pk] Let_def b c fl w1(1) enter_def leave_def counts split: if_splits option.splits)
qed

definition sample_l4 :: l4_proxy where
  "sample_l4 = \<lparr>l4PoolName = ''tcp'', l4Selector = 0, l4ConnectTimeout = 0\<rparr>"

definition sample_io :: tcp_io where
  "sample_io = \<lparr>tioDialed = True, tioDialTime = 1, tioSession = start_tunnel (new_conn True []) (new_conn True []), tioCopyTime = 5\<rparr>"

theorem tcp_connection_lifecycle_witness:
  "uInFlight (wUpstreams (snd (ServeConn (\<lambda>_. 1) sample_l4 ''10.0.0.1:1'' sample_io sample_world)) 0) = 1"
proof -
  obtain res w' where run: "ServeConn (\<lambda>_. 1) sample_l4 ''10.0.0.1:1'' sample_io sample_world = (res, w')" by fastforce
  have pk: "fst (pickUpstream sample_l4 ''10.0.0.1:1'' sample_world) = Picked 0"
    by (simp add: pickUpstream_def sample_l4_def sample_world_def rr_Pick_def NewRoundRobin_def eligibleSet_eq candidates_def Let_def case_prod_beta)
  have up: "uInFlight (wUpstreams sample_world 0) = 0" by (simp add: sample_world_def sample_upstream_def)
  then have r: "in64 (uInFlight (wUpstreams sample_world 0))" by (simp add: in64_def)
  have s: "session_step\<^sup>*\<^sup>* (start_tunnel (new_conn True []) (new_conn True [])) (tioSession sample_io)"
    by (simp add: sample_io_def)
  have "res = InSession 0"
    using run pk by (auto simp: ServeConn_def sample_io_def Let_def start_tunnel_def copyBidirectional_def split: prod.splits)
  then show ?thesis using tcp_connection_lifecycle [OF pk r run s] run up by (simp add: Let_def s64_def)
qed

text \<open>The accept loop takes no connection any more, and none is in its hands.\<close>

definition sealed :: "l4_listener \<Rightarrow> bool" where
  "sealed l \<longleftrightarrow> \<not> llSocketOpen l \<and> \<not> llInHand l"

lemma sealed_step: "l4_step l l' \<Longrightarrow> sealed l \<Longrightarrow> sealed l' \<and> llConns l' \<le> llConns l"
  by (induction rule: l4_step.induct) (auto simp: sealed_def)

lemma sealed_steps: "l4_step\<^sup>*\<^sup>* l l' \<Longrightarrow> sealed l \<Longrightarrow> sealed l' \<and> llConns l' \<le> llConns l"
proof (induction rule: rtranclp_induct)
  case (step y z)
  then show ?case using sealed_step [of y z] by auto
qed simp

lemma flag_before_close:
  "l4_step\<^sup>*\<^sup>* l4_New l \<Longrightarrow> (llSocketOpen l \<longleftrightarrow> llShutdown l \<in> {NotCalled, FlagSet}) \<and> (llStopping l \<longleftrightarrow> llShutdown l \<noteq> NotCalled)"
proof (induction rule: rtranclp_induct)
  case (step y z)
  from step.hyps(2) step.IH show ?case by (cases rule: l4_step.cases) auto
qed (simp add: l4_New_def)


definition draining_idle :: l4_listener where
  "draining_idle = l4_New\<lparr>llStopping := True, llSocketOpen := False, llShutdown := Draining\<rparr>"

lemma reach_draining: "l4_step\<^sup>*\<^sup>* l4_New draining_idle"
proof -
  have "l4_step l4_New (l4_New\<lparr>llStopping := True, llShutdown := FlagSet\<rparr>)" by (rule set_flag) (simp add: l4_New_def)
  moreover have "l4_step (l4_New\<lparr>llStopping := True, llShutdown := FlagSet\<rparr>) draining_idle"
    using close_socket [of "l4_New\<lparr>llStopping := True, llShutdown := FlagSet\<rparr>"] by (simp add: draining_idle_def l4_New_def)
  ultimately show ?thesis by (metis converse_rtranclp_into_rtranclp r_into_rtranclp)
qed

definition drained_idle :: l4_listener where
  "drained_idle = draining_idle\<lparr>llShutdown := Drained\<rparr>"


text \<open>
  The accept loop races with the drain: \<^verbatim>\<open>conns.Add(1)\<close> happens after \<^verbatim>\<open>Accept\<close> has returned, so a
  connection accepted just before the close is not yet counted when \<^verbatim>\<open>conns.Wait()\<close> looks. \<^verbatim>\<open>Shutdown\<close> can
  return without error while a connection is about to be served.
\<close>

theorem tcp_drain_race: "\<exists>l. l4_step\<^sup>*\<^sup>* l4_New l \<and> llShutdown l = Drained \<and> 0 < llConns l"
proof -
  let ?l1 = "l4_New\<lparr>llInHand := True\<rparr>"
  let ?l2 = "?l1\<lparr>llStopping := True, llShutdown := FlagSet\<rparr>"
  let ?l3 = "?l2\<lparr>llSocketOpen := False, llShutdown := Draining\<rparr>"
  let ?l4 = "?l3\<lparr>llShutdown := Drained\<rparr>"
  let ?l5 = "?l4\<lparr>llInHand := False, llConns := llConns ?l4 + 1\<rparr>"
  have st: "l4_step l4_New ?l1" "l4_step ?l1 ?l2" "l4_step ?l2 ?l3" "l4_step ?l3 ?l4" "l4_step ?l4 ?l5"
    by (rule accept set_flag close_socket drained register; simp add: l4_New_def)+
  then have "l4_step\<^sup>*\<^sup>* l4_New ?l5" by (meson converse_rtranclp_into_rtranclp rtranclp.rtrancl_refl)
  then show ?thesis by (intro exI [of _ ?l5]) simp
qed

end
