(* ===== verification/Listener.thy ===== *)
theory Listener
  imports Observe
begin

text \<open>
  The HTTP listener, package \<^verbatim>\<open>internal/listener\<close>: the request-smuggling gate (\<^verbatim>\<open>smuggling.go\<close>), TLS settings
  and certificate selection by server name (\<^verbatim>\<open>tls.go\<close>), the HTTP/3 advertisement (\<^verbatim>\<open>http3.go\<close>) and the
  construction of a listener (\<^verbatim>\<open>listener.go\<close>). Loading a key pair and binding a socket are arguments:
  \<open>load\<close> is \<^verbatim>\<open>tls.LoadX509KeyPair\<close>, \<open>bind_tcp\<close> and \<open>bind_udp\<close> say whether the sockets could be opened.
  The accept loops of \<^verbatim>\<open>http.Server\<close> and of the QUIC server are not modelled.
\<close>

section \<open>Request smuggling\<close>

datatype smuggling_error =
  BothLengthAndEncoding
| MultipleContentLength nat
| CommaContentLength string
| BadContentLength string
| UnsupportedTransferEncoding string

definition te_tokens :: "string \<Rightarrow> string list" where
  "te_tokens te = map trim_space (split_on (CHR '','') (to_lower (trim_space te)))"

definition checkSmuggling :: "http_request \<Rightarrow> smuggling_error option" where
  "checkSmuggling r =
     (let cl = hdr_get (rHeader r) ''Content-Length'';
          hasCL = (cl \<noteq> []); hasTE = (hdr_get (rHeader r) ''Transfer-Encoding'' \<noteq> []);
          cls = hdr_values (rHeader r) ''Content-Length''
      in if hasCL \<and> hasTE then Some BothLengthAndEncoding
         else if length cls > 1 then Some (MultipleContentLength (length cls))
         else if cl \<noteq> [] \<and> List.member cl (CHR '','') then Some (CommaContentLength cl)
         else if cl \<noteq> [] \<and> (case parse_int64 cl of None \<Rightarrow> True | Some n \<Rightarrow> n < 0) then Some (BadContentLength cl)
         else (case find (\<lambda>v. v \<noteq> ''chunked'' \<and> v \<noteq> ''identity'') (concat (map te_tokens (hdr_values (rHeader r) ''Transfer-Encoding''))) of
                 Some v \<Rightarrow> Some (UnsupportedTransferEncoding v)
               | None \<Rightarrow> None))"

definition smugglingHandler :: "handler \<Rightarrow> handler" where
  "smugglingHandler nxt =
     (\<lambda>ctx r w.
       if checkSmuggling r \<noteq> None
       then (\<lparr>rnCalls = http_Error ''bad request'' 400, rnEnding = Returned, rnChosen = None, rnErr = None\<rparr>, w)
       else nxt ctx r w)"

section \<open>TLS\<close>

record 'c cert_map =
  cmExact :: "string \<rightharpoonup> 'c"
  cmWildcards :: "(string \<times> 'c) list"
  cmFallback :: "'c option"

fun add_hosts :: "'c \<Rightarrow> string list \<Rightarrow> 'c cert_map \<Rightarrow> 'c cert_map" where
  "add_hosts cert [] cm = cm"
| "add_hosts cert (h # hs) cm =
     (let host = to_lower h
      in if has_prefix host ''*.'' then add_hosts cert hs (cm\<lparr>cmWildcards := cmWildcards cm @ [(drop 1 host, cert)]\<rparr>)
         else add_hosts cert hs (cm\<lparr>cmExact := (cmExact cm)(host \<mapsto> cert)\<rparr>))"

fun load_certs :: "(string \<Rightarrow> string \<Rightarrow> 'e + 'c) \<Rightarrow> nat \<Rightarrow> tls_cert list \<Rightarrow> 'c cert_map \<Rightarrow> (nat \<times> 'e) + 'c cert_map" where
  "load_certs load i [] cm = Inr cm"
| "load_certs load i (entry # entries) cm =
     (case load (tcCert entry) (tcKey entry) of
        Inl e \<Rightarrow> Inl (i, e)
      | Inr cert \<Rightarrow>
          if tcHosts entry = [] then load_certs load (Suc i) entries (cm\<lparr>cmFallback := Some cert\<rparr>)
          else load_certs load (Suc i) entries (add_hosts cert (tcHosts entry) cm))"

definition buildCertMap :: "(string \<Rightarrow> string \<Rightarrow> 'e + 'c) \<Rightarrow> tls_cert list \<Rightarrow> (nat \<times> 'e) + 'c cert_map" where
  "buildCertMap load entries =
     (case load_certs load 0 entries \<lparr>cmExact = Map.empty, cmWildcards = [], cmFallback = None\<rparr> of
        Inl e \<Rightarrow> Inl e
      | Inr cm \<Rightarrow> Inr (cm\<lparr>cmWildcards := sort_key (\<lambda>w. - int (length (fst w))) (cmWildcards cm)\<rparr>))"

fun wildcard_cert :: "(string \<times> 'c) list \<Rightarrow> string \<Rightarrow> 'c option" where
  "wildcard_cert [] name = None"
| "wildcard_cert ((suffix, cert) # ws) name =
     (if \<not> has_suffix name suffix then wildcard_cert ws name
      else let prefix = take (length name - length suffix) name
           in if prefix = [] \<or> List.member prefix (CHR ''.'') then wildcard_cert ws name else Some cert)"

text \<open>\<open>None\<close> is the error \<^verbatim>\<open>no certificate available\<close>.\<close>

definition GetCertificate :: "'c cert_map \<Rightarrow> string \<Rightarrow> 'c option" where
  "GetCertificate cm serverName =
     (let name = to_lower serverName
      in case cmExact cm name of
           Some cert \<Rightarrow> Some cert
         | None \<Rightarrow> (case wildcard_cert (cmWildcards cm) name of Some cert \<Rightarrow> Some cert | None \<Rightarrow> cmFallback cm))"

definition modernCipherSuites :: "string list" where
  "modernCipherSuites =
     [''TLS_ECDHE_ECDSA_WITH_AES_128_GCM_SHA256'', ''TLS_ECDHE_ECDSA_WITH_AES_256_GCM_SHA384'',
      ''TLS_ECDHE_ECDSA_WITH_CHACHA20_POLY1305'', ''TLS_ECDHE_RSA_WITH_AES_128_GCM_SHA256'',
      ''TLS_ECDHE_RSA_WITH_AES_256_GCM_SHA384'', ''TLS_ECDHE_RSA_WITH_CHACHA20_POLY1305'']"

datatype 'c cert_source = FromAutocert autocert_config | FromCertMap "'c cert_map"

record 'c server_tls =
  stMinVersion :: nat
  stCipherSuites :: "string list"
  stCurves :: "string list"
  stNextProtos :: "string list"
  stCertificates :: "'c cert_source"

datatype 'e tls_error = UnsupportedMinVersion string | CertError nat 'e

definition tls_min_version :: "string \<Rightarrow> nat option" where
  "tls_min_version v =
     (if v = [] \<or> v = ''1.2'' then Some 0x0303 else if v = ''1.3'' then Some 0x0304 else None)"

definition buildTLSConfig :: "(string \<Rightarrow> string \<Rightarrow> 'e + 'c) \<Rightarrow> tls_config option \<Rightarrow> 'e tls_error + 'c server_tls option" where
  "buildTLSConfig load tcfg =
     (case tcfg of
        None \<Rightarrow> Inr None
      | Some t \<Rightarrow>
          (case tls_min_version (tlsMinVersion t) of
             None \<Rightarrow> Inl (UnsupportedMinVersion (tlsMinVersion t))
           | Some mv \<Rightarrow>
               (let certs = (case tlsAutocert t of
                      Some ac \<Rightarrow> if acAllowedHosts ac \<noteq> [] then Some ac else None
                    | None \<Rightarrow> None)
                in case certs of
                     Some ac \<Rightarrow> Inr (Some \<lparr>stMinVersion = mv, stCipherSuites = modernCipherSuites, stCurves = [''X25519'', ''P256''],
                       stNextProtos = [''h2'', ''http/1.1'', ''acme-tls/1''], stCertificates = FromAutocert ac\<rparr>)
                   | None \<Rightarrow>
                       (case buildCertMap load (tlsCerts t) of
                          Inl (i, e) \<Rightarrow> Inl (CertError i e)
                        | Inr cm \<Rightarrow> Inr (Some \<lparr>stMinVersion = mv, stCipherSuites = modernCipherSuites, stCurves = [''X25519'', ''P256''],
                            stNextProtos = [''h2'', ''http/1.1''], stCertificates = FromCertMap cm\<rparr>)))))"

section \<open>HTTP/3 and construction\<close>

fun ensureALPN :: "string list \<Rightarrow> string \<Rightarrow> string list" where
  "ensureALPN have proto = (if List.member have proto then have else have @ [proto])"

definition portFromBind :: "string \<Rightarrow> int" where
  "portFromBind bind =
     (case split_host_port bind of
        None \<Rightarrow> 443
      | Some (_, p) \<Rightarrow> (case parse_int64 p of None \<Rightarrow> 443 | Some n \<Rightarrow> n))"

definition altSvcMiddleware :: "handler \<Rightarrow> string \<Rightarrow> handler" where
  "altSvcMiddleware h bindAddr =
     (\<lambda>ctx r w.
       let value = ''h3=\":'' @ itoa (portFromBind bindAddr) @ ''\"; ma=3600'';
           (rn, w') = h (ctx\<lparr>cHeader := hdr_set (cHeader ctx) ''Alt-Svc'' value\<rparr>) r w
       in (rn\<lparr>rnCalls := HSet ''Alt-Svc'' value # rnCalls rn\<rparr>, w'))"

definition withTimeoutDefaults :: "listener_timeouts \<Rightarrow> listener_timeouts" where
  "withTimeoutDefaults t =
     (let t1 = (if ltReadHeader t \<le> 0 then t\<lparr>ltReadHeader := 5 * second\<rparr> else t);
          t2 = (if ltRead t1 \<le> 0 then t1\<lparr>ltRead := 30 * second\<rparr> else t1);
          t3 = (if ltWrite t2 \<le> 0 then t2\<lparr>ltWrite := 30 * second\<rparr> else t2)
      in if ltIdle t3 \<le> 0 then t3\<lparr>ltIdle := 120 * second\<rparr> else t3)"

record 'c listener =
  lnName :: string
  lnHandler :: handler
  lnTimeouts :: listener_timeouts
  lnMaxHeaderBytes :: "int option"
  lnTLS :: "'c server_tls option"
  lnHTTP3 :: "string list option"

datatype 'e listener_error = BindError string | TLSError "'e tls_error" | NoTLSForHTTP3 | HTTP3BindError string

datatype socket = TCPSocket string | UDPSocket string

text \<open>\<^verbatim>\<open>New\<close> with the sockets that are open when it returns; \<^verbatim>\<open>startHTTP3\<close> is the last part.\<close>

definition startHTTP3 :: "(string \<Rightarrow> bool) \<Rightarrow> string \<Rightarrow> 'c server_tls option \<Rightarrow> ('e listener_error + string list) \<times> socket list" where
  "startHTTP3 bind_udp bindAddr baseTLS =
     (case baseTLS of
        None \<Rightarrow> (Inl NoTLSForHTTP3, [])
      | Some t \<Rightarrow>
          let protos = ensureALPN (stNextProtos t) ''h3''
          in if \<not> bind_udp bindAddr then (Inl (HTTP3BindError bindAddr), []) else (Inr protos, [UDPSocket bindAddr]))"

definition listener_New ::
  "(string \<Rightarrow> string \<Rightarrow> 'e + 'c) \<Rightarrow> (string \<Rightarrow> bool) \<Rightarrow> (string \<Rightarrow> bool) \<Rightarrow> listener_config \<Rightarrow> handler \<Rightarrow>
   ('e listener_error + 'c listener) \<times> socket list" where
  "listener_New load bind_tcp bind_udp lc h =
     (if \<not> bind_tcp (lBind lc) then (Inl (BindError (lBind lc)), [])
      else case buildTLSConfig load (lTLS lc) of
             Inl e \<Rightarrow> (Inl (TLSError e), [])
           | Inr tlsCfg \<Rightarrow>
               let wrapped0 = smugglingHandler h;
                   wrapped = (if lEnableHTTP3 lc then altSvcMiddleware wrapped0 (lBind lc) else wrapped0);
                   t = withTimeoutDefaults (lTimeouts lc);
                   l = \<lparr>lnName = lName lc, lnHandler = wrapped, lnTimeouts = t,
                        lnMaxHeaderBytes = (if ltMaxHeaderBytes t > 0 then Some (ltMaxHeaderBytes t) else None),
                        lnTLS = tlsCfg, lnHTTP3 = None\<rparr>
               in if lEnableHTTP3 lc
                  then (case startHTTP3 bind_udp (lBind lc) tlsCfg of
                          (Inl e, socks) \<Rightarrow> (Inl e, socks)
                        | (Inr protos, socks) \<Rightarrow> (Inr (l\<lparr>lnHTTP3 := Some protos\<rparr>), TCPSocket (lBind lc) # socks))
                  else (Inr l, [TCPSocket (lBind lc)]))"

section \<open>Properties\<close>

subsection \<open>Request framing\<close>

definition framing_ok :: "http_request \<Rightarrow> bool" where
  "framing_ok r \<longleftrightarrow>
     (let cls = hdr_values (rHeader r) ''Content-Length''; tes = hdr_values (rHeader r) ''Transfer-Encoding''
      in (cls = [] \<or> cls = [[]] \<or> (\<exists>cl n. cls = [cl] \<and> parse_int64 cl = Some n \<and> 0 \<le> n \<and> CHR '','' \<notin> set cl \<and> tes = [])) \<and>
         (\<forall>te \<in> set tes. set (te_tokens te) \<subseteq> {''chunked'', ''identity''}))"

lemma te_tokens_empty: "te_tokens [] = [[]]"
  by (simp add: te_tokens_def trim_space_def to_lower_def)

lemma checkSmuggling_iff: "checkSmuggling r = None \<longleftrightarrow> framing_ok r"
proof -
  define cls tes where "cls = hdr_values (rHeader r) ''Content-Length''" and "tes = hdr_values (rHeader r) ''Transfer-Encoding''"
  have get: "hdr_get (rHeader r) ''Content-Length'' = (case cls of [] \<Rightarrow> [] | v # _ \<Rightarrow> v)"
    "hdr_get (rHeader r) ''Transfer-Encoding'' = (case tes of [] \<Rightarrow> [] | v # _ \<Rightarrow> v)"
    by (simp_all add: hdr_get_def cls_def tes_def)
  have tok: "find (\<lambda>v. v \<noteq> ''chunked'' \<and> v \<noteq> ''identity'') (concat (map te_tokens tes)) = None \<longleftrightarrow>
      (\<forall>te \<in> set tes. set (te_tokens te) \<subseteq> {''chunked'', ''identity''})"
    by (auto simp: find_None_iff)
  have first: "(\<forall>te \<in> set tes. set (te_tokens te) \<subseteq> {''chunked'', ''identity''}) \<Longrightarrow> tes = [] \<or> hd tes \<noteq> []"
    using te_tokens_empty by (cases tes) auto
  have p: "parse_int64 [] = None" by (simp add: parse_int64_def)
  show ?thesis
    unfolding checkSmuggling_def framing_ok_def Let_def cls_def [symmetric] tes_def [symmetric] get
    using tok first p
    by (cases cls; cases "tl cls"; cases tes)
      (auto simp del: find_None_iff find_None_iff2 split: option.splits if_splits)
qed


text \<open>
  The gate is weaker than its comment: \<^verbatim>\<open>chunked, identity\<close> in one header, the combination the
  comment names as dangerous, passes, and so does a signed length such as \<^verbatim>\<open>+5\<close>.
\<close>

theorem smuggling_gate_gaps:
  "checkSmuggling (sample_request [(''Transfer-Encoding'', [''chunked, identity''])]) = None \<and>
   checkSmuggling (sample_request [(''Content-Length'', [''+5''])]) = None"
  by (rule conjI; code_simp)

subsection \<open>Certificates\<close>

text \<open>
  The reference: host names in configuration order with their certificates; an exact name wins (the
  last one configured), then the wildcard for the name without its first label (the first one
  configured), then the last certificate configured without hosts.
\<close>

definition host_table :: "(tls_cert \<times> 'c) list \<Rightarrow> (string \<times> 'c) list" where
  "host_table ecs = concat (map (\<lambda>(e, c). map (\<lambda>h. (to_lower h, c)) (tcHosts e)) ecs)"

definition exact_hosts :: "(string \<times> 'c) list \<Rightarrow> (string \<times> 'c) list" where
  "exact_hosts hs = filter (\<lambda>(h, c). \<not> has_prefix h ''*.'') hs"

definition wildcard_hosts :: "(string \<times> 'c) list \<Rightarrow> (string \<times> 'c) list" where
  "wildcard_hosts hs = map (\<lambda>(h, c). (drop 1 h, c)) (filter (\<lambda>(h, c). has_prefix h ''*.'') hs)"

definition default_cert :: "(tls_cert \<times> 'c) list \<Rightarrow> 'c option" where
  "default_cert ecs = foldl (\<lambda>d (e, c). if tcHosts e = [] then Some c else d) None ecs"

definition sni_reference :: "(tls_cert \<times> 'c) list \<Rightarrow> string \<Rightarrow> 'c option" where
  "sni_reference ecs name =
     (case map_of (rev (exact_hosts (host_table ecs))) name of
        Some c \<Rightarrow> Some c
      | None \<Rightarrow>
          (case (if takeWhile (\<lambda>c. c \<noteq> CHR ''.'') name = [] then None
                 else map_of (wildcard_hosts (host_table ecs)) (dropWhile (\<lambda>c. c \<noteq> CHR ''.'') name)) of
             Some c \<Rightarrow> Some c
           | None \<Rightarrow> default_cert ecs))"

lemma add_hosts_eq:
  "add_hosts cert hs cm = cm\<lparr>cmExact := cmExact cm ++ map_of (rev (exact_hosts (map (\<lambda>h. (to_lower h, cert)) hs))),
     cmWildcards := cmWildcards cm @ wildcard_hosts (map (\<lambda>h. (to_lower h, cert)) hs)\<rparr>"
proof (induction hs arbitrary: cm)
  case (Cons h hs)
  have upd: "m ++ map_of (xs @ [(k, v)]) = m(k \<mapsto> v) ++ map_of xs" for m :: "string \<rightharpoonup> 'a" and xs k v
    by (auto simp: map_add_def fun_eq_iff split: option.split)
  show ?case
  proof (cases "has_prefix (to_lower h) ''*.''")
    case True
    then show ?thesis by (simp add: Cons.IH Let_def exact_hosts_def wildcard_hosts_def)
  next
    case False
    then show ?thesis unfolding add_hosts.simps Let_def Cons.IH
      by (simp add: exact_hosts_def wildcard_hosts_def upd del: map_of_append fun_upd_apply)
  qed
qed (simp add: exact_hosts_def wildcard_hosts_def)

lemma load_certs_eq:
  "list_all2 (\<lambda>e c. load (tcCert e) (tcKey e) = Inr c) entries certs \<Longrightarrow>
   load_certs load i entries cm = Inr (cm\<lparr>cmExact := cmExact cm ++ map_of (rev (exact_hosts (host_table (zip entries certs)))),
     cmWildcards := cmWildcards cm @ wildcard_hosts (host_table (zip entries certs)),
     cmFallback := foldl (\<lambda>d (e, c). if tcHosts e = [] then Some c else d) (cmFallback cm) (zip entries certs)\<rparr>)"
proof (induction entries certs arbitrary: i cm rule: list_all2_induct)
  case Nil
  then show ?case by (simp add: host_table_def exact_hosts_def wildcard_hosts_def)
next
  case (Cons e es c cs)
  have hosts: "exact_hosts (xs @ ys) = exact_hosts xs @ exact_hosts ys" "wildcard_hosts (xs @ ys) = wildcard_hosts xs @ wildcard_hosts ys"
    "host_table (p # ps) = (\<lambda>(e, c). map (\<lambda>h. (to_lower h, c)) (tcHosts e)) p @ host_table ps" for xs ys :: "(string \<times> 'a) list" and p ps
    by (simp_all add: exact_hosts_def wildcard_hosts_def host_table_def)
  show ?case using Cons by (auto simp: hosts add_hosts_eq) (auto simp: exact_hosts_def wildcard_hosts_def)
qed

lemma has_suffix_iff: "has_suffix s p \<longleftrightarrow> (\<exists>q. s = q @ p)"
  unfolding has_suffix_def by (metis append_take_drop_id append_eq_conv_conj diff_le_self le_add2 length_append length_drop add_diff_cancel_right')

lemma label_split:
  assumes "suffix = CHR ''.'' # rest"
  shows "has_suffix name suffix \<and> take (length name - length suffix) name \<noteq> [] \<and> CHR ''.'' \<notin> set (take (length name - length suffix) name) \<longleftrightarrow>
    takeWhile (\<lambda>c. c \<noteq> CHR ''.'') name \<noteq> [] \<and> dropWhile (\<lambda>c. c \<noteq> CHR ''.'') name = suffix"
proof
  assume "has_suffix name suffix \<and> take (length name - length suffix) name \<noteq> [] \<and> CHR ''.'' \<notin> set (take (length name - length suffix) name)"
  then obtain q where q: "name = q @ suffix" "q \<noteq> []" "CHR ''.'' \<notin> set q" by (auto simp: has_suffix_iff)
  have "\<And>x. x \<in> set q \<Longrightarrow> x \<noteq> CHR ''.''" using q(3) by auto
  then have "takeWhile (\<lambda>c. c \<noteq> CHR ''.'') name = q" "dropWhile (\<lambda>c. c \<noteq> CHR ''.'') name = suffix"
    by (simp_all add: q(1) assms takeWhile_append2 dropWhile_append2)
  with q(2) show "takeWhile (\<lambda>c. c \<noteq> CHR ''.'') name \<noteq> [] \<and> dropWhile (\<lambda>c. c \<noteq> CHR ''.'') name = suffix" by simp
next
  assume a: "takeWhile (\<lambda>c. c \<noteq> CHR ''.'') name \<noteq> [] \<and> dropWhile (\<lambda>c. c \<noteq> CHR ''.'') name = suffix"
  define q where "q = takeWhile (\<lambda>c. c \<noteq> CHR ''.'') name"
  have nm: "name = q @ suffix" using a takeWhile_dropWhile_id [of "\<lambda>c. c \<noteq> CHR ''.''" name] by (simp add: q_def)
  have "CHR ''.'' \<notin> set q" "q \<noteq> []" using set_takeWhileD a by (fastforce simp: q_def)+
  then show "has_suffix name suffix \<and> take (length name - length suffix) name \<noteq> [] \<and> CHR ''.'' \<notin> set (take (length name - length suffix) name)"
    by (simp add: nm has_suffix_iff)
qed

lemma wildcard_cert_eq:
  "\<forall>(sfx, c) \<in> set ws. \<exists>rest. sfx = CHR ''.'' # rest \<Longrightarrow>
   wildcard_cert ws name =
     (if takeWhile (\<lambda>c. c \<noteq> CHR ''.'') name = [] then None else map_of ws (dropWhile (\<lambda>c. c \<noteq> CHR ''.'') name))"
proof (induction ws)
  case (Cons wc ws)
  obtain sfx c rest where wc: "wc = (sfx, c)" "sfx = CHR ''.'' # rest" using Cons.prems by (cases wc) auto
  have IH: "wildcard_cert ws name =
     (if takeWhile (\<lambda>c. c \<noteq> CHR ''.'') name = [] then None else map_of ws (dropWhile (\<lambda>c. c \<noteq> CHR ''.'') name))"
    using Cons by simp
  show ?case unfolding wc(1) wildcard_cert.simps IH Let_def using label_split [OF wc(2), of name] by auto
qed simp

lemma map_of_sort_key: "map_of (sort_key (\<lambda>w. f (fst w)) ws) k = map_of ws k"
proof -
  have m: "map_of xs k = map_of (filter (\<lambda>w. f (fst w) = f k) xs) k" for xs
    by (induction xs) auto
  have "filter (\<lambda>w. f (fst w) = f k) (sort_key (\<lambda>w. f (fst w)) ws) = filter (\<lambda>w. f (fst w) = f k) ws"
    by (rule sort_key_stable)
  with m [of "sort_key (\<lambda>w. f (fst w)) ws"] m [of ws] show ?thesis by simp
qed

lemma wildcard_hosts_dot: "\<forall>(sfx, c) \<in> set (wildcard_hosts hs). \<exists>rest. sfx = CHR ''.'' # rest"
proof -
  have "\<exists>rest. drop 1 h = CHR ''.'' # rest" if "has_prefix h ''*.''" for h
  proof -
    from that obtain r where "h = ''*.'' @ r" unfolding has_prefix_def by (metis append_take_drop_id)
    then show ?thesis by simp
  qed
  then show ?thesis by (auto simp: wildcard_hosts_def)
qed

text \<open>
  (C32) Certificate selection agrees with the reference for every list of certificates and every server
  name: in particular the sorting of the wildcards by length changes nothing, because a \<^verbatim>\<open>*\<close>
  stands for exactly one label, so at most one wildcard pattern fits a name.
\<close>

theorem sni_lookup_eq_reference:
  assumes "list_all2 (\<lambda>e c. load (tcCert e) (tcKey e) = Inr c) entries certs"
  shows "\<exists>cm. buildCertMap load entries = Inr cm \<and> (\<forall>name. GetCertificate cm name = sni_reference (zip entries certs) (to_lower name))"
proof -
  let ?hs = "host_table (zip entries certs)"
  let ?ws = "sort_key (\<lambda>w. - int (length (fst w))) (wildcard_hosts ?hs)"
  let ?cm = "\<lparr>cmExact = map_of (rev (exact_hosts ?hs)), cmWildcards = ?ws, cmFallback = default_cert (zip entries certs)\<rparr>"
  have cm: "buildCertMap load entries = Inr ?cm"
    using load_certs_eq [OF assms] by (simp add: buildCertMap_def default_cert_def)
  have "\<forall>(sfx, c) \<in> set ?ws. \<exists>rest. sfx = CHR ''.'' # rest" using wildcard_hosts_dot by simp
  from wildcard_cert_eq [OF this]
  have "GetCertificate ?cm name = sni_reference (zip entries certs) (to_lower name)" for name
    using map_of_sort_key [of "\<lambda>h. - int (length h)" "wildcard_hosts ?hs"]
    by (auto simp: GetCertificate_def sni_reference_def Let_def split: option.split)
  with cm show ?thesis by blast
qed

definition sample_load :: "string \<Rightarrow> string \<Rightarrow> unit + string" where
  "sample_load cert key = Inr cert"

theorem sni_lookup_eq_reference_witness:
  "\<exists>cm. buildCertMap sample_load [\<lparr>tcCert = ''a'', tcKey = ''k'', tcHosts = [''*.Example.com'']\<rparr>] = Inr cm \<and>
     GetCertificate cm ''api.example.COM'' = Some ''a'' \<and> GetCertificate cm ''a.b.example.com'' = None"
proof -
  let ?e = "[\<lparr>tcCert = ''a'', tcKey = ''k'', tcHosts = [''*.Example.com'']\<rparr>]"
  have l: "list_all2 (\<lambda>e c. sample_load (tcCert e) (tcKey e) = Inr c) ?e [''a'']" by (simp add: sample_load_def)
  have r: "sni_reference (zip ?e [''a'']) (to_lower ''api.example.COM'') = Some ''a''" "sni_reference (zip ?e [''a'']) (to_lower ''a.b.example.com'') = None"
    by code_simp+
  from sni_lookup_eq_reference [OF l] r show ?thesis by auto
qed

subsection \<open>Construction\<close>

lemma valid_listener:
  assumes "validateListeners [lc] = None"
  shows "lTLS lc = Some t \<Longrightarrow> tls_min_version (tlsMinVersion t) \<noteq> None" and "lEnableHTTP3 lc \<Longrightarrow> lTLS lc \<noteq> None"
  using assms by (auto simp: validateListeners_def verr_def tls_min_version_def validTLSVersion_def split: if_splits)

lemma buildTLSConfig_cases:
  "buildTLSConfig load x = Inl (UnsupportedMinVersion v) \<Longrightarrow> \<exists>t. x = Some t \<and> tls_min_version (tlsMinVersion t) = None"
  "buildTLSConfig load x = Inr None \<Longrightarrow> x = None"
  by (auto simp: buildTLSConfig_def Let_def split: option.splits sum.splits if_splits)

lemma withTimeoutDefaults_positive:
  "0 < ltReadHeader (withTimeoutDefaults t)" "0 < ltRead (withTimeoutDefaults t)" "0 < ltWrite (withTimeoutDefaults t)" "0 < ltIdle (withTimeoutDefaults t)"
  by (simp_all add: withTimeoutDefaults_def Let_def)

lemma gate_400:
  assumes "\<not> framing_ok r"
  shows "status_of (respond (rnCalls (fst (smugglingHandler h ctx r w))) new_response) = 400"
    and "snd (smugglingHandler h ctx r w) = w"
    and "status_of (respond (rnCalls (fst (altSvcMiddleware (smugglingHandler h) b ctx r w))) new_response) = 400"
    and "snd (altSvcMiddleware (smugglingHandler h) b ctx r w) = w"
proof -
  have gate: "smugglingHandler h ctx' r w = (\<lparr>rnCalls = http_Error ''bad request'' 400, rnEnding = Returned, rnChosen = None, rnErr = None\<rparr>, w)" for ctx'
    using assms checkSmuggling_iff [of r] by (simp add: smugglingHandler_def)
  have st: "wCommitted r0 = None \<Longrightarrow> status_of (respond (http_Error ''bad request'' 400) r0) = 400" for r0
    using http_Error_status [of r0 400] by (simp add: informational_def)
  show "status_of (respond (rnCalls (fst (smugglingHandler h ctx r w))) new_response) = 400" and "snd (smugglingHandler h ctx r w) = w"
    and "status_of (respond (rnCalls (fst (altSvcMiddleware (smugglingHandler h) b ctx r w))) new_response) = 400"
    and "snd (altSvcMiddleware (smugglingHandler h) b ctx r w) = w"
    by (simp_all add: altSvcMiddleware_def gate st new_response_def Let_def)
qed

text \<open>
  Constructing a listener leaks nothing and guards everything: when \<^verbatim>\<open>New\<close> fails no socket stays
  open, when it succeeds the TCP socket is open (and the UDP socket exactly when HTTP/3 is on), all four
  timeouts are positive, and an ambiguously framed request gets 400 from the listener's handler without
  reaching the handler it was given. A configuration that passed validation cannot fail for its TLS
  version or for HTTP/3 without TLS.
\<close>

theorem listener_construction:
  assumes "listener_New load bind_tcp bind_udp lc h = (res, socks)"
  shows "case res of
      Inl e \<Rightarrow> socks = [] \<and> (validateListeners [lc] = None \<longrightarrow> e \<noteq> NoTLSForHTTP3 \<and> (\<forall>v. e \<noteq> TLSError (UnsupportedMinVersion v)))
    | Inr l \<Rightarrow> TCPSocket (lBind lc) \<in> set socks \<and> (UDPSocket (lBind lc) \<in> set socks \<longleftrightarrow> lEnableHTTP3 lc) \<and>
        0 < ltReadHeader (lnTimeouts l) \<and> 0 < ltRead (lnTimeouts l) \<and> 0 < ltWrite (lnTimeouts l) \<and> 0 < ltIdle (lnTimeouts l) \<and>
        (\<forall>ctx r w. \<not> framing_ok r \<longrightarrow>
          status_of (respond (rnCalls (fst (lnHandler l ctx r w))) new_response) = 400 \<and> snd (lnHandler l ctx r w) = w)"
proof -
  consider (bind) "\<not> bind_tcp (lBind lc)" | (tls) e where "bind_tcp (lBind lc)" "buildTLSConfig load (lTLS lc) = Inl e"
    | (ok) t where "bind_tcp (lBind lc)" "buildTLSConfig load (lTLS lc) = Inr t" by (cases "buildTLSConfig load (lTLS lc)") auto
  then show ?thesis
  proof cases
    case bind
    then show ?thesis using assms by (auto simp: listener_New_def)
  next
    case tls
    then have "res = Inl (TLSError e)" "socks = []" using assms by (auto simp: listener_New_def)
    then show ?thesis using valid_listener(1) [of lc] buildTLSConfig_cases(1) tls(2) by fastforce
  next
    case ok
    have three: "validateListeners [lc] = None \<longrightarrow> lEnableHTTP3 lc \<longrightarrow> t \<noteq> None"
      using valid_listener(2) buildTLSConfig_cases(2) ok(2) by metis
    show ?thesis
    proof (cases "lEnableHTTP3 lc")
      case True
      then show ?thesis using assms ok three gate_400 withTimeoutDefaults_positive
        by (auto simp: listener_New_def startHTTP3_def Let_def split: option.splits if_splits)
    next
      case False
      then show ?thesis using assms ok gate_400 withTimeoutDefaults_positive by (auto simp: listener_New_def Let_def)
    qed
  qed
qed

definition sample_listener :: listener_config where
  "sample_listener = \<lparr>lName = ''web'', lBind = '':443'', lTLS = None,
     lTimeouts = \<lparr>ltReadHeader = 0, ltRead = 0, ltWrite = 0, ltIdle = 0, ltMaxHeaderBytes = 0\<rparr>, lEnableHTTP3 = False\<rparr>"

theorem listener_construction_witness:
  "\<exists>l. listener_New sample_load (\<lambda>_. True) (\<lambda>_. True) sample_listener panicking = (Inr l, [TCPSocket '':443'']) \<and> 0 < ltRead (lnTimeouts l)"
proof -
  obtain res socks where new: "listener_New sample_load (\<lambda>_. True) (\<lambda>_. True) sample_listener panicking = (res, socks)" by fastforce
  then obtain l where l: "res = Inr l" "socks = [TCPSocket '':443'']"
    by (auto simp: listener_New_def sample_listener_def buildTLSConfig_def Let_def)
  from listener_construction [OF new] l new show ?thesis by auto
qed

end
