(* ===== verification/Build.thy ===== *)
theory Build
  imports Compress Headers L4 Listener "HOL-Library.AList"
begin

text \<open>
  From configuration to objects, the builders of \<^verbatim>\<open>cmd/l7rp/main.go\<close>: upstreams (reusing the live ones on a
  reload), selectors, pools with their health monitors, TCP pools, the middleware chain of a route and
  the route table. New \<^verbatim>\<open>*Upstream\<close> values are allocated at fresh addresses; pools and rate limiters get
  fresh numbers. \<open>build_env\<close> holds what is not in the repository or is decided outside: the URL parser, the
  sorting of the hash ring and of the wildcard buckets, \<^verbatim>\<open>math.Exp\<close>, \<^verbatim>\<open>ParseFloat\<close>, the encoders, the network,
  the key files. \<^verbatim>\<open>Monitor.Run\<close> begins in its own goroutine; its first action, making the pool
  ineligible, is placed at the moment the goroutine is started.
\<close>

section \<open>Environment and state\<close>

record ('c, 'z) build_env =
  beParseURL :: "string \<Rightarrow> string + url"
  beSortRing :: "ring \<Rightarrow> ring"
  beArrange :: "handler buckets \<Rightarrow> handler buckets"
  beExp :: "float64 \<Rightarrow> float64"
  beParseFloat :: "string \<Rightarrow> quality option"
  beCodecs :: "encoding \<Rightarrow> 'z codec"
  beSchedule :: "world \<Rightarrow> hedge_schedule"
  beTransport :: "nat \<Rightarrow> http_request \<Rightarrow> world \<Rightarrow> round_trip"
  beSockets :: "nat \<Rightarrow> http_request \<Rightarrow> world \<Rightarrow> ws_io"
  beReadFile :: "string \<Rightarrow> string option"
  beParsesPEM :: "string \<Rightarrow> bool"
  beLoadKeyPair :: "string \<Rightarrow> string \<Rightarrow> string + 'c"
  beBindTCP :: "string \<Rightarrow> bool"
  beBindUDP :: "string \<Rightarrow> bool"

record build_state =
  bsNextUpstream :: uid
  bsNextPool :: nat
  bsNextLimiter :: nat
  bsWorld :: world
  bsMonitorOn :: "nat \<Rightarrow> bool"

datatype build_error =
  BadURL string string
| UnknownSelector string
| ReadCAError string
| NoCertsParsed string
| ClientCertError string
| UnknownPool string string
| RouterError router_error
| ListenerError string "string listener_error"

section \<open>Upstreams and selectors\<close>

definition new_upstream :: "url \<Rightarrow> int \<Rightarrow> bool \<Rightarrow> upstream" where
  "new_upstream u weight eligible =
     \<lparr>uURL = u, uWeight = weight, uEligible = eligible, uInFlight = 0, uLatencyEWMA = 0, uLastUpdate = 0,
      uBreaker = NewCircuitBreaker DefaultCircuitBreakerConfig\<rparr>"

definition upstreams_by_url :: "heap \<Rightarrow> uid list \<Rightarrow> string \<rightharpoonup> uid" where
  "upstreams_by_url h existing = map_of (rev (map (\<lambda>u. (uString (uURL (h u)), u)) existing))"

fun upstreams_loop ::
  "(string \<Rightarrow> string + url) \<Rightarrow> (string \<rightharpoonup> uid) \<Rightarrow> upstream_config list \<Rightarrow> uid \<Rightarrow> heap \<Rightarrow> (build_error + uid list) \<times> uid \<times> heap" where
  "upstreams_loop parse byURL [] n h = (Inr [], n, h)"
| "upstreams_loop parse byURL (uc # ucs) n h =
     (case parse (ucURL uc) of
        Inl e \<Rightarrow> (Inl (BadURL (ucURL uc) e), n, h)
      | Inr u \<Rightarrow>
          let weight = (if ucWeight uc \<le> 0 then 1 else ucWeight uc);
              (x, n1, h1) =
                (case byURL (uString u) of
                   Some reused \<Rightarrow> (reused, n, h(reused := (h reused)\<lparr>uWeight := weight\<rparr>))
                 | None \<Rightarrow> (n, n + 1, h(n := new_upstream u weight False)));
              (res, n2, h2) = upstreams_loop parse byURL ucs n1 h1
          in (map_sum id ((#) x) res, n2, h2))"

definition buildUpstreamsReusing ::
  "(string \<Rightarrow> string + url) \<Rightarrow> upstream_config list \<Rightarrow> uid list \<Rightarrow> uid \<Rightarrow> heap \<Rightarrow> (build_error + uid list) \<times> uid \<times> heap" where
  "buildUpstreamsReusing parse cfgs existing n h = upstreams_loop parse (upstreams_by_url h existing) cfgs n h"

definition parseHashKey :: "string \<Rightarrow> key_extractor" where
  "parseHashKey spec =
     (if spec = ''client_ip'' \<or> spec = [] then (\<lambda>req. Some (ClientIPKey req))
      else if has_prefix spec ''header:'' then HeaderKey (trim_prefix spec ''header:'')
      else if has_prefix spec ''cookie:'' then CookieKey (trim_prefix spec ''cookie:'')
      else (\<lambda>req. Some (ClientIPKey req)))"

definition buildSelector :: "(ring \<Rightarrow> ring) \<Rightarrow> selector_config \<Rightarrow> heap \<Rightarrow> uid list \<Rightarrow> build_error + any_selector" where
  "buildSelector sort_ring sc h upstreams =
     (let algo = (if sAlgorithm sc = [] then ''p2c-ewma'' else sAlgorithm sc)
      in if algo = ''round-robin'' then Inr (SelRoundRobin (NewRoundRobin upstreams))
         else if algo = ''weighted-rr'' then Inr (SelWeighted (NewWeightedRoundRobin upstreams))
         else if algo = ''least-conn'' then Inr (SelLeastConnections (NewLeastConnections upstreams))
         else if algo = ''p2c-ewma''
         then let half = (if sEWMAHalfLife sc \<le> 0 then 5 * second else sEWMAHalfLife sc) in Inr (SelP2C (NewP2C upstreams half))
         else if algo = ''consistent-hash-bounded''
         then let eps = (if sEpsilon sc \<le> 0 then 1 / 4 else sEpsilon sc);
                  vnodes = (if sVirtualNodes sc \<le> 0 then 128 else sVirtualNodes sc);
                  extract = parseHashKey (sHashKey sc)
              in Inr (SelConsistentHash (NewConsistentHashBounded sort_ring h upstreams vnodes eps extract))
         else Inl (UnknownSelector algo))"

section \<open>Pools\<close>

record 'c upstream_tls =
  xtServerName :: string
  xtInsecureSkipVerify :: bool
  xtRootCAs :: "string option"
  xtCertificate :: "'c option"

definition loadUpstreamTLS :: "('c, 'z) build_env \<Rightarrow> upstream_tls_config option \<Rightarrow> build_error + 'c upstream_tls option" where
  "loadUpstreamTLS env tcfg =
     (case tcfg of
        None \<Rightarrow> Inr None
      | Some t \<Rightarrow>
          let out = \<lparr>xtServerName = utServerName t, xtInsecureSkipVerify = utInsecureSkipVerify t, xtRootCAs = None, xtCertificate = None\<rparr>;
              roots = (if utCAFile t \<noteq> []
                then (case beReadFile env (utCAFile t) of
                        None \<Rightarrow> Inl (ReadCAError (utCAFile t))
                      | Some pem \<Rightarrow> if \<not> beParsesPEM env pem then Inl (NoCertsParsed (utCAFile t)) else Inr (out\<lparr>xtRootCAs := Some pem\<rparr>))
                else Inr out)
          in case roots of
               Inl e \<Rightarrow> Inl e
             | Inr out1 \<Rightarrow>
                 if utClientCertFile t \<noteq> []
                 then (case beLoadKeyPair env (utClientCertFile t) (utClientKeyFile t) of
                         Inl e \<Rightarrow> Inl (ClientCertError e)
                       | Inr cert \<Rightarrow> Inr (Some (out1\<lparr>xtCertificate := Some cert\<rparr>)))
                 else Inr (Some out1))"

record 'c transport =
  ntDialTimeout :: duration
  ntTLSHandshakeTimeout :: duration
  ntResponseHeaderTimeout :: duration
  ntIdleConnTimeout :: duration
  ntMaxIdleConns :: int
  ntMaxIdleConnsPerHost :: int
  ntTLS :: "'c upstream_tls option"

definition newUpstreamTransport :: "duration \<Rightarrow> 'c upstream_tls option \<Rightarrow> 'c transport" where
  "newUpstreamTransport connectTimeout tlsCfg =
     (let t = (if connectTimeout \<le> 0 then 5 * second else connectTimeout)
      in \<lparr>ntDialTimeout = t, ntTLSHandshakeTimeout = t, ntResponseHeaderTimeout = 30 * second, ntIdleConnTimeout = 90 * second,
          ntMaxIdleConns = 1024, ntMaxIdleConnsPerHost = 256, ntTLS = tlsCfg\<rparr>)"

record 'c runtime_pool =
  rpName :: string
  rpUpstreams :: "uid list"
  rpNumber :: nat
  rpTransport :: "'c transport"
  rpHasMonitor :: bool

definition set_eligible :: "bool \<Rightarrow> uid list \<Rightarrow> heap \<Rightarrow> heap" where
  "set_eligible e us h = (\<lambda>u. if u \<in> set us then (h u)\<lparr>uEligible := e\<rparr> else h u)"

definition buildPool ::
  "('c, 'z) build_env \<Rightarrow> pool_config \<Rightarrow> uid list \<Rightarrow> build_state \<Rightarrow> (build_error + 'c runtime_pool) \<times> build_state" where
  "buildPool env p existing bs =
     (let (ups, n, h) = buildUpstreamsReusing (beParseURL env) (pUpstreams p) existing (bsNextUpstream bs) (wUpstreams (bsWorld bs));
          bs1 = bs\<lparr>bsNextUpstream := n, bsWorld := (bsWorld bs)\<lparr>wUpstreams := h\<rparr>\<rparr>
      in case ups of
           Inl e \<Rightarrow> (Inl e, bs1)
         | Inr upstreams \<Rightarrow>
             (case buildSelector (beSortRing env) (pSelector p) h upstreams of
                Inl e \<Rightarrow> (Inl e, bs1)
              | Inr sel \<Rightarrow>
                  (case loadUpstreamTLS env (pUpstreamTLS p) of
                     Inl e \<Rightarrow> (Inl e, bs1)
                   | Inr tlsCfg \<Rightarrow>
                       let k = bsNextPool bs1;
                           mon = NewMonitor (pName p) upstreams (hActive (pHealth p)) (hPassive (pHealth p));
                           h' = (case mon of Some m \<Rightarrow> Run_start m h | None \<Rightarrow> set_eligible True upstreams h);
                           w = bsWorld bs1;
                           w' = w\<lparr>wUpstreams := h', wSelectors := (wSelectors w)(k := sel), wMonitors := (wMonitors w)(k := mon)\<rparr>
                       in (Inr \<lparr>rpName = pName p, rpUpstreams = upstreams, rpNumber = k,
                                rpTransport = newUpstreamTransport (pConnectTimeout p) tlsCfg, rpHasMonitor = (mon \<noteq> None)\<rparr>,
                           bs1\<lparr>bsNextPool := k + 1, bsWorld := w', bsMonitorOn := (bsMonitorOn bs1)(k := (mon \<noteq> None))\<rparr>))))"

record runtime_tcp_pool =
  tcName :: string
  tcUpstreams :: "uid list"
  tcProxy :: l4_proxy

fun tcp_upstreams_loop ::
  "(string \<Rightarrow> string + url) \<Rightarrow> tcp_upstream_config list \<Rightarrow> uid \<Rightarrow> heap \<Rightarrow> (build_error + uid list) \<times> uid \<times> heap" where
  "tcp_upstreams_loop parse [] n h = (Inr [], n, h)"
| "tcp_upstreams_loop parse (uc # ucs) n h =
     (case parse (''tcp://'' @ tuAddress uc) of
        Inl e \<Rightarrow> (Inl (BadURL (tuAddress uc) e), n, h)
      | Inr u \<Rightarrow>
          let (res, n2, h2) = tcp_upstreams_loop parse ucs (n + 1) (h(n := new_upstream u (tuWeight uc) True))
          in (map_sum id ((#) n) res, n2, h2))"

definition buildTCPPool ::
  "('c, 'z) build_env \<Rightarrow> tcp_pool_config \<Rightarrow> build_state \<Rightarrow> (build_error + runtime_tcp_pool) \<times> build_state" where
  "buildTCPPool env p bs =
     (let (ups, n, h) = tcp_upstreams_loop (beParseURL env) (tpUpstreams p) (bsNextUpstream bs) (wUpstreams (bsWorld bs));
          bs1 = bs\<lparr>bsNextUpstream := n, bsWorld := (bsWorld bs)\<lparr>wUpstreams := h\<rparr>\<rparr>
      in case ups of
           Inl e \<Rightarrow> (Inl e, bs1)
         | Inr upstreams \<Rightarrow>
             (case buildSelector (beSortRing env) (tpSelector p) h upstreams of
                Inl e \<Rightarrow> (Inl e, bs1)
              | Inr sel \<Rightarrow>
                  let k = bsNextPool bs1; w = bsWorld bs1
                  in (Inr \<lparr>tcName = tpName p, tcUpstreams = upstreams,
                           tcProxy = \<lparr>l4PoolName = tpName p, l4Selector = k, l4ConnectTimeout = tpConnectTimeout p\<rparr>\<rparr>,
                      bs1\<lparr>bsNextPool := k + 1, bsWorld := w\<lparr>wSelectors := (wSelectors w)(k := sel)\<rparr>\<rparr>)))"

section \<open>Middleware chains\<close>

definition toRateLimitConfig :: "rate_limit_config \<Rightarrow> string \<Rightarrow> rate_limit_mw" where
  "toRateLimitConfig c routeName =
     \<lparr>mlScope = rlScope c, mlRPS = rlPerIPRPS c, mlBurst = rlBurst c, mlTrustProxyHops = rlTrustProxyHops c, mlRouteName = routeName\<rparr>"

definition toHeaderTransformConfig :: "header_transform_config \<Rightarrow> header_transform_mw" where
  "toHeaderTransformConfig c =
     \<lparr>hmAddRequest = htAddRequest c, hmRemoveRequest = htRemoveRequest c, hmAddResponse = htAddResponse c,
      hmRemoveResponse = htRemoveResponse c, hmDisableForwardedFor = False, hmTrustProxyHops = 0\<rparr>"

definition toRetryConfig :: "retry_config \<Rightarrow> retry_mw" where
  "toRetryConfig c =
     \<lparr>rtMaxAttempts = (if rcMaxAttempts c = 0 then 1 else rcMaxAttempts c),
      rtRetryMethods = (if rcRetryMethods c = [] then [''GET'', ''HEAD'', ''PUT'', ''DELETE''] else rcRetryMethods c),
      rtRetryOn = (if rcRetryOn c = [] then [502, 503, 504] else rcRetryOn c),
      rtMaxReplayableBody = (if rcMaxReplayableBody c = 0 then 64 * 1024 else rcMaxReplayableBody c),
      rtHedgeAfter = rcHedgeAfter c, rtHedgeAfterPercentile = rcHedgeAfterPercentile c,
      rtHedgeableMethods = (if rcHedgeableMethods c = [] then [''GET'', ''HEAD''] else rcHedgeableMethods c)\<rparr>"

record mw_slots =
  slRateLimit :: "rate_limit_mw option"
  slRetry :: "retry_mw option"
  slHeaders :: "header_transform_mw option"
  slCompress :: "compress_mw option"

definition slot_middleware :: "string \<Rightarrow> middleware_config \<Rightarrow> mw_slots \<Rightarrow> mw_slots" where
  "slot_middleware routeName mw s =
     (case mcRateLimit mw of
        Some c \<Rightarrow> s\<lparr>slRateLimit := Some (toRateLimitConfig c routeName)\<rparr>
      | None \<Rightarrow>
        (case mcRetry mw of
           Some c \<Rightarrow> s\<lparr>slRetry := Some (toRetryConfig c)\<rparr>
         | None \<Rightarrow>
           (case mcHeaderTransform mw of
              Some c \<Rightarrow> s\<lparr>slHeaders := Some (toHeaderTransformConfig c)\<rparr>
            | None \<Rightarrow>
              (case mcCompress mw of
                 Some c \<Rightarrow> s\<lparr>slCompress := Some \<lparr>cmMinBytes = cMinBytes c, cmSkipContentTypes = cSkipContentTypes c\<rparr>\<rparr>
               | None \<Rightarrow> s))))"

definition middleware_slots :: "route_config \<Rightarrow> mw_slots" where
  "middleware_slots rc =
     fold (slot_middleware (rName rc)) (rMiddleware rc) \<lparr>slRateLimit = None, slRetry = None, slHeaders = None, slCompress = None\<rparr>"

definition opt_list :: "'a option \<Rightarrow> 'a list" where
  "opt_list x = (case x of None \<Rightarrow> [] | Some a \<Rightarrow> [a])"

text \<open>\<open>n\<close> is the number of the route's rate limiter.\<close>

definition buildMiddleware :: "('c, 'z) build_env \<Rightarrow> nat \<Rightarrow> route_config \<Rightarrow> middleware list" where
  "buildMiddleware env n rc =
     (let s = middleware_slots rc
      in [RequestID, AccessLog (rName rc), PanicRecover] @
         map (RateLimit n) (opt_list (slRateLimit s)) @
         (if rTotalTimeout rc > 0 then [Timeout (rTotalTimeout rc)] else []) @
         map (Retry (beSchedule env)) (opt_list (slRetry s)) @
         map HeaderTransform (opt_list (slHeaders s)) @
         map (Compress (beParseFloat env) (beCodecs env)) (opt_list (slCompress s)))"

section \<open>Routes\<close>

definition NewProxy :: "('c, 'z) build_env \<Rightarrow> 'c runtime_pool \<Rightarrow> proxy" where
  "NewProxy env pool =
     \<lparr>pxPoolName = rpName pool, pxSelector = rpNumber pool, pxTransport = beTransport env (rpNumber pool),
      pxSockets = beSockets env (rpNumber pool),
      pxPassive = (if rpHasMonitor pool then Some (monitor_recorder (beExp env) (rpNumber pool)) else None)\<rparr>"

definition route_handler :: "('c, 'z) build_env \<Rightarrow> nat \<Rightarrow> route_config \<Rightarrow> 'c runtime_pool \<Rightarrow> handler" where
  "route_handler env n rc pool = observingHandler (rName rc) (Chain (buildMiddleware env n rc) (proxy_ServeHTTP (NewProxy env pool)))"

definition install_limiter :: "nat \<Rightarrow> route_config \<Rightarrow> world \<Rightarrow> world" where
  "install_limiter n rc w =
     (case slRateLimit (middleware_slots rc) of
        None \<Rightarrow> w
      | Some c \<Rightarrow> w\<lparr>wLimiters := (wLimiters w)(n := limiter_of c)\<rparr>)"

fun buildRoutes ::
  "('c, 'z) build_env \<Rightarrow> route_config list \<Rightarrow> (string \<times> 'c runtime_pool) list \<Rightarrow> build_state \<Rightarrow>
   (build_error + handler route list) \<times> build_state" where
  "buildRoutes env [] pools bs = (Inr [], bs)"
| "buildRoutes env (rc # rcs) pools bs =
     (case map_of pools (rPool rc) of
        None \<Rightarrow> (Inl (UnknownPool (rName rc) (rPool rc)), bs)
      | Some pool \<Rightarrow>
          let n = bsNextLimiter bs;
              bs1 = bs\<lparr>bsNextLimiter := n + 1, bsWorld := install_limiter n rc (bsWorld bs)\<rparr>;
              r = \<lparr>rtName = rName rc, rtHostPattern = rcHost rc, rtPathPrefix = rPathPrefix rc,
                   rtHeaderPredicates = rHeaderPredicates rc, rtHandler = route_handler env n rc pool\<rparr>;
              (res, bs2) = buildRoutes env rcs pools bs1
          in (map_sum id ((#) r) res, bs2))"

definition build_router ::
  "('c, 'z) build_env \<Rightarrow> route_config list \<Rightarrow> (string \<times> 'c runtime_pool) list \<Rightarrow> build_state \<Rightarrow> (build_error + handler router) \<times> build_state" where
  "build_router env rcs pools bs =
     (let (res, bs') = buildRoutes env rcs pools bs
      in case res of
           Inl e \<Rightarrow> (Inl e, bs')
         | Inr routes \<Rightarrow> (case NewRouter (beArrange env) routes of Inl e \<Rightarrow> (Inl (RouterError e), bs') | Inr r \<Rightarrow> (Inr r, bs')))"

section \<open>What the builders guarantee\<close>

text \<open>The part of an upstream a reload may change is its weight.\<close>

definition same_but_weight :: "upstream \<Rightarrow> upstream \<Rightarrow> bool" where
  "same_but_weight u v \<longleftrightarrow> u\<lparr>uWeight := uWeight v\<rparr> = v"

definition entry_built :: "(string \<Rightarrow> string + url) \<Rightarrow> (string \<rightharpoonup> uid) \<Rightarrow> uid \<Rightarrow> heap \<Rightarrow> upstream_config \<Rightarrow> uid \<Rightarrow> bool" where
  "entry_built parse byURL n h uc x \<longleftrightarrow>
     (\<exists>u. parse (ucURL uc) = Inr u \<and>
       (case byURL (uString u) of
          Some r \<Rightarrow> x = r
        | None \<Rightarrow> n \<le> x \<and> h x = new_upstream u (if ucWeight uc \<le> 0 then 1 else ucWeight uc) False))"

lemma same_but_weight_simps [simp]:
  "same_but_weight u u" "same_but_weight (u\<lparr>uWeight := k\<rparr>) v \<longleftrightarrow> same_but_weight u v"
  by (simp_all add: same_but_weight_def)

lemma same_but_weight_update [simp]: "same_but_weight u (v\<lparr>uWeight := k\<rparr>) \<longleftrightarrow> same_but_weight u v"
  by (cases u; cases v) (auto simp: same_but_weight_def)

lemma upstreams_loop_frame:
  assumes "upstreams_loop parse byURL cfgs n h = (res, n', h')" and "\<forall>k r. byURL k = Some r \<longrightarrow> r < m" and "m \<le> n"
  shows "n \<le> n' \<and> (\<forall>v < m. same_but_weight (h' v) (h v)) \<and> (\<forall>v. m \<le> v \<and> v < n \<longrightarrow> h' v = h v)"
  using assms
proof (induction cfgs arbitrary: n h res)
  case (Cons uc ucs)
  show ?case
  proof (cases "parse (ucURL uc)")
    case (Inr u)
    show ?thesis
    proof (cases "byURL (uString u)")
      case None
      let ?h = "h(n := new_upstream u (if ucWeight uc \<le> 0 then 1 else ucWeight uc) False)"
      obtain res' where "upstreams_loop parse byURL ucs (n + 1) ?h = (res', n', h')"
        using Cons.prems(1) Inr None by (auto simp: Let_def split: prod.splits)
      from Cons.IH [OF this Cons.prems(2)] Cons.prems(3) show ?thesis by fastforce
    next
      case (Some r)
      let ?h = "h(r := (h r)\<lparr>uWeight := (if ucWeight uc \<le> 0 then 1 else ucWeight uc)\<rparr>)"
      obtain res' where t: "upstreams_loop parse byURL ucs n ?h = (res', n', h')"
        using Cons.prems(1) Inr Some by (auto simp: Let_def split: prod.splits)
      have r: "r < m" using Cons.prems(2) Some by blast
      have "same_but_weight (h' v) (?h v)" if "v < m" for v using Cons.IH [OF t Cons.prems(2,3)] that by blast
      then have "same_but_weight (h' v) (h v)" if "v < m" for v using that by (cases "v = r") force+
      then show ?thesis using Cons.IH [OF t Cons.prems(2,3)] r by auto
    qed
  qed (use Cons.prems in simp)
qed simp

lemma upstreams_loop_entries:
  assumes "upstreams_loop parse byURL cfgs n h = (Inr out, n', h')" and "\<forall>k r. byURL k = Some r \<longrightarrow> r < m" and "m \<le> n"
  shows "list_all2 (entry_built parse byURL m h') cfgs out"
  using assms
proof (induction cfgs arbitrary: n h out)
  case (Cons uc ucs)
  obtain u where u: "parse (ucURL uc) = Inr u" using Cons.prems(1) by (cases "parse (ucURL uc)") auto
  let ?w = "if ucWeight uc \<le> 0 then 1 else ucWeight uc"
  show ?case
  proof (cases "byURL (uString u)")
    case None
    obtain out' where t: "upstreams_loop parse byURL ucs (n + 1) (h(n := new_upstream u ?w False)) = (Inr out', n', h')" "out = n # out'"
      using Cons.prems(1) u None by (auto simp: Let_def map_sum_def split: prod.splits sum.splits)
    have "h' n = new_upstream u ?w False"
      using upstreams_loop_frame [OF t(1) Cons.prems(2)] Cons.prems(3) by fastforce
    then have "entry_built parse byURL m h' uc n" using u None Cons.prems(3) by (auto simp: entry_built_def)
    then show ?thesis using Cons.IH [OF t(1) Cons.prems(2)] Cons.prems(3) t(2) by simp
  next
    case (Some r)
    obtain out' where t: "upstreams_loop parse byURL ucs n (h(r := (h r)\<lparr>uWeight := ?w\<rparr>)) = (Inr out', n', h')" "out = r # out'"
      using Cons.prems(1) u Some by (auto simp: Let_def map_sum_def split: prod.splits sum.splits)
    have "entry_built parse byURL m h' uc r" using u Some by (auto simp: entry_built_def)
    then show ?thesis using Cons.IH [OF t(1) Cons.prems(2,3)] t(2) by simp
  qed
qed simp

lemma upstreams_by_url_Some:
  "upstreams_by_url h existing k = Some r \<Longrightarrow> r \<in> set existing \<and> uString (uURL (h r)) = k"
  by (auto simp: upstreams_by_url_def dest!: map_of_SomeD)

lemma upstreams_by_url_None: "upstreams_by_url h existing k = None \<longleftrightarrow> (\<forall>r \<in> set existing. uString (uURL (h r)) \<noteq> k)"
  by (auto simp: upstreams_by_url_def map_of_eq_None_iff image_image)


definition sample_url :: "string \<Rightarrow> string + url" where
  "sample_url s = Inr \<lparr>uScheme = ''http'', uHost = s, uPath = [], uString = s\<rparr>"


text \<open>Errors of the configuration files and the network, as opposed to errors of wiring.\<close>

fun external_error :: "build_error \<Rightarrow> bool" where
  "external_error (UnknownSelector _) = False"
| "external_error (UnknownPool _ _) = False"
| "external_error _ = True"

lemma known_algorithm_builds:
  "sAlgorithm sc \<in> set knownAlgorithms \<Longrightarrow> \<exists>sel. buildSelector srt sc h us = Inr sel \<and> sel_pool sel = us"
  by (auto simp: knownAlgorithms_def buildSelector_def Let_def NewRoundRobin_def NewWeightedRoundRobin_def NewLeastConnections_def NewP2C_def
      NewConsistentHashBounded_def)

lemma upstreams_loop_error: "fst (upstreams_loop parse byURL cfgs n h) = Inl e \<Longrightarrow> external_error e"
proof (induction cfgs arbitrary: n h)
  case (Cons uc ucs)
  show ?case
  proof (cases "parse (ucURL uc)")
    case (Inr u)
    with Cons.prems obtain n1 h1 where "fst (upstreams_loop parse byURL ucs n1 h1) = Inl e"
      by (auto simp: Let_def case_prod_beta map_sum_def split: sum.splits option.splits)
    then show ?thesis by (rule Cons.IH)
  qed (use Cons.prems in auto)
qed simp

lemma buildPool_error:
  assumes "sAlgorithm (pSelector p) \<in> set knownAlgorithms" and "fst (buildPool env p ex bs) = Inl e"
  shows "external_error e"
proof -
  let ?u = "buildUpstreamsReusing (beParseURL env) (pUpstreams p) ex (bsNextUpstream bs) (wUpstreams (bsWorld bs))"
  obtain ups n h where u: "?u = (ups, n, h)" by (metis surj_pair)
  show ?thesis
  proof (cases ups)
    case (Inl a)
    have "fst ?u = Inl a" by (simp add: u Inl)
    then have "external_error a" unfolding buildUpstreamsReusing_def by (rule upstreams_loop_error)
    then show ?thesis using assms(2) u Inl by (simp add: buildPool_def)
  next
    case (Inr us)
    obtain sel where "buildSelector (beSortRing env) (pSelector p) h us = Inr sel" using known_algorithm_builds [OF assms(1)] by blast
    then show ?thesis using assms(2) u Inr
      by (auto simp: buildPool_def loadUpstreamTLS_def Let_def split: sum.splits option.splits if_splits)
  qed
qed

lemma buildRoutes_ok: "\<forall>rc \<in> set rcs. rPool rc \<in> fst ` set pools \<Longrightarrow> \<exists>rs bs'. buildRoutes env rcs pools bs = (Inr rs, bs')"
proof (induction rcs arbitrary: bs)
  case (Cons rc rcs)
  obtain pool where p: "map_of pools (rPool rc) = Some pool"
    using Cons.prems by (metis (no_types, lifting) list.set_intros(1) map_of_eq_None_iff option.exhaust)
  let ?bs1 = "bs\<lparr>bsNextLimiter := bsNextLimiter bs + 1, bsWorld := install_limiter (bsNextLimiter bs) rc (bsWorld bs)\<rparr>"
  obtain rs bs' where "buildRoutes env rcs pools ?bs1 = (Inr rs, bs')" using Cons by fastforce
  with p show ?case by (simp add: Let_def)
qed simp

text \<open>
  (C20) Validated configurations do not go wrong in the wiring: if \<^verbatim>\<open>Validate\<close> accepts a configuration,
  building any of its HTTP pools can fail only for reasons outside the configuration (an unparsable URL,
  a missing or broken key file), and once its pools are built the routes are always wired, whatever
  the order and content of the rest.
\<close>

theorem validated_config_wires:
  assumes "Validate c = None"
  shows "(\<forall>p \<in> set (Pools c). \<forall>ex bs e. fst (buildPool env p ex bs) = Inl e \<longrightarrow> external_error e) \<and>
    (\<forall>pools bs. map fst pools = map pName (Pools c) \<longrightarrow> (\<exists>rs bs'. buildRoutes env (Routes c) pools bs = (Inr rs, bs')))"
proof -
  have "validatePools (Pools c) = None" "validateRoutes (Routes c) (Pools c) = None"
    using assms by (auto simp: Validate_def split: option.splits)
  then have ok: "\<forall>p \<in> set (Pools c). pool_ok p" "\<forall>r \<in> set (Routes c). rPool r \<in> pName ` set (Pools c)"
    unfolding validatePools_def validateRoutes_def validatePools_from_None validateRoutes_from_None
    by (auto simp: route_ok_def)
  have "\<exists>rs bs'. buildRoutes env (Routes c) pools bs = (Inr rs, bs')" if "map fst pools = map pName (Pools c)" for pools bs
  proof (rule buildRoutes_ok)
    have "fst ` set pools = pName ` set (Pools c)" using that by (metis list.set_map)
    with ok(2) show "\<forall>rc \<in> set (Routes c). rPool rc \<in> fst ` set pools" by auto
  qed
  moreover have "external_error e" if "p \<in> set (Pools c)" "fst (buildPool env p ex bs) = Inl e" for p ex bs e
    using buildPool_error [OF _ that(2)] ok(1) that(1) by (simp add: pool_ok_def)
  ultimately show ?thesis by blast
qed

definition sample_pool_config :: pool_config where
  "sample_pool_config = \<lparr>pName = ''p'', pSelector = \<lparr>sAlgorithm = ''weighted-rr'', sEWMAHalfLife = 0, sHashKey = [], sEpsilon = 0, sVirtualNodes = 0\<rparr>,
     pUpstreams = [\<lparr>ucURL = ''http://a'', ucWeight = 0\<rparr>, \<lparr>ucURL = ''http://b'', ucWeight = 3\<rparr>], pHealth = \<lparr>hActive = None, hPassive = None\<rparr>,
     pConnectTimeout = 0, pUpstreamTLS = None\<rparr>"

definition sample_route_config :: "string \<Rightarrow> header_predicate list \<Rightarrow> route_config" where
  "sample_route_config name preds = \<lparr>rName = name, rcHost = ''example.com'', rPathPrefix = ''/'', rHeaderPredicates = preds, rPool = ''p'',
     rMiddleware = [], rTotalTimeout = 0\<rparr>"

definition sample_config :: "route_config list \<Rightarrow> config" where
  "sample_config rs = \<lparr>Listeners = [], Pools = [sample_pool_config], Routes = rs, TCPListeners = [], TCPPools = []\<rparr>"

definition sample_env :: "(string, unit) build_env" where
  "sample_env = \<lparr>beParseURL = sample_url, beSortRing = sort_key fst, beArrange = sort_key (\<lambda>b. - int (length (fst b))), beExp = (\<lambda>_. 1),
     beParseFloat = tenth_floats, beCodecs = (\<lambda>_. nopWriteCloser), beSchedule = (\<lambda>_. PrimaryInTime),
     beTransport = (\<lambda>_ _ _. \<lparr>teResult = RTError ''refused'', teElapsed = 5, teCtxErr = None\<rparr>),
     beSockets = (\<lambda>_ _ _. \<lparr>wsHijacked = True, wsDial = (\<lambda>_ _. True), wsWritten = True, wsAnswer = Some 101, wsRelayed = True, wsElapsed = 9\<rparr>),
     beReadFile = (\<lambda>_. None), beParsesPEM = (\<lambda>_. False), beLoadKeyPair = (\<lambda>cert key. Inr cert), beBindTCP = (\<lambda>_. True), beBindUDP = (\<lambda>_. True)\<rparr>"

definition sample_state :: build_state where
  "sample_state = \<lparr>bsNextUpstream = 0, bsNextPool = 0, bsNextLimiter = 0, bsWorld = sample_world, bsMonitorOn = (\<lambda>_. False)\<rparr>"

definition sample_runtime_pool :: "string runtime_pool" where
  "sample_runtime_pool = \<lparr>rpName = ''p'', rpUpstreams = [0], rpNumber = 0, rpTransport = newUpstreamTransport 0 None, rpHasMonitor = False\<rparr>"

theorem validated_config_wires_witness:
  "\<exists>rs bs'. buildRoutes sample_env [sample_route_config ''r'' []] [(''p'', sample_runtime_pool)] sample_state = (Inr rs, bs')"
proof -
  let ?c = "sample_config [sample_route_config ''r'' []]"
  have v: "Validate ?c = None" by code_simp
  have c: "Routes ?c = [sample_route_config ''r'' []]" "map pName (Pools ?c) = [''p'']"
    by (simp_all add: sample_config_def sample_pool_config_def)
  have "map fst [(''p'', sample_runtime_pool)] = map pName (Pools ?c)" by (simp add: c)
  with validated_config_wires [OF v, of sample_env] show ?thesis unfolding c(1) by blast
qed

text \<open>A freshly built pool is ready for its selector.\<close>

lemma fresh_entries:
  assumes "buildUpstreamsReusing parse cfgs [] n h = (Inr out, n', h')"
  shows "length out = length cfgs \<and>
    (\<forall>x \<in> set out. 0 < uWeight (h' x) \<and> uInFlight (h' x) = 0 \<and> uBreaker (h' x) = NewCircuitBreaker DefaultCircuitBreakerConfig)"
proof -
  have no_old: "upstreams_by_url h [] = Map.empty" by (simp add: upstreams_by_url_def)
  have l: "list_all2 (entry_built parse Map.empty n h') cfgs out"
    using assms unfolding buildUpstreamsReusing_def no_old by (rule upstreams_loop_entries) simp_all
  have "0 < uWeight (h' x) \<and> uInFlight (h' x) = 0 \<and> uBreaker (h' x) = NewCircuitBreaker DefaultCircuitBreakerConfig" if xin: "x \<in> set out" for x
  proof -
    obtain i where i: "i < length out" "x = out ! i" using xin unfolding in_set_conv_nth by blast
    then have "entry_built parse Map.empty n h' (cfgs ! i) x" using list_all2_nthD2 [OF l i(1)] by simp
    then obtain u where "h' x = new_upstream u (if ucWeight (cfgs ! i) \<le> 0 then 1 else ucWeight (cfgs ! i)) False"
      unfolding entry_built_def option.case by blast
    then show ?thesis by (simp add: new_upstream_def)
  qed
  with list_all2_lengthD [OF l] show ?thesis by simp
qed

lemma built_selector_ready:
  assumes "buildSelector srt sc h us = Inr sel" and "\<forall>x \<in> set us. 0 < uWeight (h' x) \<and> uInFlight (h' x) = 0"
  shows "sel_ready sel h' \<and> sel_pool sel = us"
  using assms by (auto simp: buildSelector_def Let_def NewRoundRobin_def NewWeightedRoundRobin_def NewLeastConnections_def NewP2C_def
      NewConsistentHashBounded_def wrr_ready_def lc_ready_def ch_ready_def split: if_splits)

text \<open>
  A new pool serves at once: a pool built without health checks and with at least one upstream
  finds an upstream for the very first request, whatever its selection algorithm and whatever weights
  the configuration gives (zero and negative weights count as one).
\<close>

theorem fresh_pool_serves:
  assumes "buildPool env p [] bs = (Inr pool, bs')" and "hActive (pHealth p) = None" and "pUpstreams p \<noteq> []"
    and "sel_draws e (length (pUpstreams p))"
  shows "\<exists>u \<in> set (rpUpstreams pool).
    fst (sel_Pick e now [] (wSelectors (bsWorld bs') (rpNumber pool)) (wUpstreams (bsWorld bs'))) = Picked u"
proof -
  obtain ups n h where u: "buildUpstreamsReusing (beParseURL env) (pUpstreams p) [] (bsNextUpstream bs) (wUpstreams (bsWorld bs)) = (ups, n, h)"
    by (metis surj_pair)
  obtain us sel where us: "ups = Inr us" "buildSelector (beSortRing env) (pSelector p) h us = Inr sel"
    and built: "rpUpstreams pool = us" "wSelectors (bsWorld bs') (rpNumber pool) = sel" "wUpstreams (bsWorld bs') = set_eligible True us h"
    using assms(1,2) u by (auto simp: buildPool_def NewMonitor_def Let_def split: sum.splits)
  note f = fresh_entries [OF u [unfolded us(1)]]
  let ?h = "set_eligible True us h"
  have "\<forall>x \<in> set us. 0 < uWeight (?h x) \<and> uInFlight (?h x) = 0" using f by (simp add: set_eligible_def)
  from built_selector_ready [OF us(2) this] have ready: "sel_ready sel ?h" "sel_pool sel = us" by auto
  have "\<forall>x \<in> set us. selectable now (?h x)"
    using f by (simp add: selectable_def set_eligible_def NewCircuitBreaker_def)
  then have c: "candidates now (sel_pool sel) [] ?h = us" by (simp add: candidates_def ready(2))
  have "us \<noteq> []" using f assms(3) by auto
  then obtain x where x: "fst (sel_Pick e now [] sel ?h) = Picked x"
    using sel.progress [OF ready(1)] c f assms(4) by metis
  from sel.sound [OF x] c have "x \<in> set us" by simp
  with x built show ?thesis by auto
qed

theorem fresh_pool_serves_witness:
  "\<exists>pool bs'. buildPool sample_env sample_pool_config [] sample_state = (Inr pool, bs') \<and>
     (\<exists>u \<in> set (rpUpstreams pool). fst (sel_Pick \<lparr>peRequest = sample_request [], peDraw = (\<lambda>_. 0), pePair = (0, 0)\<rparr> 0 []
        (wSelectors (bsWorld bs') (rpNumber pool)) (wUpstreams (bsWorld bs'))) = Picked u)"
proof -
  obtain pool bs' where b: "buildPool sample_env sample_pool_config [] sample_state = (Inr pool, bs')"
    by (simp add: buildPool_def sample_env_def sample_pool_config_def buildUpstreamsReusing_def upstreams_by_url_def sample_url_def
        buildSelector_def loadUpstreamTLS_def Let_def)
  have "sel_draws \<lparr>peRequest = sample_request [], peDraw = (\<lambda>_. 0), pePair = (0, 0)\<rparr> (length (pUpstreams sample_pool_config))"
    by (simp add: sel_draws_def in_range_def p2c_draws_def sample_pool_config_def)
  from fresh_pool_serves [OF b _ _ this] b show ?thesis by (auto simp: sample_pool_config_def)
qed

text \<open>The kind of a middleware entry, as the \<^verbatim>\<open>switch\<close> of \<^verbatim>\<open>buildMiddleware\<close> tests it.\<close>

definition mw_kind :: "middleware_config \<Rightarrow> nat" where
  "mw_kind mw =
     (if mcRateLimit mw \<noteq> None then 0 else if mcRetry mw \<noteq> None then 1
      else if mcHeaderTransform mw \<noteq> None then 2 else if mcCompress mw \<noteq> None then 3 else 4)"

lemma slot_commute: "mw_kind a \<noteq> mw_kind b \<Longrightarrow> slot_middleware n a \<circ> slot_middleware n b = slot_middleware n b \<circ> slot_middleware n a"
  by (auto simp: mw_kind_def slot_middleware_def fun_eq_iff split: if_splits option.splits)

text \<open>
  The order of the chain is canonical: for a route with at most one entry of each kind, the order in
  which the entries are written in the configuration does not matter; the chain is always request id,
  access log, panic recovery, then rate limit, total timeout, retry, header transform, compression, as
  far as configured.
\<close>

theorem middleware_order_canonical:
  assumes "distinct (map mw_kind (rMiddleware rc))" and "mset mws = mset (rMiddleware rc)"
  shows "buildMiddleware env n (rc\<lparr>rMiddleware := mws\<rparr>) = buildMiddleware env n rc"
proof -
  have "slot_middleware (rName rc) a \<circ> slot_middleware (rName rc) b = slot_middleware (rName rc) b \<circ> slot_middleware (rName rc) a"
    if "a \<in> set mws" "b \<in> set mws" for a b
  proof (cases "a = b")
    case False
    have "a \<in> set (rMiddleware rc)" "b \<in> set (rMiddleware rc)" using that assms(2) by (metis set_mset_mset)+
    then have "mw_kind a \<noteq> mw_kind b" using assms(1) False by (auto simp: distinct_map inj_on_def)
    then show ?thesis by (rule slot_commute)
  qed simp
  then have "fold (slot_middleware (rName rc)) mws = fold (slot_middleware (rName rc)) (rMiddleware rc)"
    using assms(2) by (intro fold_multiset_equiv) auto
  then show ?thesis by (simp add: buildMiddleware_def middleware_slots_def Let_def)
qed

definition rate_entry :: middleware_config where
  "rate_entry = \<lparr>mcRateLimit = Some \<lparr>rlScope = [], rlPerIPRPS = 10, rlBurst = 0, rlTrustProxyHops = 0\<rparr>, mcRetry = None,
     mcHeaderTransform = None, mcCompress = None\<rparr>"

definition compress_entry :: middleware_config where
  "compress_entry = \<lparr>mcRateLimit = None, mcRetry = None, mcHeaderTransform = None, mcCompress = Some \<lparr>cMinBytes = 0, cSkipContentTypes = []\<rparr>\<rparr>"

theorem middleware_order_canonical_witness:
  "buildMiddleware sample_env 0 ((sample_route_config ''r'' [])\<lparr>rMiddleware := [compress_entry, rate_entry]\<rparr>) =
   buildMiddleware sample_env 0 ((sample_route_config ''r'' [])\<lparr>rMiddleware := [rate_entry, compress_entry]\<rparr>)"
  using middleware_order_canonical [of "(sample_route_config ''r'' [])\<lparr>rMiddleware := [rate_entry, compress_entry]\<rparr>" "[compress_entry, rate_entry]"]
  by (simp add: mw_kind_def rate_entry_def compress_entry_def)

lemma tcp_upstreams_built:
  "tcp_upstreams_loop parse ucs n h = (Inr out, n', h') \<Longrightarrow> out = [n..<n + length ucs] \<and> (\<forall>v < n. h' v = h v) \<and>
   (\<forall>i < length ucs. uWeight (h' (n + i)) = tuWeight (ucs ! i) \<and> uEligible (h' (n + i)) \<and>
     uBreaker (h' (n + i)) = NewCircuitBreaker DefaultCircuitBreakerConfig)"
proof (induction ucs arbitrary: n h out)
  case (Cons uc ucs)
  obtain u where u: "parse (''tcp://'' @ tuAddress uc) = Inr u" using Cons.prems by (cases "parse (''tcp://'' @ tuAddress uc)") auto
  let ?h = "h(n := new_upstream u (tuWeight uc) True)"
  obtain out' where t: "tcp_upstreams_loop parse ucs (n + 1) ?h = (Inr out', n', h')" "out = n # out'"
    using Cons.prems u by (auto simp: Let_def map_sum_def split: prod.splits sum.splits)
  note IH = Cons.IH [OF t(1)]
  have n: "h' n = new_upstream u (tuWeight uc) True" using IH by simp
  have "uWeight (h' (n + i)) = tuWeight ((uc # ucs) ! i) \<and> uEligible (h' (n + i)) \<and>
      uBreaker (h' (n + i)) = NewCircuitBreaker DefaultCircuitBreakerConfig" if "i < length (uc # ucs)" for i
    using IH n that by (cases i) (simp_all add: new_upstream_def)
  moreover have "out = [n..<n + length (uc # ucs)]" using IH t(2) by (simp add: upt_rec)
  ultimately show ?case using IH by auto
qed simp

text \<open>
  A TCP pool with the weighted selector whose entries leave out the weight never serves a
  connection: the HTTP builder turns missing weights into 1, the TCP builder keeps the zero, and a
  scan over several upstreams without positive weight finds none.
\<close>

theorem tcp_pool_without_weights_refuses:
  assumes "buildTCPPool env p bs = (Inr pool, bs')" and "sAlgorithm (tpSelector p) = ''weighted-rr''"
    and "2 \<le> length (tpUpstreams p)" and "\<forall>uc \<in> set (tpUpstreams p). tuWeight uc = 0"
  shows "fst (pickUpstream (tcProxy pool) remote (bsWorld bs')) = NoEligibleUpstream"
proof -
  let ?n = "bsNextUpstream bs"
  obtain ups n h where u: "tcp_upstreams_loop (beParseURL env) (tpUpstreams p) ?n (wUpstreams (bsWorld bs)) = (ups, n, h)"
    by (metis surj_pair)
  obtain us where us: "ups = Inr us" "wSelectors (bsWorld bs') (l4Selector (tcProxy pool)) = SelWeighted (NewWeightedRoundRobin us)"
    "wUpstreams (bsWorld bs') = h"
    using assms(1,2) u by (auto simp: buildTCPPool_def buildSelector_def Let_def split: sum.splits)
  note b = tcp_upstreams_built [OF u [unfolded us(1)]]
  have mem: "\<exists>i < length (tpUpstreams p). x = ?n + i" if "x \<in> set us" for x
    using that b by (auto intro!: exI [of _ "x - ?n"])
  have sel: "selectable now (h x)" and wt: "uWeight (h x) \<le> 0" if "x \<in> set us" for x now
    using mem [OF that] b assms(4) by (auto simp: selectable_def NewCircuitBreaker_def)
  have c: "candidates now us [] h = us" for now using sel by (simp add: candidates_def)
  have "length us = length (tpUpstreams p)" using b by simp
  then have "fst (wrr_Pick () (wClock (bsWorld bs')) [] (NewWeightedRoundRobin us) h) = NoEligibleUpstream"
    using wrr_Pick_no_weight [of "wClock (bsWorld bs')" "NewWeightedRoundRobin us" "[]" h] c wt assms(3) by (simp add: NewWeightedRoundRobin_def)
  then show ?thesis by (simp add: pickUpstream_def us Let_def case_prod_beta)
qed

definition sample_tcp_pool :: "string \<Rightarrow> tcp_pool_config" where
  "sample_tcp_pool algo = \<lparr>tpName = ''redis'', tpSelector = \<lparr>sAlgorithm = algo, sEWMAHalfLife = 0, sHashKey = [], sEpsilon = 0, sVirtualNodes = 0\<rparr>,
     tpUpstreams = [\<lparr>tuAddress = ''a:1'', tuWeight = 0\<rparr>, \<lparr>tuAddress = ''b:1'', tuWeight = 0\<rparr>], tpConnectTimeout = 0\<rparr>"

theorem tcp_pool_without_weights_refuses_witness:
  "\<exists>pool bs'. buildTCPPool sample_env (sample_tcp_pool ''weighted-rr'') sample_state = (Inr pool, bs') \<and>
     fst (pickUpstream (tcProxy pool) ''10.0.0.9:1'' (bsWorld bs')) = NoEligibleUpstream"
proof -
  obtain pool bs' where b: "buildTCPPool sample_env (sample_tcp_pool ''weighted-rr'') sample_state = (Inr pool, bs')"
    by (simp add: buildTCPPool_def sample_env_def sample_tcp_pool_def sample_url_def buildSelector_def Let_def)
  from tcp_pool_without_weights_refuses [OF b] b show ?thesis by (auto simp: sample_tcp_pool_def)
qed

text \<open>
  Validation promises less than \<^verbatim>\<open>--check\<close> reports: a configuration with a route behind a catch-all of
  the same host and prefix, or with a TCP pool of an unknown algorithm, is accepted, although the
  program cannot start with it.
\<close>

theorem check_accepts_what_startup_rejects:
  "Validate (sample_config [sample_route_config ''all'' [], sample_route_config ''beta'' [\<lparr>hpName = ''X-Beta'', hpValue = ''1''\<rparr>]]) = None \<and>
   (\<exists>e. fst (build_router sample_env [sample_route_config ''all'' [], sample_route_config ''beta'' [\<lparr>hpName = ''X-Beta'', hpValue = ''1''\<rparr>]]
      [(''p'', sample_runtime_pool)] sample_state) = Inl (RouterError e)) \<and>
   Validate (empty_config\<lparr>TCPPools := [sample_tcp_pool ''fastest'']\<rparr>) = None \<and>
   fst (buildTCPPool sample_env (sample_tcp_pool ''fastest'') sample_state) = Inl (UnknownSelector ''fastest'')"
proof (intro conjI)
  show "Validate (sample_config [sample_route_config ''all'' [], sample_route_config ''beta'' [\<lparr>hpName = ''X-Beta'', hpValue = ''1''\<rparr>]]) = None"
    by code_simp
  show "Validate (empty_config\<lparr>TCPPools := [sample_tcp_pool ''fastest'']\<rparr>) = None" by code_simp
  show "fst (buildTCPPool sample_env (sample_tcp_pool ''fastest'') sample_state) = Inl (UnknownSelector ''fastest'')"
    by (simp add: buildTCPPool_def sample_env_def sample_tcp_pool_def sample_url_def buildSelector_def Let_def)
  show "\<exists>e. fst (build_router sample_env [sample_route_config ''all'' [], sample_route_config ''beta'' [\<lparr>hpName = ''X-Beta'', hpValue = ''1''\<rparr>]]
      [(''p'', sample_runtime_pool)] sample_state) = Inl (RouterError e)"
    by (simp add: build_router_def sample_route_config_def NewRouter_def validate_def route_key_def host_prefix_def predicatesKey_def Let_def str)
qed

text \<open>
  Rebuilding a pool with active health checks takes it out of service: although the upstreams are
  reused with their state, the new monitor begins by making all of them ineligible, so right after
  a reload that touches the pool every request is refused until enough probes have succeeded.
\<close>

theorem rebuilt_pool_refuses:
  assumes "buildPool env p existing bs = (Inr pool, bs')" and "hActive (pHealth p) = Some a"
  shows "fst (sel_Pick e now ex (wSelectors (bsWorld bs') (rpNumber pool)) (wUpstreams (bsWorld bs'))) = NoEligibleUpstream"
proof -
  obtain ups n h where u: "buildUpstreamsReusing (beParseURL env) (pUpstreams p) existing (bsNextUpstream bs) (wUpstreams (bsWorld bs)) = (ups, n, h)"
    by (metis surj_pair)
  let ?m = "\<lambda>us. the (NewMonitor (pName p) us (Some a) (hPassive (pHealth p)))"
  obtain us sel where us: "ups = Inr us" "buildSelector (beSortRing env) (pSelector p) h us = Inr sel"
    and built: "wSelectors (bsWorld bs') (rpNumber pool) = sel" "wUpstreams (bsWorld bs') = Run_start (?m us) h"
    using assms u by (auto simp: buildPool_def NewMonitor_def Let_def split: sum.splits)
  have m: "mPool (?m us) = us" by (simp add: NewMonitor_def)
  have "sel_pool sel = us"
    using us(2) by (auto simp: buildSelector_def Let_def NewRoundRobin_def NewWeightedRoundRobin_def NewLeastConnections_def NewP2C_def
        NewConsistentHashBounded_def split: if_splits)
  then have "candidates now (sel_pool sel) ex (Run_start (?m us) h) = []"
    using m by (auto simp: candidates_def selectable_def filter_empty_conv Run_start_eligible)
  then show ?thesis unfolding built by (rule sel.empty)
qed

theorem rebuilt_pool_refuses_witness:
  "\<exists>pool bs'. buildPool sample_env (sample_pool_config\<lparr>pHealth := \<lparr>hActive = Some sample_active, hPassive = None\<rparr>\<rparr>) [0]
      (sample_state\<lparr>bsNextUpstream := 1\<rparr>) = (Inr pool, bs') \<and>
     fst (sel_Pick \<lparr>peRequest = sample_request [], peDraw = (\<lambda>_. 0), pePair = (0, 0)\<rparr> 0 [] (wSelectors (bsWorld bs') (rpNumber pool))
       (wUpstreams (bsWorld bs'))) = NoEligibleUpstream"
proof -
  let ?p = "sample_pool_config\<lparr>pHealth := \<lparr>hActive = Some sample_active, hPassive = None\<rparr>\<rparr>"
  obtain pool bs' where b: "buildPool sample_env ?p [0] (sample_state\<lparr>bsNextUpstream := 1\<rparr>) = (Inr pool, bs')"
    by (simp add: buildPool_def sample_env_def sample_pool_config_def buildUpstreamsReusing_def upstreams_by_url_def sample_url_def
        sample_state_def sample_world_def sample_upstream_def NewMonitor_def buildSelector_def loadUpstreamTLS_def Let_def)
  from rebuilt_pool_refuses [OF b] b show ?thesis by (auto simp: sample_pool_config_def)
qed

text \<open>
  A probe outlives its monitor. Cancelling a monitor makes the probes in flight fail, and these failures
  are recorded on upstreams that the rebuilt pool shares: with one more failure to the threshold, a pool
  that was rebuilt without health checks, and with all its upstreams eligible, refuses every request once
  the cancelled probe of its only upstream has ended, and it has no monitor that could bring it back.
\<close>

theorem late_probe_strands_pool:
  assumes "buildPool env p existing bs = (Inr pool, bs')" and "hActive (pHealth p) = None"
    and "set (rpUpstreams pool) \<subseteq> {mPool m ! idx}" and "unhealthy_threshold m \<le> psFailures (mStates m ! idx) + 1"
    and "probeAfter True 0 idx (ProbeRequestError ''context canceled'') m (wUpstreams (bsWorld bs')) = (m', h', ts)"
  shows "\<not> rpHasMonitor pool \<and> fst (sel_Pick e now ex (wSelectors (bsWorld bs') (rpNumber pool)) h') = NoEligibleUpstream"
proof -
  obtain ups n h where u: "buildUpstreamsReusing (beParseURL env) (pUpstreams p) existing (bsNextUpstream bs) (wUpstreams (bsWorld bs)) = (ups, n, h)"
    by (metis surj_pair)
  obtain us sel where us: "ups = Inr us" "buildSelector (beSortRing env) (pSelector p) h us = Inr sel"
    and built: "rpUpstreams pool = us" "\<not> rpHasMonitor pool" "wSelectors (bsWorld bs') (rpNumber pool) = sel"
    using assms(1,2) u by (auto simp: buildPool_def NewMonitor_def Let_def split: sum.splits)
  have "sel_pool sel = us"
    using us(2) by (auto simp: buildSelector_def Let_def NewRoundRobin_def NewWeightedRoundRobin_def NewLeastConnections_def NewP2C_def
        NewConsistentHashBounded_def split: if_splits)
  moreover have "\<not> uEligible (h' (mPool m ! idx))"
    using assms(4,5) by (auto simp: probeAfter_def probe_def recordResult_def recordResult_count_def recordResult_apply_def unhealthy_threshold_def
        Let_def split: if_splits)
  ultimately have "candidates now (sel_pool sel) ex h' = []"
    using assms(3) built(1) by (auto simp: candidates_def selectable_def filter_empty_conv)
  then show ?thesis using built(2,3) sel.empty by simp
qed

theorem late_probe_strands_pool_witness:
  "\<exists>pool bs' m' h' ts. buildPool sample_env (sample_pool_config\<lparr>pUpstreams := [\<lparr>ucURL = ''http://a'', ucWeight = 1\<rparr>]\<rparr>) [0]
      (sample_state\<lparr>bsNextUpstream := 1\<rparr>) = (Inr pool, bs') \<and>
     probeAfter True 0 0 (ProbeRequestError ''context canceled'')
       (the (NewMonitor ''p'' [0] (Some (sample_active\<lparr>ahUnhealthyThreshold := 1\<rparr>)) None)) (wUpstreams (bsWorld bs')) = (m', h', ts) \<and>
     fst (sel_Pick \<lparr>peRequest = sample_request [], peDraw = (\<lambda>_. 0), pePair = (0, 0)\<rparr> 0 [] (wSelectors (bsWorld bs') (rpNumber pool)) h') = NoEligibleUpstream"
proof -
  let ?p = "sample_pool_config\<lparr>pUpstreams := [\<lparr>ucURL = ''http://a'', ucWeight = 1\<rparr>]\<rparr>"
  let ?m = "the (NewMonitor ''p'' [0] (Some (sample_active\<lparr>ahUnhealthyThreshold := 1\<rparr>)) None)"
  obtain pool bs' where b: "buildPool sample_env ?p [0] (sample_state\<lparr>bsNextUpstream := 1\<rparr>) = (Inr pool, bs')" and u: "rpUpstreams pool = [0]"
    by (simp add: buildPool_def sample_env_def sample_pool_config_def buildUpstreamsReusing_def upstreams_by_url_def sample_url_def
        sample_state_def sample_world_def sample_upstream_def NewMonitor_def buildSelector_def loadUpstreamTLS_def Let_def)
  obtain m' h' ts where pr: "probeAfter True 0 0 (ProbeRequestError ''context canceled'') ?m (wUpstreams (bsWorld bs')) = (m', h', ts)" by (metis prod_cases3)
  have "hActive (pHealth ?p) = None" "set (rpUpstreams pool) \<subseteq> {mPool ?m ! 0}" "unhealthy_threshold ?m \<le> psFailures (mStates ?m ! 0) + 1"
    by (simp_all add: sample_pool_config_def u NewMonitor_def unhealthy_threshold_def fresh_probe_state_def)
  from late_probe_strands_pool [OF b this pr] b pr show ?thesis by blast
qed

end
