(* ===== verification/Runtime.thy ===== *)
theory Runtime
  imports Build
begin

text \<open>
  The running program, \<^verbatim>\<open>cmd/l7rp/main.go\<close>: start-up (\<^verbatim>\<open>buildRuntime\<close>), the per-request entry of a listener, reload
  on SIGHUP (\<^verbatim>\<open>reloadConfig\<close>, \<^verbatim>\<open>diffListeners\<close>, \<^verbatim>\<open>listenerPlan.apply\<close>) and the drain at shutdown. Go maps that are
  iterated are association lists. A listener object is an instance number; \<open>ruBound\<close>, \<open>ruServing\<close> and
  \<open>ruStopped\<close> hold the instances whose socket is open, whose \<^verbatim>\<open>Serve\<close> goroutine counts in the wait group
  and whose \<^verbatim>\<open>Shutdown\<close> has been called. Waiting for old monitors to exit and closing idle connections
  have no effect on this state.
\<close>

section \<open>State\<close>

record 'c runtime =
  ruListeners :: "(string \<times> nat) list"
  ruPools :: "(string \<times> 'c runtime_pool) list"
  ruTCPListeners :: "(string \<times> nat) list"
  ruTCPPools :: "(string \<times> runtime_tcp_pool) list"
  ruCfg :: config
  ruRouter :: "handler router option"
  ruState :: build_state
  ruNext :: nat
  ruBound :: "nat list"
  ruServing :: "nat list"
  ruStopped :: "nat list"

definition NotFound :: run where
  "NotFound = \<lparr>rnCalls = http_Error ''404 page not found'' 404, rnEnding = Returned, rnChosen = None, rnErr = None\<rparr>"

text \<open>The handler of every listener: one read of the router pointer per request.\<close>

definition runtime_handler :: "'c runtime \<Rightarrow> handler" where
  "runtime_handler rt ctx req w =
     (case ruRouter rt of
        None \<Rightarrow> ((NotFound)\<lparr>rnCalls := [], rnEnding := Panicked ''nil pointer dereference''\<rparr>, w)
      | Some router \<Rightarrow>
          (case Match router req of
             None \<Rightarrow> (NotFound, w)
           | Some m \<Rightarrow> rtHandler (mRoute m) ctx req w))"

definition newListenerForRuntime ::
  "('c, 'z) build_env \<Rightarrow> listener_config \<Rightarrow> 'c runtime \<Rightarrow> (build_error + nat) \<times> 'c runtime" where
  "newListenerForRuntime env lc rt =
     (case fst (listener_New (beLoadKeyPair env) (beBindTCP env) (beBindUDP env) lc (runtime_handler rt)) of
        Inl e \<Rightarrow> (Inl (ListenerError (lName lc) e), rt)
      | Inr l \<Rightarrow> (Inr (ruNext rt), rt\<lparr>ruNext := ruNext rt + 1, ruBound := ruBound rt @ [ruNext rt]\<rparr>))"

definition serveListener :: "nat \<Rightarrow> 'c runtime \<Rightarrow> 'c runtime" where
  "serveListener inst rt = rt\<lparr>ruServing := ruServing rt @ [inst]\<rparr>"

section \<open>Start-up\<close>

fun build_pools ::
  "('c, 'z) build_env \<Rightarrow> pool_config list \<Rightarrow> (string \<times> 'c runtime_pool) list \<Rightarrow> build_state \<Rightarrow>
   (build_error + (string \<times> 'c runtime_pool) list) \<times> build_state" where
  "build_pools env [] acc bs = (Inr acc, bs)"
| "build_pools env (p # ps) acc bs =
     (case buildPool env p [] bs of
        (Inl e, bs1) \<Rightarrow> (Inl e, bs1)
      | (Inr rp, bs1) \<Rightarrow> build_pools env ps (AList.update (pName p) rp acc) bs1)"

fun buildListeners :: "('c, 'z) build_env \<Rightarrow> listener_config list \<Rightarrow> 'c runtime \<Rightarrow> build_error option \<times> 'c runtime" where
  "buildListeners env [] rt = (None, rt)"
| "buildListeners env (lc # lcs) rt =
     (case newListenerForRuntime env lc rt of
        (Inl e, rt1) \<Rightarrow> (Some e, rt1)
      | (Inr inst, rt1) \<Rightarrow> buildListeners env lcs (rt1\<lparr>ruListeners := AList.update (lName lc) inst (ruListeners rt1)\<rparr>))"

fun build_tcp_pools ::
  "('c, 'z) build_env \<Rightarrow> tcp_pool_config list \<Rightarrow> 'c runtime \<Rightarrow> build_error option \<times> 'c runtime" where
  "build_tcp_pools env [] rt = (None, rt)"
| "build_tcp_pools env (p # ps) rt =
     (case buildTCPPool env p (ruState rt) of
        (Inl e, bs) \<Rightarrow> (Some e, rt\<lparr>ruState := bs\<rparr>)
      | (Inr rp, bs) \<Rightarrow> build_tcp_pools env ps (rt\<lparr>ruState := bs, ruTCPPools := AList.update (tpName p) rp (ruTCPPools rt)\<rparr>))"

fun build_tcp_listeners ::
  "('c, 'z) build_env \<Rightarrow> tcp_listener_config list \<Rightarrow> 'c runtime \<Rightarrow> build_error option \<times> 'c runtime" where
  "build_tcp_listeners env [] rt = (None, rt)"
| "build_tcp_listeners env (lc # lcs) rt =
     (case map_of (ruTCPPools rt) (tlPool lc) of
        None \<Rightarrow> (Some (UnknownPool (tlName lc) (tlPool lc)), rt)
      | Some pool \<Rightarrow>
          if \<not> beBindTCP env (tlBind lc) then (Some (ListenerError (tlName lc) (BindError (tlBind lc))), rt)
          else build_tcp_listeners env lcs
                 (rt\<lparr>ruNext := ruNext rt + 1, ruBound := ruBound rt @ [ruNext rt],
                     ruTCPListeners := AList.update (tlName lc) (ruNext rt) (ruTCPListeners rt)\<rparr>))"

definition buildRuntime :: "('c, 'z) build_env \<Rightarrow> config \<Rightarrow> build_state \<Rightarrow> build_error + 'c runtime" where
  "buildRuntime env c bs =
     (case build_pools env (Pools c) [] bs of
        (Inl e, _) \<Rightarrow> Inl e
      | (Inr pools, bs1) \<Rightarrow>
          (case build_router env (Routes c) pools bs1 of
             (Inl e, _) \<Rightarrow> Inl e
           | (Inr router, bs2) \<Rightarrow>
               let rt = \<lparr>ruListeners = [], ruPools = pools, ruTCPListeners = [], ruTCPPools = [], ruCfg = c, ruRouter = Some router,
                         ruState = bs2, ruNext = 0, ruBound = [], ruServing = [], ruStopped = []\<rparr>
               in case buildListeners env (Listeners c) rt of
                    (Some e, _) \<Rightarrow> Inl e
                  | (None, rt1) \<Rightarrow>
                      (case build_tcp_pools env (TCPPools c) rt1 of
                         (Some e, _) \<Rightarrow> Inl e
                       | (None, rt2) \<Rightarrow>
                           (case build_tcp_listeners env (TCPListeners c) rt2 of
                              (Some e, _) \<Rightarrow> Inl e
                            | (None, rt3) \<Rightarrow> Inr rt3))))"

definition start_serving :: "'c runtime \<Rightarrow> 'c runtime" where
  "start_serving rt = fold serveListener (map snd (ruListeners rt) @ map snd (ruTCPListeners rt)) rt"

section \<open>Reload\<close>

record listener_plan =
  lpAdded :: "string list"
  lpReplaced :: "string list"
  lpRemoved :: "string list"
  lpNewOnes :: "(string \<times> nat) list"
  lpRetired :: "(string \<times> nat) option list"

definition empty_plan :: listener_plan where
  "empty_plan = \<lparr>lpAdded = [], lpReplaced = [], lpRemoved = [], lpNewOnes = [], lpRetired = []\<rparr>"

definition indexListenersByName :: "listener_config list \<Rightarrow> string \<rightharpoonup> listener_config" where
  "indexListenersByName lcs = map_of (rev (map (\<lambda>lc. (lName lc, lc)) lcs))"

definition indexPoolsByName :: "pool_config list \<Rightarrow> string \<rightharpoonup> pool_config" where
  "indexPoolsByName ps = map_of (rev (map (\<lambda>p. (pName p, p)) ps))"

definition old_instance :: "'c runtime \<Rightarrow> string \<Rightarrow> (string \<times> nat) option" where
  "old_instance rt name = map_option (\<lambda>inst. (name, inst)) (map_of (ruListeners rt) name)"

fun diff_old ::
  "('c, 'z) build_env \<Rightarrow> (string \<rightharpoonup> listener_config) \<Rightarrow> listener_config list \<Rightarrow> listener_plan \<Rightarrow> 'c runtime \<Rightarrow>
   (build_error + listener_plan) \<times> 'c runtime" where
  "diff_old env newByName [] plan rt = (Inr plan, rt)"
| "diff_old env newByName (oldLc # lcs) plan rt =
     (case newByName (lName oldLc) of
        None \<Rightarrow>
          diff_old env newByName lcs
            (plan\<lparr>lpRemoved := lpRemoved plan @ [lName oldLc], lpRetired := lpRetired plan @ [old_instance rt (lName oldLc)]\<rparr>) rt
      | Some newLc \<Rightarrow>
          if oldLc = newLc then diff_old env newByName lcs plan rt
          else (case newListenerForRuntime env newLc rt of
                  (Inl e, rt1) \<Rightarrow> (Inl e, rt1)
                | (Inr inst, rt1) \<Rightarrow>
                    diff_old env newByName lcs
                      (plan\<lparr>lpReplaced := lpReplaced plan @ [lName newLc], lpNewOnes := AList.update (lName newLc) inst (lpNewOnes plan),
                            lpRetired := lpRetired plan @ [old_instance rt (lName oldLc)]\<rparr>) rt1))"

fun diff_new ::
  "('c, 'z) build_env \<Rightarrow> (string \<rightharpoonup> listener_config) \<Rightarrow> listener_config list \<Rightarrow> listener_plan \<Rightarrow> 'c runtime \<Rightarrow>
   (build_error + listener_plan) \<times> 'c runtime" where
  "diff_new env oldByName [] plan rt = (Inr plan, rt)"
| "diff_new env oldByName (newLc # lcs) plan rt =
     (if oldByName (lName newLc) \<noteq> None then diff_new env oldByName lcs plan rt
      else (case newListenerForRuntime env newLc rt of
              (Inl e, rt1) \<Rightarrow> (Inl e, rt1)
            | (Inr inst, rt1) \<Rightarrow>
                diff_new env oldByName lcs
                  (plan\<lparr>lpAdded := lpAdded plan @ [lName newLc], lpNewOnes := AList.update (lName newLc) inst (lpNewOnes plan)\<rparr>) rt1))"

definition diffListeners :: "('c, 'z) build_env \<Rightarrow> listener_config list \<Rightarrow> 'c runtime \<Rightarrow> (build_error + listener_plan) \<times> 'c runtime" where
  "diffListeners env newCfgs rt =
     (let newByName = indexListenersByName newCfgs; oldByName = indexListenersByName (Listeners (ruCfg rt))
      in case diff_old env newByName (Listeners (ruCfg rt)) empty_plan rt of
           (Inl e, rt1) \<Rightarrow> (Inl e, rt1)
         | (Inr plan, rt1) \<Rightarrow> diff_new env oldByName newCfgs plan rt1)"

definition retire :: "(string \<times> nat) option list \<Rightarrow> 'c runtime \<Rightarrow> 'c runtime" where
  "retire retired rt =
     rt\<lparr>ruStopped := ruStopped rt @ concat (map (\<lambda>x. case x of None \<Rightarrow> [] | Some (_, inst) \<Rightarrow> [inst]) retired),
        ruListeners := fold (\<lambda>x ls. case x of None \<Rightarrow> ls | Some (name, _) \<Rightarrow> AList.delete name ls) retired (ruListeners rt)\<rparr>"

definition apply_plan :: "listener_plan \<Rightarrow> 'c runtime \<Rightarrow> 'c runtime" where
  "apply_plan plan rt =
     (let rt1 = fold (\<lambda>(name, inst) rt. serveListener inst (rt\<lparr>ruListeners := AList.update name inst (ruListeners rt)\<rparr>)) (lpNewOnes plan) rt
      in if lpRetired plan = [] then rt1 else retire (lpRetired plan) rt1)"

definition cancel_monitor :: "'c runtime_pool \<Rightarrow> build_state \<Rightarrow> build_state" where
  "cancel_monitor rp bs = bs\<lparr>bsMonitorOn := (bsMonitorOn bs)(rpNumber rp := False)\<rparr>"

fun reload_pools ::
  "('c, 'z) build_env \<Rightarrow> (string \<times> 'c runtime_pool) list \<Rightarrow> (string \<rightharpoonup> pool_config) \<Rightarrow> pool_config list \<Rightarrow>
   (string \<times> 'c runtime_pool) list \<Rightarrow> build_state \<Rightarrow> (build_error + (string \<times> 'c runtime_pool) list) \<times> build_state" where
  "reload_pools env live oldByName [] acc bs = (Inr acc, bs)"
| "reload_pools env live oldByName (p # ps) acc bs =
     (let existing = map_of live (pName p)
      in case (case existing of Some rp \<Rightarrow> if oldByName (pName p) = Some p then Some rp else None | None \<Rightarrow> None) of
           Some rp \<Rightarrow> reload_pools env live oldByName ps (AList.update (pName p) rp acc) bs
         | None \<Rightarrow>
             let bs1 = (case existing of None \<Rightarrow> bs | Some rp \<Rightarrow> cancel_monitor rp bs);
                 ups = (case existing of None \<Rightarrow> [] | Some rp \<Rightarrow> rpUpstreams rp)
             in case buildPool env p ups bs1 of
                  (Inl e, bs2) \<Rightarrow> (Inl e, bs2)
                | (Inr rp, bs2) \<Rightarrow> reload_pools env live oldByName ps (AList.update (pName p) rp acc) bs2)"

definition retire_pools :: "(string \<times> 'c runtime_pool) list \<Rightarrow> (string \<times> 'c runtime_pool) list \<Rightarrow> build_state \<Rightarrow> build_state" where
  "retire_pools live kept bs =
     fold (\<lambda>(name, rp) bs. if map_of kept name = None then cancel_monitor rp bs else bs) live bs"

definition reloadConfig :: "('c, 'z) build_env \<Rightarrow> 'e + config \<Rightarrow> 'c runtime \<Rightarrow> bool \<times> 'c runtime" where
  "reloadConfig env loaded rt =
     (case loaded of
        Inl e \<Rightarrow> (False, rt)
      | Inr newCfg \<Rightarrow>
          (case diffListeners env (Listeners newCfg) rt of
             (Inl e, rt1) \<Rightarrow> (False, rt1)
           | (Inr plan, rt1) \<Rightarrow>
               (case reload_pools env (ruPools rt1) (indexPoolsByName (Pools (ruCfg rt1))) (Pools newCfg) [] (ruState rt1) of
                  (Inl e, bs) \<Rightarrow> (False, rt1\<lparr>ruState := bs\<rparr>)
                | (Inr newPools, bs) \<Rightarrow>
                    let bs1 = retire_pools (ruPools rt1) newPools bs
                    in case build_router env (Routes newCfg) newPools bs1 of
                         (Inl e, bs2) \<Rightarrow> (False, rt1\<lparr>ruState := bs2\<rparr>)
                       | (Inr router, bs2) \<Rightarrow>
                           (True, apply_plan plan (rt1\<lparr>ruState := bs2, ruPools := newPools, ruRouter := Some router, ruCfg := newCfg\<rparr>)))))"

section \<open>Shutdown\<close>

text \<open>
  \<^verbatim>\<open>serve\<close> after a terminating signal: \<^verbatim>\<open>Shutdown\<close> on every listener of the two maps; \<^verbatim>\<open>listenerWG.Wait()\<close>
  returns once every serving instance has been told to stop.
\<close>

definition shutdown_all :: "'c runtime \<Rightarrow> 'c runtime" where
  "shutdown_all rt = rt\<lparr>ruStopped := ruStopped rt @ map snd (ruListeners rt) @ map snd (ruTCPListeners rt)\<rparr>"

definition wait_returns :: "'c runtime \<Rightarrow> bool" where
  "wait_returns rt \<longleftrightarrow> set (ruServing rt) \<subseteq> set (ruStopped rt)"

section \<open>Frames\<close>

text \<open>Building listeners before the switch changes only which sockets are open.\<close>

definition sockets_only :: "'c runtime \<Rightarrow> 'c runtime \<Rightarrow> bool" where
  "sockets_only rt rt' \<longleftrightarrow> rt'\<lparr>ruNext := ruNext rt, ruBound := ruBound rt\<rparr> = rt"

lemma sockets_only_refl [simp]: "sockets_only rt rt"
  by (simp add: sockets_only_def)

lemma sockets_only_trans: "sockets_only rt rt1 \<Longrightarrow> sockets_only rt1 rt2 \<Longrightarrow> sockets_only rt rt2"
  by (cases rt; cases rt1; cases rt2) (simp add: sockets_only_def)

lemma sockets_onlyD:
  "sockets_only rt rt' \<Longrightarrow> ruRouter rt' = ruRouter rt \<and> ruListeners rt' = ruListeners rt \<and> ruPools rt' = ruPools rt \<and> ruCfg rt' = ruCfg rt \<and>
   ruServing rt' = ruServing rt \<and> ruStopped rt' = ruStopped rt \<and> ruState rt' = ruState rt \<and> ruTCPListeners rt' = ruTCPListeners rt"
  by (cases rt; cases rt') (simp add: sockets_only_def)

lemma newListener_frame: "sockets_only rt (snd (newListenerForRuntime env lc rt))"
  by (auto simp: newListenerForRuntime_def sockets_only_def split: sum.split)

lemma diff_old_frame: "sockets_only rt (snd (diff_old env newByName lcs plan rt))"
proof (induction lcs arbitrary: plan rt)
  case (Cons lc lcs)
  show ?case
  proof (cases "newByName (lName lc)")
    case None
    then show ?thesis using Cons.IH by simp
  next
    case (Some newLc)
    obtain r rt1 where n: "newListenerForRuntime env newLc rt = (r, rt1)" by fastforce
    have f: "sockets_only rt rt1" using newListener_frame [of rt env newLc] n by simp
    show ?thesis
      using Some by (cases "lc = newLc"; cases r) (simp_all add: n f Cons.IH sockets_only_trans [OF f Cons.IH])
  qed
qed simp

lemma diff_new_frame: "sockets_only rt (snd (diff_new env oldByName lcs plan rt))"
proof (induction lcs arbitrary: plan rt)
  case (Cons lc lcs)
  obtain r rt1 where n: "newListenerForRuntime env lc rt = (r, rt1)" by fastforce
  have f: "sockets_only rt rt1" using newListener_frame [of rt env lc] n by simp
  show ?case
    by (cases "oldByName (lName lc)"; cases r) (simp_all add: n f Cons.IH sockets_only_trans [OF f Cons.IH])
qed simp

lemma diffListeners_frame: "sockets_only rt (snd (diffListeners env lcs rt))"
proof -
  obtain r rt1 where d: "diff_old env (indexListenersByName lcs) (Listeners (ruCfg rt)) empty_plan rt = (r, rt1)" by fastforce
  have f: "sockets_only rt rt1" using diff_old_frame [of rt env "indexListenersByName lcs" "Listeners (ruCfg rt)" empty_plan] d by simp
  show ?thesis by (cases r) (simp_all add: diffListeners_def d f sockets_only_trans [OF f diff_new_frame])
qed

lemma apply_plan_frame [simp]:
  "ruRouter (apply_plan plan rt) = ruRouter rt" "ruPools (apply_plan plan rt) = ruPools rt" "ruCfg (apply_plan plan rt) = ruCfg rt"
  "ruState (apply_plan plan rt) = ruState rt"
proof -
  let ?f = "\<lambda>(name, inst) rt. serveListener inst (rt\<lparr>ruListeners := AList.update name inst (ruListeners rt)\<rparr>)"
  have "ruRouter (fold ?f xs rt) = ruRouter rt \<and> ruPools (fold ?f xs rt) = ruPools rt \<and> ruCfg (fold ?f xs rt) = ruCfg rt \<and>
      ruState (fold ?f xs rt) = ruState rt" for xs
    by (induction xs arbitrary: rt) (auto simp: serveListener_def)
  then show "ruRouter (apply_plan plan rt) = ruRouter rt" "ruPools (apply_plan plan rt) = ruPools rt" "ruCfg (apply_plan plan rt) = ruCfg rt"
    "ruState (apply_plan plan rt) = ruState rt"
    by (simp_all add: apply_plan_def retire_def Let_def)
qed

text \<open>The two ways a reload can end.\<close>

lemma same_state [simp]: "rt\<lparr>ruState := ruState rt\<rparr> = rt"
  by (cases rt) simp

lemma reload_cases:
  assumes "reloadConfig env loaded rt = (ok, rt')"
  obtains (failed) rt1 b where "\<not> ok" "sockets_only rt rt1" "rt' = rt1\<lparr>ruState := b\<rparr>"
  | (swapped) newCfg plan rt1 pools bs router bs2 where "ok" "loaded = Inr newCfg" "sockets_only rt rt1"
    "diffListeners env (Listeners newCfg) rt = (Inr plan, rt1)"
    "build_router env (Routes newCfg) pools bs = (Inr router, bs2)"
    "rt' = apply_plan plan (rt1\<lparr>ruState := bs2, ruPools := pools, ruRouter := Some router, ruCfg := newCfg\<rparr>)"
proof (cases loaded)
  case (Inl e)
  then have "\<not> ok" "rt' = rt\<lparr>ruState := ruState rt\<rparr>" using assms by (simp_all add: reloadConfig_def)
  then show ?thesis using failed [OF _ sockets_only_refl] by blast
next
  case l: (Inr newCfg)
  obtain r rt1 where d: "diffListeners env (Listeners newCfg) rt = (r, rt1)" by fastforce
  have s: "sockets_only rt rt1" using diffListeners_frame [of rt env "Listeners newCfg"] d by simp
  show ?thesis
  proof (cases r)
    case (Inl e)
    then have "\<not> ok" "rt' = rt1\<lparr>ruState := ruState rt1\<rparr>" using assms d l by (simp_all add: reloadConfig_def)
    then show ?thesis using failed [OF _ s] by blast
  next
    case plan: (Inr plan)
    obtain ps bs where p: "reload_pools env (ruPools rt1) (indexPoolsByName (Pools (ruCfg rt1))) (Pools newCfg) [] (ruState rt1) = (ps, bs)" by fastforce
    show ?thesis
    proof (cases ps)
      case (Inl e)
      then have "\<not> ok" "rt' = rt1\<lparr>ruState := bs\<rparr>" using assms d l plan p by (simp_all add: reloadConfig_def)
      then show ?thesis using failed [OF _ s] by blast
    next
      case pools: (Inr newPools)
      obtain ro bs2 where b: "build_router env (Routes newCfg) newPools (retire_pools (ruPools rt1) newPools bs) = (ro, bs2)" by fastforce
      show ?thesis
      proof (cases ro)
        case (Inl e)
        then have "\<not> ok" "rt' = rt1\<lparr>ruState := bs2\<rparr>" using assms d l plan p pools b by (simp_all add: reloadConfig_def Let_def)
        then show ?thesis using failed [OF _ s] by blast
      next
        case router: (Inr router)
        then have "ok" "rt' = apply_plan plan (rt1\<lparr>ruState := bs2, ruPools := newPools, ruRouter := Some router, ruCfg := newCfg\<rparr>)"
          using assms d l plan p pools b by (simp_all add: reloadConfig_def Let_def)
        then show ?thesis using swapped l s d [unfolded plan] b [unfolded router] by blast
      qed
    qed
  qed
qed

section \<open>Properties\<close>


definition sample_runtime :: "listener_config list \<Rightarrow> string runtime" where
  "sample_runtime lcs = \<lparr>ruListeners = zip (map lName lcs) [0..<length lcs], ruPools = [(''q'', sample_runtime_pool\<lparr>rpName := ''q''\<rparr>)],
     ruTCPListeners = [], ruTCPPools = [], ruCfg = empty_config\<lparr>Listeners := lcs\<rparr>, ruRouter = None,
     ruState = sample_state\<lparr>bsNextPool := 1, bsNextUpstream := 1, bsMonitorOn := (\<lambda>_. True)\<rparr>, ruNext = length lcs,
     ruBound = [0..<length lcs], ruServing = [0..<length lcs], ruStopped = []\<rparr>"


lemma buildRoutes_monitors: "bsMonitorOn (snd (buildRoutes env rcs pools bs)) = bsMonitorOn bs"
proof (induction rcs arbitrary: bs)
  case (Cons rc rcs)
  show ?case by (cases "map_of pools (rPool rc)") (simp_all add: Let_def case_prod_beta Cons.IH)
qed simp

lemma build_router_monitors: "bsMonitorOn (snd (build_router env rcs pools bs)) = bsMonitorOn bs"
  using buildRoutes_monitors [of env rcs pools bs]
  by (auto simp: build_router_def Let_def split: prod.split sum.split)

lemma retire_pools_stops:
  assumes "(name, rp) \<in> set live" and "map_of kept name = None"
  shows "\<not> bsMonitorOn (retire_pools live kept bs) (rpNumber rp)"
proof -
  let ?f = "\<lambda>(name, rp) bs. if map_of kept name = None then cancel_monitor rp bs else bs"
  have off: "bsMonitorOn (fold ?f xs b) k \<Longrightarrow> bsMonitorOn b k" for b k xs
  proof (induction xs arbitrary: b)
    case (Cons x xs)
    have "bsMonitorOn (?f x b) k" by (rule Cons.IH) (use Cons.prems in simp)
    then show ?case by (cases x) (simp add: cancel_monitor_def split: if_splits)
  qed simp
  have "\<not> bsMonitorOn (fold ?f live bs) (rpNumber rp)" using assms(1)
  proof (induction live arbitrary: bs)
    case (Cons x xs)
    show ?case
    proof (cases "x = (name, rp)")
      case True
      then show ?thesis using assms(2) off [of xs "cancel_monitor rp bs" "rpNumber rp"] by (auto simp: cancel_monitor_def)
    next
      case False
      then show ?thesis using Cons by simp
    qed
  qed simp
  then show ?thesis by (simp add: retire_pools_def)
qed

text \<open>
  A failed reload is not free of side effects: when the new route table is rejected, the health
  monitors of the pools that the rejected configuration leaves out have been stopped already, although
  those pools go on serving. Their upstreams keep the eligibility they had at that moment, for good.
\<close>

theorem failed_reload_stops_monitors:
  assumes "diffListeners env (Listeners newCfg) rt = (Inr plan, rt1)"
    and "reload_pools env (ruPools rt) (indexPoolsByName (Pools (ruCfg rt))) (Pools newCfg) [] (ruState rt) = (Inr newPools, bs)"
    and "build_router env (Routes newCfg) newPools (retire_pools (ruPools rt) newPools bs) = (Inl e, bs2)"
    and "(name, rp) \<in> set (ruPools rt)" and "map_of newPools name = None"
    and "reloadConfig env (Inr newCfg :: 'e load_error + config) rt = (ok, rt')"
  shows "\<not> ok \<and> (name, rp) \<in> set (ruPools rt') \<and> \<not> bsMonitorOn (ruState rt') (rpNumber rp)"
proof -
  note same = sockets_onlyD [OF diffListeners_frame [of rt env "Listeners newCfg", unfolded assms(1) snd_conv]]
  have r: "ok = False" "rt' = rt1\<lparr>ruState := bs2\<rparr>"
    using assms(1,2,3,6) same by (auto simp: reloadConfig_def Let_def)
  have "bsMonitorOn bs2 = bsMonitorOn (retire_pools (ruPools rt) newPools bs)"
    using build_router_monitors [of env "Routes newCfg" newPools "retire_pools (ruPools rt) newPools bs"] assms(3) by simp
  with retire_pools_stops [OF assms(4,5)] r same assms(4) show ?thesis by simp
qed

theorem failed_reload_stops_monitors_witness:
  "let rt' = snd (reloadConfig sample_env (Inr (sample_config [sample_route_config ''a'' [], sample_route_config ''b'' []]) :: unit load_error + config)
     (sample_runtime []))
   in (''q'', sample_runtime_pool\<lparr>rpName := ''q''\<rparr>) \<in> set (ruPools rt') \<and> \<not> bsMonitorOn (ruState rt') 0"
proof -
  let ?c = "sample_config [sample_route_config ''a'' [], sample_route_config ''b'' []]" and ?rt = "sample_runtime []"
  have d: "diffListeners sample_env (Listeners ?c) ?rt = (Inr empty_plan, ?rt)"
    by (simp add: diffListeners_def sample_runtime_def sample_config_def empty_config_def)
  obtain rp bs where p: "reload_pools sample_env (ruPools ?rt) (indexPoolsByName (Pools (ruCfg ?rt))) (Pools ?c) [] (ruState ?rt) = (Inr [(''p'', rp)], bs)"
    by (simp add: sample_runtime_def sample_config_def indexPoolsByName_def empty_config_def sample_pool_config_def buildPool_def sample_env_def
        buildUpstreamsReusing_def upstreams_by_url_def sample_url_def buildSelector_def loadUpstreamTLS_def Let_def)
  obtain e bs2 where b: "build_router sample_env (Routes ?c) [(''p'', rp)] (retire_pools (ruPools ?rt) [(''p'', rp)] bs) = (Inl e, bs2)"
    by (simp add: build_router_def sample_config_def sample_route_config_def NewRouter_def validate_def route_key_def predicatesKey_def Let_def str)
  have q: "(''q'', sample_runtime_pool\<lparr>rpName := ''q''\<rparr>) \<in> set (ruPools ?rt)" by (simp add: sample_runtime_def)
  obtain ok rt' where r: "reloadConfig sample_env (Inr ?c :: unit load_error + config) ?rt = (ok, rt')" by fastforce
  from failed_reload_stops_monitors [OF d p b q _ r] r show ?thesis by (simp add: sample_runtime_pool_def)
qed

text \<open>
  A failed reload can leave a socket behind: listeners are bound before the pools and routes are built,
  and nothing closes them when a later part fails. The socket stays open, nobody accepts on it, and since
  it was opened with \<^verbatim>\<open>SO_REUSEPORT\<close> the kernel may hand it connections for the address of a running listener.
\<close>

theorem failed_reload_leaks_socket:
  assumes "Listeners (ruCfg rt) = []" and "Listeners newCfg = [lc]" and "newListenerForRuntime env lc rt = (Inr i, rt1)"
    and "reloadConfig env (Inr newCfg :: 'e + config) rt = (False, rt')" and "ruNext rt \<notin> set (ruServing rt) \<union> snd ` set (ruListeners rt)"
  shows "i \<in> set (ruBound rt') \<and> i \<notin> set (ruServing rt') \<and> i \<notin> snd ` set (ruListeners rt')"
proof -
  have i: "i = ruNext rt" "ruBound rt1 = ruBound rt @ [i]" using assms(3) by (auto simp: newListenerForRuntime_def split: sum.splits)
  have "\<exists>b. rt' = rt1\<lparr>ruState := b\<rparr>"
  proof -
    obtain plan where d: "diffListeners env (Listeners newCfg) rt = (Inr plan, rt1)"
      using assms(1-3) by (simp add: diffListeners_def indexListenersByName_def)
    show ?thesis using assms(4) d by (auto simp: reloadConfig_def Let_def split: prod.splits sum.splits)
  qed
  then show ?thesis using i assms(5) sockets_onlyD [OF newListener_frame [of rt env lc, unfolded assms(3) snd_conv]] by auto
qed

theorem failed_reload_leaks_socket_witness:
  "let rt' = snd (reloadConfig sample_env
     (Inr ((sample_config [sample_route_config ''a'' [], sample_route_config ''b'' []])\<lparr>Listeners := [sample_listener]\<rparr>) :: unit + config) (sample_runtime []))
   in 0 \<in> set (ruBound rt') \<and> ruServing rt' = [] \<and> ruListeners rt' = []"
proof -
  let ?c = "(sample_config [sample_route_config ''a'' [], sample_route_config ''b'' []])\<lparr>Listeners := [sample_listener]\<rparr>" and ?rt = "sample_runtime []"
  obtain rt1 where n: "newListenerForRuntime sample_env sample_listener ?rt = (Inr 0, rt1)"
    by (simp add: newListenerForRuntime_def listener_New_def buildTLSConfig_def sample_listener_def sample_env_def sample_runtime_def Let_def)
  obtain ok rt' where r: "reloadConfig sample_env (Inr ?c :: unit + config) ?rt = (ok, rt')" by fastforce
  have "\<not> ok"
    using r n by (auto simp: reloadConfig_def diffListeners_def sample_runtime_def sample_config_def indexListenersByName_def empty_config_def
        build_router_def sample_route_config_def NewRouter_def validate_def route_key_def predicatesKey_def Let_def str split: prod.splits sum.splits option.splits)
  with r have r': "reloadConfig sample_env (Inr ?c :: unit + config) ?rt = (False, rt')" by simp
  have s: "ruServing rt' = []" "ruListeners rt' = []"
    using r' by (cases rule: reload_cases; auto dest!: sockets_onlyD simp: sample_runtime_def)+
  from failed_reload_leaks_socket [OF _ _ n r'] r' s show ?thesis by (simp add: sample_runtime_def empty_config_def)
qed

text \<open>
  (C40) A listener whose settings change in a reload can never be stopped again: the new instance is entered
  in the table under its name and serves, and then the entry is removed together with the old
  instance, because both have the same name. At shutdown nobody calls \<^verbatim>\<open>Shutdown\<close> on it, and the wait for
  all listeners never ends.
\<close>

theorem replaced_listener_blocks_shutdown:
  assumes "Listeners (ruCfg rt) = [old]" and "ruListeners rt = [(lName old, k)]" and "Listeners newCfg = [new]"
    and "lName new = lName old" and "new \<noteq> old"
    and "reloadConfig env (Inr newCfg :: 'e load_error + config) rt = (True, rt')"
    and "ruNext rt \<noteq> k" and "ruNext rt \<notin> set (ruStopped rt)" and "ruNext rt \<notin> snd ` set (ruTCPListeners rt)"
  shows "ruListeners rt' = [] \<and> ruNext rt \<in> set (ruServing rt') \<and> \<not> wait_returns (shutdown_all rt')"
proof -
  obtain r rt1 where n: "newListenerForRuntime env new rt = (r, rt1)" by fastforce
  have i: "indexListenersByName [new] (lName old) = Some new" "indexListenersByName [old] (lName new) = Some old"
    using assms(4) by (simp_all add: indexListenersByName_def)
  obtain inst where r: "r = Inr inst"
    using assms(1,3,5,6) n i by (cases r) (auto simp: reloadConfig_def diffListeners_def)
  then have inst: "inst = ruNext rt" using n by (auto simp: newListenerForRuntime_def split: sum.splits)
  let ?plan = "empty_plan\<lparr>lpReplaced := [lName new], lpNewOnes := [(lName old, inst)], lpRetired := [Some (lName old, k)]\<rparr>"
  have d: "diffListeners env (Listeners newCfg) rt = (Inr ?plan, rt1)"
    using assms(1-5) n i r by (simp add: diffListeners_def old_instance_def empty_plan_def)
  note same = sockets_onlyD [OF newListener_frame [of rt env new, unfolded n snd_conv]]
  obtain bs ps ro where "rt' = apply_plan ?plan (rt1\<lparr>ruState := bs, ruPools := ps, ruRouter := Some ro, ruCfg := newCfg\<rparr>)"
    using assms(6) d by (auto simp: reloadConfig_def Let_def split: prod.splits sum.splits)
  then show ?thesis using same assms(2,7,8,9) inst
    by (auto simp: apply_plan_def retire_def serveListener_def shutdown_all_def wait_returns_def Let_def)
qed

theorem replaced_listener_blocks_shutdown_witness:
  "\<not> wait_returns (shutdown_all (snd (reloadConfig sample_env
     (Inr ((sample_config [])\<lparr>Listeners := [sample_listener\<lparr>lBind := '':8443''\<rparr>]\<rparr>) :: unit load_error + config) (sample_runtime [sample_listener]))))"
proof -
  let ?new = "sample_listener\<lparr>lBind := '':8443''\<rparr>" and ?rt = "sample_runtime [sample_listener]"
  let ?c = "(sample_config [])\<lparr>Listeners := [?new]\<rparr>"
  have ok: "fst (reloadConfig sample_env (Inr ?c :: unit load_error + config) ?rt) = True"
    by (simp add: reloadConfig_def diffListeners_def sample_runtime_def sample_config_def indexPoolsByName_def indexListenersByName_def empty_config_def
        sample_pool_config_def buildPool_def sample_env_def buildUpstreamsReusing_def upstreams_by_url_def sample_url_def buildSelector_def
        loadUpstreamTLS_def newListenerForRuntime_def listener_New_def buildTLSConfig_def sample_listener_def old_instance_def empty_plan_def
        build_router_def NewRouter_def validate_def Let_def)
  then obtain rt' where r: "reloadConfig sample_env (Inr ?c :: unit load_error + config) ?rt = (True, rt')" by (metis prod.collapse)
  have ne: "?new \<noteq> sample_listener" by (simp add: sample_listener_def)
  have "\<not> wait_returns (shutdown_all rt')"
    using replaced_listener_blocks_shutdown [of ?rt sample_listener 0 ?c ?new sample_env rt', OF _ _ _ _ ne r]
    by (simp add: sample_runtime_def empty_config_def)
  then show ?thesis using r by simp
qed

lemma update_absent: "k \<notin> fst ` set al \<Longrightarrow> AList.update k v al = al @ [(k, v)]"
  by (induction al) auto

lemma buildListeners_instances:
  "buildListeners env lcs rt = (None, rt') \<Longrightarrow> distinct (map lName lcs) \<Longrightarrow> fst ` set (ruListeners rt) \<inter> lName ` set lcs = {} \<Longrightarrow>
   ruListeners rt' = ruListeners rt @ zip (map lName lcs) [ruNext rt..<ruNext rt + length lcs] \<and> ruNext rt' = ruNext rt + length lcs \<and>
   ruBound rt' = ruBound rt @ [ruNext rt..<ruNext rt + length lcs] \<and> ruServing rt' = ruServing rt \<and> ruTCPListeners rt' = ruTCPListeners rt \<and>
   ruStopped rt' = ruStopped rt"
proof (induction lcs arbitrary: rt)
  case (Cons lc lcs)
  obtain inst rt1 where n: "newListenerForRuntime env lc rt = (Inr inst, rt1)"
    "buildListeners env lcs (rt1\<lparr>ruListeners := AList.update (lName lc) inst (ruListeners rt1)\<rparr>) = (None, rt')"
    using Cons.prems(1) by (auto split: prod.splits sum.splits)
  have rt1: "inst = ruNext rt" "rt1 = rt\<lparr>ruNext := ruNext rt + 1, ruBound := ruBound rt @ [ruNext rt]\<rparr>"
    using n(1) by (auto simp: newListenerForRuntime_def split: sum.splits)
  have u: "AList.update (lName lc) inst (ruListeners rt1) = ruListeners rt @ [(lName lc, ruNext rt)]"
    using Cons.prems(3) by (subst update_absent) (auto simp: rt1)
  have "fst ` set (ruListeners rt @ [(lName lc, ruNext rt)]) \<inter> lName ` set lcs = {}" using Cons.prems(2,3) by auto
  from Cons.IH [OF n(2)] this Cons.prems(2) show ?case unfolding u by (auto simp: rt1 upt_rec)
qed simp

lemma tcp_pools_frame:
  "build_tcp_pools env ps rt = (res, rt') \<Longrightarrow> ruListeners rt' = ruListeners rt \<and> ruNext rt' = ruNext rt \<and> ruBound rt' = ruBound rt \<and>
   ruServing rt' = ruServing rt \<and> ruTCPListeners rt' = ruTCPListeners rt \<and> ruStopped rt' = ruStopped rt"
proof (induction ps arbitrary: rt)
  case (Cons p ps)
  obtain r bs where "buildTCPPool env p (ruState rt) = (r, bs)" by fastforce
  with Cons show ?case by (cases r) (auto dest!: Cons.IH)
qed simp

lemma tcp_listeners_instances:
  "build_tcp_listeners env lcs rt = (None, rt') \<Longrightarrow> distinct (map tlName lcs) \<Longrightarrow> fst ` set (ruTCPListeners rt) \<inter> tlName ` set lcs = {} \<Longrightarrow>
   ruTCPListeners rt' = ruTCPListeners rt @ zip (map tlName lcs) [ruNext rt..<ruNext rt + length lcs] \<and>
   ruBound rt' = ruBound rt @ [ruNext rt..<ruNext rt + length lcs] \<and> ruServing rt' = ruServing rt \<and> ruListeners rt' = ruListeners rt \<and>
   ruStopped rt' = ruStopped rt"
proof (induction lcs arbitrary: rt)
  case (Cons lc lcs)
  let ?rt1 = "rt\<lparr>ruNext := ruNext rt + 1, ruBound := ruBound rt @ [ruNext rt],
    ruTCPListeners := AList.update (tlName lc) (ruNext rt) (ruTCPListeners rt)\<rparr>"
  have n: "build_tcp_listeners env lcs ?rt1 = (None, rt')"
    using Cons.prems(1) by (auto split: option.splits if_splits)
  have u: "AList.update (tlName lc) (ruNext rt) (ruTCPListeners rt) = ruTCPListeners rt @ [(tlName lc, ruNext rt)]"
    using Cons.prems(3) by (subst update_absent) auto
  have "fst ` set (ruTCPListeners rt @ [(tlName lc, ruNext rt)]) \<inter> tlName ` set lcs = {}" using Cons.prems(2,3) by auto
  from Cons.IH [OF n] this Cons.prems(2) show ?case unfolding u by (auto simp: upt_rec)
qed simp

lemma start_serving_eq: "start_serving rt = rt\<lparr>ruServing := ruServing rt @ map snd (ruListeners rt) @ map snd (ruTCPListeners rt)\<rparr>"
proof -
  have "fold serveListener xs rt = rt\<lparr>ruServing := ruServing rt @ xs\<rparr>" for xs and rt :: "'a runtime"
    by (induction xs arbitrary: rt) (simp_all add: serveListener_def)
  then show ?thesis by (simp add: start_serving_def)
qed

text \<open>
  Start-up and shutdown fit together: if the program starts with distinct listener names, every
  configured HTTP and TCP listener is bound to a socket of its own and served, no other socket is open,
  and a shutdown before any reload stops them all, so the final wait returns.
\<close>

theorem startup_then_shutdown:
  assumes "buildRuntime env c bs = Inr rt" and "distinct (map lName (Listeners c))" and "distinct (map tlName (TCPListeners c))"
  shows "map fst (ruListeners rt) = map lName (Listeners c) \<and> map fst (ruTCPListeners rt) = map tlName (TCPListeners c) \<and>
    distinct (ruBound rt) \<and> length (ruBound rt) = length (Listeners c) + length (TCPListeners c) \<and>
    ruServing (start_serving rt) = ruBound rt \<and> wait_returns (shutdown_all (start_serving rt))"
proof -
  obtain pools bs1 router bs2 rt1 rt2 where
    l: "buildListeners env (Listeners c) \<lparr>ruListeners = [], ruPools = pools, ruTCPListeners = [], ruTCPPools = [], ruCfg = c,
      ruRouter = Some router, ruState = bs2, ruNext = 0, ruBound = [], ruServing = [], ruStopped = []\<rparr> = (None, rt1)"
    and p: "build_tcp_pools env (TCPPools c) rt1 = (None, rt2)" and t: "build_tcp_listeners env (TCPListeners c) rt2 = (None, rt)"
    using assms(1) by (auto simp: buildRuntime_def Let_def split: prod.splits sum.splits option.splits)
  note L = buildListeners_instances [OF l assms(2)] and P = tcp_pools_frame [OF p]
  have T: "ruTCPListeners rt = zip (map tlName (TCPListeners c)) [length (Listeners c)..<length (Listeners c) + length (TCPListeners c)]"
    "ruListeners rt = zip (map lName (Listeners c)) [0..<length (Listeners c)]"
    "ruBound rt = [0..<length (Listeners c)] @ [length (Listeners c)..<length (Listeners c) + length (TCPListeners c)]" "ruServing rt = []"
    using tcp_listeners_instances [OF t assms(3)] L P by auto
  show ?thesis using T by (auto simp: start_serving_eq shutdown_all_def wait_returns_def)
qed

theorem startup_then_shutdown_witness:
  "\<exists>rt. buildRuntime sample_env (empty_config\<lparr>Listeners := [sample_listener]\<rparr>) sample_state = Inr rt \<and> wait_returns (shutdown_all (start_serving rt))"
proof -
  let ?c = "empty_config\<lparr>Listeners := [sample_listener]\<rparr>"
  obtain rt where b: "buildRuntime sample_env ?c sample_state = Inr rt"
    by (simp add: buildRuntime_def empty_config_def build_router_def NewRouter_def validate_def newListenerForRuntime_def listener_New_def
        buildTLSConfig_def sample_listener_def sample_env_def Let_def)
  from startup_then_shutdown [OF b] b show ?thesis by (auto simp: empty_config_def)
qed

end
