(* ===== verification/Isolation.thy ===== *)
theory Isolation
  imports Build
begin

text \<open>
  What a whole route handler, with every middleware of its chain, can change. The locale \<open>handler_frame\<close>
  is the contract of a relation between the world before and after a request: it composes, and it does not
  look at what only the middlewares write (logs, counters, limiters, random bytes, the clock). Every
  middleware of \<^verbatim>\<open>internal/middleware\<close> and \<^verbatim>\<open>observingHandler\<close> keep every such relation, so that a property of
  the terminal proxy is a property of the route. Two relations interpret the locale: \<open>confined k\<close>, the request
  stays within pool \<open>k\<close>, and \<open>balanced\<close>, the in-flight counters come back.
\<close>

definition keeps :: "(world \<Rightarrow> world \<Rightarrow> bool) \<Rightarrow> handler \<Rightarrow> bool" where
  "keeps R h \<longleftrightarrow> (\<forall>ctx r w. R w (snd (h ctx r w)))"

lemma keepsD: "keeps R h \<Longrightarrow> R w (snd (h ctx r w))"
  by (simp add: keeps_def)

definition keeps_all :: "(world \<Rightarrow> world \<Rightarrow> bool) \<Rightarrow> middleware \<Rightarrow> bool" where
  "keeps_all R m \<longleftrightarrow> (\<forall>h. keeps R h \<longrightarrow> keeps R (m h))"

lemma keeps_allI: "(\<And>h ctx r w. keeps R h \<Longrightarrow> R w (snd (m h ctx r w))) \<Longrightarrow> keeps_all R m"
  by (simp add: keeps_all_def keeps_def)

locale handler_frame =
  fixes R :: "world \<Rightarrow> world \<Rightarrow> bool"
  assumes composes: "R w w1 \<Longrightarrow> R w1 w2 \<Longrightarrow> R w w2"
    and aside: "wUpstreams w' = wUpstreams w \<Longrightarrow> wSelectors w' = wSelectors w \<Longrightarrow> wMonitors w' = wMonitors w \<Longrightarrow> R w w'"
begin

lemma untouched [simp]:
  "R w (w'\<lparr>wAccessLog := a\<rparr>) \<longleftrightarrow> R w w'" "R w (w'\<lparr>wPanics := b\<rparr>) \<longleftrightarrow> R w w'" "R w (w'\<lparr>wRequests := c\<rparr>) \<longleftrightarrow> R w w'"
  "R (w\<lparr>wRandom := d\<rparr>) w' \<longleftrightarrow> R w w'" "R (w\<lparr>wLimiters := e\<rparr>) w' \<longleftrightarrow> R w w'" "R w (w\<lparr>wLimiters := e\<rparr>)"
proof -
  have l: "R w x \<Longrightarrow> wUpstreams y = wUpstreams x \<Longrightarrow> wSelectors y = wSelectors x \<Longrightarrow> wMonitors y = wMonitors x \<Longrightarrow> R w y" for w x y
    using composes aside by blast
  have r: "R x w \<Longrightarrow> wUpstreams x = wUpstreams y \<Longrightarrow> wSelectors x = wSelectors y \<Longrightarrow> wMonitors x = wMonitors y \<Longrightarrow> R y w" for w x y
    using composes aside by blast
  show "R w (w'\<lparr>wAccessLog := a\<rparr>) \<longleftrightarrow> R w w'" by (rule iffI; erule l; simp)
  show "R w (w'\<lparr>wPanics := b\<rparr>) \<longleftrightarrow> R w w'" by (rule iffI; erule l; simp)
  show "R w (w'\<lparr>wRequests := c\<rparr>) \<longleftrightarrow> R w w'" by (rule iffI; erule l; simp)
  show "R (w\<lparr>wRandom := d\<rparr>) w' \<longleftrightarrow> R w w'" by (rule iffI; erule r; simp)
  show "R (w\<lparr>wLimiters := e\<rparr>) w' \<longleftrightarrow> R w w'" by (rule iffI; erule r; simp)
  show "R w (w\<lparr>wLimiters := e\<rparr>)" by (rule aside) simp_all
qed

lemma RequestID: "keeps_all R RequestID"
proof (rule keeps_allI)
  fix h ctx r w assume h: "keeps R h"
  have "R w (snd (h c q (w\<lparr>wRandom := d\<rparr>)))" for c q d using keepsD [OF h, of "w\<lparr>wRandom := d\<rparr>" c q] by simp
  then show "R w (snd (RequestID h ctx r w))"
    by (cases "hdr_get (rHeader r) ''X-Request-ID'' = []") (simp_all add: RequestID_def case_prod_beta keepsD [OF h] Let_def)
qed

lemma AccessLog: "keeps_all R (AccessLog name)"
  by (rule keeps_allI) (simp add: AccessLog_def Let_def case_prod_beta keepsD split: ending.split)

lemma PanicRecover: "keeps_all R PanicRecover"
  by (rule keeps_allI) (simp add: PanicRecover_def Let_def case_prod_beta keepsD split: ending.split)

lemma observing: "keeps_all R (observingHandler name)"
  by (rule keeps_allI) (simp add: observingHandler_def Let_def case_prod_beta keepsD split: ending.split)

lemma RateLimit: "keeps_all R (RateLimit n c)"
proof (rule keeps_allI)
  fix h ctx r w assume h: "keeps R h"
  have "R w (snd (h x q (w\<lparr>wLimiters := d\<rparr>)))" for x q d using keepsD [OF h, of "w\<lparr>wLimiters := d\<rparr>" x q] by simp
  then show "R w (snd (RateLimit n c h ctx r w))"
    by (simp add: RateLimit_def Let_def case_prod_beta keepsD [OF h])
qed

lemma Timeout: "keeps_all R (Timeout d)"
  by (rule keeps_allI) (simp add: Timeout_def Let_def keepsD)

lemma HeaderTransform: "keeps_all R (HeaderTransform c)"
  by (rule keeps_allI) (simp add: HeaderTransform_def Let_def case_prod_beta keepsD)

lemma Compress: "keeps_all R (Compress pf cs c)"
  by (rule keeps_allI) (simp add: Compress_def Let_def case_prod_beta keepsD)

lemma dispatch: "keeps R nxt \<Longrightarrow> R w (snd (dispatch nxt ctx req a ex hedge buf w))"
  by (simp add: dispatch_def Let_def case_prod_beta keepsD split: ending.split)

lemma sequential: "keeps R nxt \<Longrightarrow> R w (snd (serveSequential nxt rcfg ctx req buf mx a ex w))"
proof (induction nxt rcfg ctx req buf mx a ex w rule: serveSequential.induct)
  case (1 nxt rcfg ctx req buf mx a ex w)
  obtain res w1 where d: "dispatch nxt ctx req a ex False buf w = (res, w1)" by fastforce
  have r1: "R w w1" using dispatch [OF "1.prems", of w ctx req a ex False buf] d by simp
  show ?case
    unfolding serveSequential.simps [of nxt rcfg ctx req buf mx a ex w]
    using d r1 "1.IH" [OF _ d [symmetric] refl] "1.prems" by (auto intro: composes aside)
qed

lemma hedged: "keeps R nxt \<Longrightarrow> R w (snd (serveHedged s nxt ctx req buf w))"
  by (auto simp: serveHedged_def Let_def case_prod_beta split: hedge_schedule.split intro!: dispatch
      intro: composes [OF dispatch dispatch])

lemma Retry: "keeps_all R (Retry sched c)"
  by (rule keeps_allI) (simp add: Retry_def retry_ServeHTTP_def Let_def case_prod_beta hedged sequential)

lemma chain_loop: "\<forall>m \<in> set mws. keeps_all R m \<Longrightarrow> n \<le> length mws \<Longrightarrow> keeps R h \<Longrightarrow> keeps R (Chain_loop mws n h)"
  by (induction n arbitrary: h) (auto simp: keeps_all_def)

lemma built_chain: "m \<in> set (buildMiddleware env n rc) \<Longrightarrow> keeps_all R m"
  by (auto simp: buildMiddleware_def Let_def RequestID AccessLog PanicRecover RateLimit Timeout Retry HeaderTransform Compress split: if_splits)

lemma route:
  assumes "keeps R (proxy_ServeHTTP (NewProxy env pool))"
  shows "keeps R (route_handler env n rc pool)"
proof -
  have "keeps R (Chain (buildMiddleware env n rc) (proxy_ServeHTTP (NewProxy env pool)))"
    unfolding Chain_def by (rule chain_loop) (use assms built_chain in auto)
  then show ?thesis using observing by (simp add: route_handler_def keeps_all_def)
qed

end

section \<open>A request stays in its pool\<close>

definition confined :: "nat \<Rightarrow> world \<Rightarrow> world \<Rightarrow> bool" where
  "confined k w w' \<longleftrightarrow>
     (\<forall>j. sel_pool (wSelectors w' j) = sel_pool (wSelectors w j)) \<and>
     (\<forall>j. j \<noteq> k \<longrightarrow> wSelectors w' j = wSelectors w j \<and> wMonitors w' j = wMonitors w j) \<and>
     (\<forall>u. u \<notin> set (sel_pool (wSelectors w k)) \<longrightarrow> wUpstreams w' u = wUpstreams w u)"

interpretation iso: handler_frame "confined k" for k
  by unfold_locales (auto simp: confined_def)

lemma confined_update: "u \<in> set (sel_pool (wSelectors w k)) \<Longrightarrow> confined k w (update_upstream u f w)"
  by (auto simp: confined_def update_upstream_def)

lemma confined_pick:
  assumes "proxy_pick p ctx r w = (res, w1)"
  shows "confined (pxSelector p) w w1" "res = Picked u \<Longrightarrow> u \<in> set (sel_pool (wSelectors w (pxSelector p)))"
proof -
  let ?e = "\<lparr>peRequest = r, peDraw = fst (wDraws w (wDrawn w)), pePair = snd (wDraws w (wDrawn w))\<rparr>"
  have w1: "w1 = w\<lparr>wSelectors := (wSelectors w)(pxSelector p := fst (snd (sel_Pick ?e (wClock w) (aiExclude (AttemptFromContext ctx)) (wSelectors w (pxSelector p)) (wUpstreams w)))),
      wUpstreams := look_pool (wClock w) (sel_pool (wSelectors w (pxSelector p))) (wUpstreams w), wDrawn := wDrawn w + 1\<rparr>"
    using assms by (auto simp: proxy_pick_def Let_def case_prod_beta sel.writes)
  show "confined (pxSelector p) w w1" by (auto simp: w1 confined_def sel.pool_fixed look_pool_def)
  show "res = Picked u \<Longrightarrow> u \<in> set (sel_pool (wSelectors w (pxSelector p)))"
    using proxy_pick_sound [of p ctx r w u] assms by simp
qed

text \<open>The recorder of a pool's monitor writes its own state and the upstream it is told about.\<close>

lemma confined_recorder:
  assumes "u \<in> set (sel_pool (wSelectors w k))"
  shows "confined k w (monitor_recorder mexp k u l e w)"
proof -
  obtain m h ts where o: "mon_RecordOutcome mexp (wClock w) u l e (wMonitors w k) (wUpstreams w) = (m, h, ts)" by (metis surj_pair)
  have "\<forall>v. v \<noteq> u \<longrightarrow> h v = wUpstreams w v"
    using o by (auto simp: mon_RecordOutcome_def Let_def split: option.splits if_splits)
  then show ?thesis using assms by (auto simp: monitor_recorder_def o confined_def)
qed

definition pool_proxy :: "nat \<Rightarrow> proxy \<Rightarrow> bool" where
  "pool_proxy k p \<longleftrightarrow> pxSelector p = k \<and> (pxPassive p = None \<or> (\<exists>mexp. pxPassive p = Some (monitor_recorder mexp k)))"

lemma confined_passive:
  assumes "pool_proxy k p" and "u \<in> set (sel_pool (wSelectors w k))"
  shows "confined k w (passive_call p u l e w)"
  using assms confined_recorder iso.aside [of w w] by (auto simp: passive_call_def pool_proxy_def)

lemma confined_pool: "confined k w w' \<Longrightarrow> sel_pool (wSelectors w' k) = sel_pool (wSelectors w k)"
  by (simp add: confined_def)

lemma confined_then_update: "confined k w w' \<Longrightarrow> u \<in> set (sel_pool (wSelectors w k)) \<Longrightarrow> confined k w (update_upstream u f w')"
  by (metis confined_pool confined_update iso.composes)

lemma confined_clock [simp]: "confined k w (w'\<lparr>wClock := t\<rparr>) \<longleftrightarrow> confined k w w'"
  by (simp add: confined_def)

lemma confined_settle:
  assumes "pool_proxy k p" and "confined k w w1" and u: "u \<in> set (sel_pool (wSelectors w k))" and "settle p ctx u start t w1 = (res, w2)"
  shows "confined k w w2"
proof -
  let ?f = "\<lambda>oc. update_upstream u (record_breaker (wClock w1) oc) w1"
  have r: "confined k w (?f oc)" for oc using confined_then_update [OF assms(2) u] .
  have "confined k w (passive_call p u l e (?f oc))" for l e oc
    using iso.composes [OF r confined_passive [OF assms(1)]] u confined_pool [OF r, of oc] by auto
  with r show ?thesis using assms(4) by (auto simp: settle_def Let_def split: rt_result.splits if_splits)
qed

lemma confined_websocket:
  assumes "confined k w w1" and "u \<in> set (sel_pool (wSelectors w k))" and "serveWebSocket p ctx r u w1 = (calls, raw, w2)"
  shows "confined k w w2"
  using assms by (auto simp: serveWebSocket_def Let_def enter_def leave_def confined_then_update split: if_splits option.splits)

lemma proxy_confined:
  assumes "pool_proxy k p"
  shows "keeps (confined k) (proxy_ServeHTTP p)"
  unfolding keeps_def
proof (intro allI)
  fix ctx r w
  obtain res w1 where p: "proxy_pick p ctx r w = (res, w1)" by fastforce
  have k: "pxSelector p = k" using assms by (simp add: pool_proxy_def)
  note c1 = confined_pick [OF p, unfolded k]
  show "confined k w (snd (proxy_ServeHTTP p ctx r w))"
  proof (cases "\<exists>u. res = Picked u")
    case False
    then show ?thesis using c1(1) p by (cases res) (auto simp: proxy_ServeHTTP_def)
  next
    case True
    then obtain u where u: "res = Picked u" ..
    note inpool = c1(2) [OF u]
    obtain ok w2 where rs: "reserve u w1 = (ok, w2)" by fastforce
    have c2: "confined k w w2" using rs confined_then_update [OF c1(1) inpool] by (auto simp: reserve_def Let_def case_prod_beta)
    let ?w3 = "enter u w2" and ?q = "buildUpstreamRequest r (wUpstreams (enter u w2) u)"
    let ?w4 = "?w3\<lparr>wClock := wClock ?w3 + teElapsed (pxTransport p ?q ?w3)\<rparr>"
    have c4: "confined k w ?w4" using confined_then_update [OF c2 inpool] by (simp add: enter_def)
    obtain x w5 where st: "settle p ctx u (wClock w) (pxTransport p ?q ?w3) ?w4 = (x, w5)" by fastforce
    have c5: "confined k w (leave u w5)" using confined_then_update [OF confined_settle [OF assms c4 inpool st] inpool] by (simp add: leave_def)
    obtain calls raw w6 where ws: "serveWebSocket p ctx r u w2 = (calls, raw, w6)" by (metis surj_pair)
    show ?thesis using p u rs c2 c5 st confined_websocket [OF c2 inpool ws] ws
      by (auto simp: proxy_ServeHTTP_def Let_def split: prod.split)
  qed
qed

lemma NewProxy_pool: "pool_proxy (rpNumber pool) (NewProxy env pool)"
  by (auto simp: pool_proxy_def NewProxy_def)

lemma route_confined: "keeps (confined (rpNumber pool)) (route_handler env n rc pool)"
  by (intro iso.route proxy_confined NewProxy_pool)

section \<open>The in-flight counters come back\<close>

definition inflight :: "world \<Rightarrow> uid \<Rightarrow> int" where
  "inflight w u = uInFlight (wUpstreams w u)"

definition balanced :: "world \<Rightarrow> world \<Rightarrow> bool" where
  "balanced w w' \<longleftrightarrow> ((\<forall>u. in64 (inflight w u)) \<longrightarrow> inflight w' = inflight w)"

interpretation bal: handler_frame balanced
proof
  fix w w' :: world assume "wUpstreams w' = wUpstreams w"
  then show "balanced w w'" by (simp add: balanced_def inflight_def fun_eq_iff)
qed (auto simp: balanced_def)

lemma inflight_simps [simp]:
  "inflight (w\<lparr>wClock := t\<rparr>) = inflight w" "inflight (snd (proxy_pick p ctx r w)) = inflight w" "inflight (snd (reserve u w)) = inflight w"
  "inflight (update_upstream u (record_breaker now oc) w) = inflight w"
  "inflight (enter u w) = (inflight w)(u := s64 (inflight w u + 1))" "inflight (leave u w) = (inflight w)(u := s64 (inflight w u + - 1))"
  by (auto simp: inflight_def fun_eq_iff proxy_pick_heap reserve_def Let_def case_prod_beta update_upstream_def enter_def leave_def)

lemma inflight_settle:
  assumes "recorder_ok p"
  shows "inflight (snd (settle p ctx u start t w)) = inflight w"
  using settle_frame(3) [OF assms surjective_pairing, of ctx u start t w] by (simp add: inflight_def fun_eq_iff)

lemma inflight_websocket:
  assumes "in64 (inflight w u)"
  shows "inflight (snd (snd (serveWebSocket p ctx r u w))) = inflight w"
  using assms s64_cancel [OF assms] by (auto simp: serveWebSocket_def Let_def fun_eq_iff split: option.split)

lemma proxy_balanced:
  assumes "recorder_ok p"
  shows "keeps balanced (proxy_ServeHTTP p)"
  unfolding keeps_def balanced_def
proof (intro allI impI)
  fix ctx r w assume b: "\<forall>u. in64 (inflight w u)"
  obtain res w1 where p: "proxy_pick p ctx r w = (res, w1)" by fastforce
  have i1: "inflight w1 = inflight w" using inflight_simps(2) [of p ctx r w] p by simp
  show "inflight (snd (proxy_ServeHTTP p ctx r w)) = inflight w"
  proof (cases "\<exists>u. res = Picked u")
    case False
    then show ?thesis using p i1 by (cases res) (auto simp: proxy_ServeHTTP_def)
  next
    case True
    then obtain u where u: "res = Picked u" ..
    obtain ok w2 where rs: "reserve u w1 = (ok, w2)" by fastforce
    have i2: "inflight w2 = inflight w" using inflight_simps(3) [of u w1] rs i1 by simp
    then have ws: "inflight (snd (snd (serveWebSocket p ctx r u w2))) = inflight w" using b inflight_websocket [of w2 u p ctx r] by simp
    have "inflight (leave u (snd (settle p ctx u start t ((enter u w2)\<lparr>wClock := c\<rparr>)))) = inflight w" for start t c
      using b i2 s64_cancel [of "inflight w u"] by (simp add: inflight_settle [OF assms] fun_eq_iff)
    with ws show ?thesis using p u rs i2 by (simp add: proxy_ServeHTTP_def Let_def case_prod_beta)
  qed
qed

lemma NewProxy_recorder: "recorder_ok (NewProxy env pool)"
  using mon.passive_recorder_axioms by (simp add: recorder_ok_def NewProxy_def)

lemma route_balanced: "keeps balanced (route_handler env n rc pool)"
  by (intro bal.route proxy_balanced NewProxy_recorder)

end
