(* ===== verification/Generations.thy ===== *)
theory Generations
  imports Runtime Isolation
begin

text \<open>
  The running program over time: \<open>live_step\<close> interleaves requests on any listener, TCP connections, health
  probes and reloads (\<^verbatim>\<open>reloadConfig\<close> of \<^verbatim>\<open>cmd/l7rp/main.go\<close>, on any loaded configuration or load error), in any
  order and number, from the state that \<^verbatim>\<open>buildRuntime\<close> left. A request, a connection, a probe and a reload is
  one step each. The invariant \<open>wired\<close> says that what serves traffic belongs together: the router is the one
  built from the routes of record over the pools of record, every pool's selector chooses among that pool's
  upstreams, and no two pools share one.
\<close>

section \<open>What building a pool may change\<close>

text \<open>Everything of an upstream but its weight and its eligibility.\<close>

definition lasting :: "upstream \<Rightarrow> upstream \<Rightarrow> bool" where
  "lasting u v \<longleftrightarrow> v\<lparr>uWeight := uWeight u, uEligible := uEligible u\<rparr> = u"

lemma lasting_iff:
  "lasting u v \<longleftrightarrow> uURL u = uURL v \<and> uInFlight u = uInFlight v \<and> uLatencyEWMA u = uLatencyEWMA v \<and>
     uLastUpdate u = uLastUpdate v \<and> uBreaker u = uBreaker v"
  by (cases u; cases v) (auto simp: lasting_def)

lemma lasting_refl [simp]: "lasting u u"
  by (simp add: lasting_iff)

lemma lasting_trans: "lasting u v \<Longrightarrow> lasting v x \<Longrightarrow> lasting u x"
  by (simp add: lasting_iff)

lemma upstreams_loop_lasting:
  assumes "upstreams_loop parse byURL cfgs n h = (res, n', h')" and "\<forall>k r. byURL k = Some r \<longrightarrow> r < n"
  shows "n \<le> n'" "v < n \<Longrightarrow> lasting (h' v) (h v)" "v < n \<Longrightarrow> v \<notin> ran byURL \<Longrightarrow> h' v = h v"
    "res = Inr out \<Longrightarrow> x \<in> set out \<Longrightarrow> x < n' \<and> (x \<in> ran byURL \<or> n \<le> x)"
proof -
  have "n \<le> n' \<and> (\<forall>v < n. lasting (h' v) (h v) \<and> (v \<notin> ran byURL \<longrightarrow> h' v = h v)) \<and>
      (\<forall>out. res = Inr out \<longrightarrow> (\<forall>x \<in> set out. x < n' \<and> (x \<in> ran byURL \<or> n \<le> x)))"
    using assms
  proof (induction cfgs arbitrary: n h res)
    case (Cons uc ucs)
    show ?case
    proof (cases "parse (ucURL uc)")
      case (Inr u)
      show ?thesis
      proof (cases "byURL (uString u)")
        case None
        let ?h = "h(n := new_upstream u (if ucWeight uc \<le> 0 then 1 else ucWeight uc) False)"
        obtain res' where t: "upstreams_loop parse byURL ucs (n + 1) ?h = (res', n', h')" "res = map_sum id ((#) n) res'"
          using Cons.prems(1) Inr None by (auto simp: Let_def split: prod.splits)
        have "\<forall>k r. byURL k = Some r \<longrightarrow> r < n + 1" using Cons.prems(2) by fastforce
        note ih = Cons.IH [OF t(1) this]
        have "lasting (h' v) (h v) \<and> (v \<notin> ran byURL \<longrightarrow> h' v = h v)" if "v < n" for v using ih that by (metis fun_upd_apply less_Suc_eq Suc_eq_plus1 nat_neq_iff)
        moreover have "x < n' \<and> (x \<in> ran byURL \<or> n \<le> x)" if ok: "res = Inr out" and x: "x \<in> set out" for x out
        proof -
          obtain out' where o: "res' = Inr out'" "out = n # out'" using ok by (cases res') (auto simp: t(2))
          have "x = n \<or> x \<in> set out'" using x o(2) by simp
          then show ?thesis using ih o(1) by fastforce
        qed
        ultimately show ?thesis using ih by (intro conjI) auto
      next
        case (Some r)
        let ?h = "h(r := (h r)\<lparr>uWeight := (if ucWeight uc \<le> 0 then 1 else ucWeight uc)\<rparr>)"
        obtain res' where t: "upstreams_loop parse byURL ucs n ?h = (res', n', h')" "res = map_sum id ((#) r) res'"
          using Cons.prems(1) Inr Some by (auto simp: Let_def split: prod.splits)
        have r: "r < n" "r \<in> ran byURL" using Cons.prems(2) Some by (auto intro: ranI)
        have l: "lasting (?h v) (h v)" for v by (simp add: lasting_iff)
        note ih = Cons.IH [OF t(1) Cons.prems(2)]
        have "lasting (h' v) (h v)" if "v < n" for v using ih that l lasting_trans by blast
        moreover have "h' v = h v" if "v < n" "v \<notin> ran byURL" for v using ih that r by auto
        moreover have "x < n' \<and> (x \<in> ran byURL \<or> n \<le> x)" if "res = Inr out" "x \<in> set out" for x out
          using ih that r by (cases res') (auto simp: t(2))
        ultimately show ?thesis using ih by blast
      qed
    qed (use Cons.prems in auto)
  qed simp
  then show "n \<le> n'" "v < n \<Longrightarrow> lasting (h' v) (h v)" "v < n \<Longrightarrow> v \<notin> ran byURL \<Longrightarrow> h' v = h v"
    "res = Inr out \<Longrightarrow> x \<in> set out \<Longrightarrow> x < n' \<and> (x \<in> ran byURL \<or> n \<le> x)" by blast+
qed

lemma ran_by_url: "ran (upstreams_by_url h existing) \<subseteq> set existing"
  using upstreams_by_url_Some by (fastforce simp: ran_def)

lemma buildSelector_pool: "buildSelector srt sc h us = Inr sel \<Longrightarrow> sel_pool sel = us"
  by (auto simp: buildSelector_def Let_def NewRoundRobin_def NewWeightedRoundRobin_def NewLeastConnections_def NewP2C_def
      NewConsistentHashBounded_def split: if_splits)

lemma Run_start_eq: "Run_start m h = set_eligible False (mPool m) h"
proof -
  have "foldl (\<lambda>h u. h(u := (h u)\<lparr>uEligible := False\<rparr>)) h us = set_eligible False us h" for us
    by (induction us rule: rev_induct) (auto simp: set_eligible_def fun_eq_iff)
  then show ?thesis by (simp add: Run_start_def)
qed

lemma NewMonitor_pool: "NewMonitor name us a p = Some m \<Longrightarrow> mPool m = us"
  by (auto simp: NewMonitor_def split: option.splits)

lemma set_eligible_lasting [simp]: "lasting (set_eligible e us h v) x \<longleftrightarrow> lasting (h v) x"
  by (simp add: set_eligible_def lasting_iff)

text \<open>The store of a build state, and what one built pool guarantees.\<close>

definition store :: "build_state \<Rightarrow> heap" where
  "store bs = wUpstreams (bsWorld bs)"

definition pool_ready :: "build_state \<Rightarrow> 'c runtime_pool \<Rightarrow> bool" where
  "pool_ready bs rp \<longleftrightarrow>
     rpNumber rp < bsNextPool bs \<and> sel_pool (wSelectors (bsWorld bs) (rpNumber rp)) = rpUpstreams rp \<and>
     (\<forall>u \<in> set (rpUpstreams rp). u < bsNextUpstream bs)"

text \<open>From one build state to a later one: nothing that was in use is lost.\<close>

definition extends :: "build_state \<Rightarrow> build_state \<Rightarrow> bool" where
  "extends bs bs' \<longleftrightarrow>
     bsNextUpstream bs \<le> bsNextUpstream bs' \<and> bsNextPool bs \<le> bsNextPool bs' \<and>
     (\<forall>u < bsNextUpstream bs. lasting (store bs' u) (store bs u)) \<and>
     (\<forall>k < bsNextPool bs. wSelectors (bsWorld bs') k = wSelectors (bsWorld bs) k \<and> wMonitors (bsWorld bs') k = wMonitors (bsWorld bs) k)"

lemma extends_refl [simp]: "extends bs bs"
  by (simp add: extends_def)

lemma extends_trans: "extends bs bs1 \<Longrightarrow> extends bs1 bs2 \<Longrightarrow> extends bs bs2"
  unfolding extends_def using lasting_trans by (auto dest: less_le_trans)

lemma extends_ready: "extends bs bs' \<Longrightarrow> pool_ready bs rp \<Longrightarrow> pool_ready bs' rp"
  unfolding extends_def pool_ready_def by (metis less_le_trans)

lemma buildPool_extends:
  assumes "buildPool env p ex bs = (res, bs')" and "\<forall>u \<in> set ex. u < bsNextUpstream bs"
  shows "extends bs bs'" "res = Inr rp \<Longrightarrow> pool_ready bs' rp \<and> (\<forall>u \<in> set (rpUpstreams rp). u \<in> set ex \<or> bsNextUpstream bs \<le> u)"
proof -
  obtain ups n h where b: "buildUpstreamsReusing (beParseURL env) (pUpstreams p) ex (bsNextUpstream bs) (store bs) = (ups, n, h)"
    by (metis surj_pair)
  have below: "\<forall>k r. upstreams_by_url (store bs) ex k = Some r \<longrightarrow> r < bsNextUpstream bs"
    using assms(2) upstreams_by_url_Some by blast
  note l = upstreams_loop_lasting [OF b [unfolded buildUpstreamsReusing_def] below]
  have range: "\<forall>out. ups = Inr out \<longrightarrow> (\<forall>x \<in> set out. x < n \<and> (x \<in> set ex \<or> bsNextUpstream bs \<le> x))"
    using l(4) ran_by_url [of "store bs" ex] by blast
  have b': "buildUpstreamsReusing (beParseURL env) (pUpstreams p) ex (bsNextUpstream bs) (wUpstreams (bsWorld bs)) = (ups, n, h)"
    using b by (simp add: store_def)
  show "extends bs bs'"
    using assms(1) b' l(1,2)
    by (auto simp: buildPool_def Let_def extends_def store_def Run_start_eq split: sum.splits option.splits)
  assume rp: "res = Inr rp"
  show "pool_ready bs' rp \<and> (\<forall>u \<in> set (rpUpstreams rp). u \<in> set ex \<or> bsNextUpstream bs \<le> u)"
    using assms(1) b' range unfolding rp
    by (fastforce simp: buildPool_def Let_def pool_ready_def dest: buildSelector_pool split: sum.splits)
qed

lemma build_router_extends:
  assumes "build_router env rcs pools bs = (res, bs')"
  shows "extends bs bs'" "store bs' = store bs"
proof -
  have "extends bs (snd (buildRoutes env rcs pools bs)) \<and> store (snd (buildRoutes env rcs pools bs)) = store bs" for bs
  proof (induction rcs arbitrary: bs)
    case (Cons rc rcs)
    let ?bs1 = "bs\<lparr>bsNextLimiter := bsNextLimiter bs + 1, bsWorld := install_limiter (bsNextLimiter bs) rc (bsWorld bs)\<rparr>"
    have "extends bs ?bs1 \<and> store ?bs1 = store bs" by (simp add: extends_def store_def install_limiter_def split: option.split)
    then show ?case using Cons.IH [of ?bs1] extends_trans
      by (cases "map_of pools (rPool rc)") (auto simp: Let_def case_prod_beta)
  qed simp
  moreover have "bs' = snd (buildRoutes env rcs pools bs)"
    using assms by (auto simp: build_router_def Let_def split: prod.splits sum.splits)
  ultimately show "extends bs bs'" "store bs' = store bs" by simp_all
qed

lemma cancel_monitor_extends [simp]: "extends bs (cancel_monitor rp bs')\<longleftrightarrow> extends bs bs'" "extends (cancel_monitor rp bs) bs' \<longleftrightarrow> extends bs bs'"
  "bsNextUpstream (cancel_monitor rp bs) = bsNextUpstream bs" "bsNextPool (cancel_monitor rp bs) = bsNextPool bs" "bsWorld (cancel_monitor rp bs) = bsWorld bs"
  by (simp_all add: cancel_monitor_def extends_def store_def)

lemma retire_pools_frame [simp]:
  "bsNextUpstream (retire_pools live kept bs) = bsNextUpstream bs" "bsNextPool (retire_pools live kept bs) = bsNextPool bs"
  "bsWorld (retire_pools live kept bs) = bsWorld bs"
  unfolding retire_pools_def by (induction live arbitrary: bs) auto

lemma retire_pools_extends [simp]: "extends bs (retire_pools live kept bs') \<longleftrightarrow> extends bs bs'"
  by (simp add: extends_def store_def)

section \<open>The pools of one generation\<close>

definition pools_ok :: "build_state \<Rightarrow> (string \<times> 'c runtime_pool) list \<Rightarrow> bool" where
  "pools_ok bs pools \<longleftrightarrow>
     (\<forall>n rp. map_of pools n = Some rp \<longrightarrow> pool_ready bs rp) \<and>
     (\<forall>n1 n2 rp1 rp2. map_of pools n1 = Some rp1 \<longrightarrow> map_of pools n2 = Some rp2 \<longrightarrow> n1 \<noteq> n2 \<longrightarrow>
        set (rpUpstreams rp1) \<inter> set (rpUpstreams rp2) = {} \<and> rpNumber rp1 \<noteq> rpNumber rp2)"

lemma pools_ok_extends: "pools_ok bs pools \<Longrightarrow> extends bs bs' \<Longrightarrow> pools_ok bs' pools"
  unfolding pools_ok_def using extends_ready by blast

text \<open>
  Where a pool of the next generation comes from: it is the pool of that name itself, or a new one
  whose upstreams are those of the pool of that name, or new.
\<close>

definition from_live :: "(string \<times> 'c runtime_pool) list \<Rightarrow> build_state \<Rightarrow> string \<Rightarrow> 'c runtime_pool \<Rightarrow> bool" where
  "from_live live bs n rp \<longleftrightarrow>
     map_of live n = Some rp \<or>
     (bsNextPool bs \<le> rpNumber rp \<and>
      (\<forall>u \<in> set (rpUpstreams rp). bsNextUpstream bs \<le> u \<or> (\<exists>rp0. map_of live n = Some rp0 \<and> u \<in> set (rpUpstreams rp0))))"

definition next_pools :: "(string \<times> 'c runtime_pool) list \<Rightarrow> build_state \<Rightarrow> build_state \<Rightarrow> (string \<times> 'c runtime_pool) list \<Rightarrow> bool" where
  "next_pools live bs0 bs acc \<longleftrightarrow> pools_ok bs acc \<and> (\<forall>n rp. map_of acc n = Some rp \<longrightarrow> from_live live bs0 n rp)"

lemma from_live_disjoint:
  assumes "pools_ok bs0 live" and "from_live live bs0 n1 rp1" and "map_of live n2 = Some rp2" and "n1 \<noteq> n2"
  shows "set (rpUpstreams rp1) \<inter> set (rpUpstreams rp2) = {} \<and> rpNumber rp1 \<noteq> rpNumber rp2"
proof -
  have r: "pool_ready bs0 rp2" using assms(1,3) by (simp add: pools_ok_def)
  have d: "map_of live n1 = Some rp0 \<Longrightarrow> set (rpUpstreams rp0) \<inter> set (rpUpstreams rp2) = {} \<and> rpNumber rp0 \<noteq> rpNumber rp2" for rp0
    using assms(1,3,4) by (simp add: pools_ok_def)
  from assms(2) consider "map_of live n1 = Some rp1" | "bsNextPool bs0 \<le> rpNumber rp1"
    "\<forall>u \<in> set (rpUpstreams rp1). bsNextUpstream bs0 \<le> u \<or> (\<exists>rp0. map_of live n1 = Some rp0 \<and> u \<in> set (rpUpstreams rp0))"
    by (auto simp: from_live_def)
  then show ?thesis
  proof cases
    case 1
    then show ?thesis by (rule d)
  next
    case 2
    have "u \<notin> set (rpUpstreams rp2)" if "u \<in> set (rpUpstreams rp1)" for u
      using 2(2) that d r by (fastforce simp: pool_ready_def)
    then show ?thesis using 2(1) r by (auto simp: pool_ready_def)
  qed
qed

lemma next_pools_kept:
  assumes "next_pools live bs0 bs acc" and "pools_ok bs0 live" and "extends bs0 bs" and "map_of live n = Some rp"
  shows "next_pools live bs0 bs (AList.update n rp acc)"
proof -
  have f: "from_live live bs0 n rp" using assms(4) by (simp add: from_live_def)
  have r: "pool_ready bs rp" by (rule extends_ready [OF assms(3)]) (use assms(2,4) in \<open>auto simp: pools_ok_def\<close>)
  have d: "set (rpUpstreams rp1) \<inter> set (rpUpstreams rp) = {} \<and> rpNumber rp1 \<noteq> rpNumber rp" if "map_of acc n1 = Some rp1" "n1 \<noteq> n" for n1 rp1
    using from_live_disjoint [OF assms(2) _ assms(4) that(2)] assms(1) that(1) by (simp add: next_pools_def)
  show ?thesis using assms(1) f r d
    unfolding next_pools_def pools_ok_def AList.update_conv' fun_upd_apply by (auto simp: Int_commute) metis+
qed

lemma next_pools_built:
  assumes "next_pools live bs0 bs acc" and "pools_ok bs0 live" and "extends bs0 bs" and "buildPool env p ups bs = (Inr rp, bs')"
    and ups: "\<forall>u \<in> set ups. \<exists>rp0. map_of live n = Some rp0 \<and> u \<in> set (rpUpstreams rp0)" and "bsNextPool bs = rpNumber rp"
  shows "next_pools live bs0 bs' (AList.update n rp acc)"
proof -
  have live: "u < bsNextUpstream bs0" if "map_of live k = Some rp0" "u \<in> set (rpUpstreams rp0)" for k rp0 u
    using assms(2) that by (auto simp: pools_ok_def pool_ready_def)
  have below: "\<forall>u \<in> set ups. u < bsNextUpstream bs" using live ups assms(3) by (fastforce simp: extends_def)
  note b = buildPool_extends [OF assms(4) below]
  have b2: "pool_ready bs' rp" "\<forall>u \<in> set (rpUpstreams rp). u \<in> set ups \<or> bsNextUpstream bs \<le> u" using b(2) by auto
  have acc: "pools_ok bs acc" "map_of acc k = Some q \<Longrightarrow> from_live live bs0 k q" for k q using assms(1) by (auto simp: next_pools_def)
  have f: "from_live live bs0 n rp"
    using b2(2) ups assms(3,6) by (fastforce simp: from_live_def extends_def)
  have d: "set (rpUpstreams q) \<inter> set (rpUpstreams rp) = {} \<and> rpNumber q \<noteq> rpNumber rp" if q: "map_of acc k = Some q" and ne: "k \<noteq> n" for k q
  proof -
    have r: "pool_ready bs q" using acc(1) q by (simp add: pools_ok_def)
    have "u \<notin> set (rpUpstreams q)" if u: "u \<in> set (rpUpstreams rp)" for u
    proof (cases "u \<in> set ups")
      case True
      then obtain rp0 where "map_of live n = Some rp0" "u \<in> set (rpUpstreams rp0)" using ups by blast
      then show ?thesis using from_live_disjoint [OF assms(2) acc(2) [OF q] _ ne] by blast
    next
      case False
      then show ?thesis using b2(2) u r by (fastforce simp: pool_ready_def)
    qed
    then show ?thesis using r assms(6) by (auto simp: pool_ready_def)
  qed
  have "pools_ok bs' acc" using pools_ok_extends [OF acc(1) b(1)] .
  then show ?thesis using f b2(1) d acc(2)
    unfolding next_pools_def pools_ok_def AList.update_conv' fun_upd_apply by (auto simp: Int_commute) metis+
qed

lemma buildPool_number: "buildPool env p ex bs = (Inr rp, bs') \<Longrightarrow> rpNumber rp = bsNextPool bs"
  by (auto simp: buildPool_def Let_def split: prod.splits sum.splits)

lemma reload_pools_next:
  assumes "reload_pools env live old ps acc bs = (res, bs')" and "pools_ok bs0 live" and "extends bs0 bs" and "next_pools live bs0 bs acc"
  shows "extends bs0 bs' \<and> (\<forall>pools. res = Inr pools \<longrightarrow> next_pools live bs0 bs' pools \<and> fst ` set pools = fst ` set acc \<union> pName ` set ps)"
  using assms
proof (induction ps arbitrary: acc bs)
  case (Cons p ps)
  let ?ex = "map_of live (pName p)"
  have keys: "fst ` set (AList.update (pName p) rp acc) = insert (pName p) (fst ` set acc)" for rp
    by (simp add: dom_map_of_conv_image_fst [symmetric] AList.update_conv')
  show ?case
  proof (cases "\<exists>rp. ?ex = Some rp \<and> old (pName p) = Some p")
    case True
    then obtain rp where rp: "?ex = Some rp" "old (pName p) = Some p" by blast
    then have "reload_pools env live old ps (AList.update (pName p) rp acc) bs = (res, bs')" using Cons.prems(1) by simp
    from Cons.IH [OF this Cons.prems(2,3) next_pools_kept [OF Cons.prems(4,2,3) rp(1)]] show ?thesis by (auto simp: keys)
  next
    case False
    let ?bs1 = "case ?ex of None \<Rightarrow> bs | Some rp \<Rightarrow> cancel_monitor rp bs" and ?ups = "case ?ex of None \<Rightarrow> [] | Some rp \<Rightarrow> rpUpstreams rp"
    obtain r bs2 where b: "buildPool env p ?ups ?bs1 = (r, bs2)" by fastforce
    have e1: "extends bs0 ?bs1" using Cons.prems(3) by (simp split: option.split)
    have n1: "next_pools live bs0 ?bs1 acc"
      using Cons.prems(4) pools_ok_extends [of bs acc ?bs1] by (auto simp: next_pools_def split: option.split)
    have u: "\<forall>u \<in> set ?ups. \<exists>rp0. ?ex = Some rp0 \<and> u \<in> set (rpUpstreams rp0)" by (cases ?ex) simp_all
    then have "\<forall>u \<in> set ?ups. u < bsNextUpstream bs0" using Cons.prems(2) by (auto simp: pools_ok_def pool_ready_def)
    then have below: "\<forall>u \<in> set ?ups. u < bsNextUpstream ?bs1" using e1 by (fastforce simp: extends_def)
    have e2: "extends bs0 bs2" using extends_trans [OF e1 buildPool_extends(1) [OF b below]] .
    have eq: "reload_pools env live old (p # ps) acc bs =
        (case r of Inl e \<Rightarrow> (Inl e, bs2) | Inr rp \<Rightarrow> reload_pools env live old ps (AList.update (pName p) rp acc) bs2)"
      using False b by (auto simp: Let_def split: option.splits sum.splits)
    show ?thesis
    proof (cases r)
      case (Inl e)
      then show ?thesis using Cons.prems(1) eq e2 by auto
    next
      case (Inr rp)
      have "next_pools live bs0 bs2 (AList.update (pName p) rp acc)"
        using next_pools_built [OF n1 Cons.prems(2) e1 b [unfolded Inr] u] buildPool_number [OF b [unfolded Inr]] by simp
      from Cons.IH [OF _ Cons.prems(2) e2 this] show ?thesis using Cons.prems(1) eq Inr by (auto simp: keys)
    qed
  qed
qed auto

section \<open>The invariant\<close>

definition tcp_ready :: "build_state \<Rightarrow> runtime_tcp_pool \<Rightarrow> bool" where
  "tcp_ready bs tp \<longleftrightarrow>
     l4Selector (tcProxy tp) < bsNextPool bs \<and> sel_pool (wSelectors (bsWorld bs) (l4Selector (tcProxy tp))) = tcUpstreams tp \<and>
     (\<forall>u \<in> set (tcUpstreams tp). u < bsNextUpstream bs)"

text \<open>The TCP pools are in order and share nothing with the HTTP pools.\<close>

definition tcp_ok :: "build_state \<Rightarrow> (string \<times> 'c runtime_pool) list \<Rightarrow> (string \<times> runtime_tcp_pool) list \<Rightarrow> bool" where
  "tcp_ok bs pools tcps \<longleftrightarrow>
     (\<forall>m tp. map_of tcps m = Some tp \<longrightarrow> tcp_ready bs tp \<and>
        (\<forall>n rp. map_of pools n = Some rp \<longrightarrow>
           set (rpUpstreams rp) \<inter> set (tcUpstreams tp) = {} \<and> rpNumber rp \<noteq> l4Selector (tcProxy tp)))"

text \<open>The router is one that was built from these routes over these pools.\<close>

definition routed :: "('c, 'z) build_env \<Rightarrow> route_config list \<Rightarrow> (string \<times> 'c runtime_pool) list \<Rightarrow> handler router option \<Rightarrow> bool" where
  "routed env rcs pools r \<longleftrightarrow> (\<exists>router bs bs'. r = Some router \<and> build_router env rcs pools bs = (Inr router, bs'))"

definition wired :: "('c, 'z) build_env \<Rightarrow> 'c runtime \<Rightarrow> bool" where
  "wired env rt \<longleftrightarrow>
     routed env (Routes (ruCfg rt)) (ruPools rt) (ruRouter rt) \<and>
     fst ` set (ruPools rt) = pName ` set (Pools (ruCfg rt)) \<and> pools_ok (ruState rt) (ruPools rt) \<and> tcp_ok (ruState rt) (ruPools rt) (ruTCPPools rt)"

definition set_world :: "world \<Rightarrow> 'c runtime \<Rightarrow> 'c runtime" where
  "set_world w rt = rt\<lparr>ruState := (ruState rt)\<lparr>bsWorld := w\<rparr>\<rparr>"

text \<open>
  One thing that happens to the running program: a request is handled, a TCP connection is served to its
  end, a probe ends, possibly after its monitor has been cancelled, time passes, the configuration is
  reloaded (the load error, which is only logged, is not kept).
\<close>

inductive live_step :: "('c, 'z) build_env \<Rightarrow> 'c runtime \<Rightarrow> 'c runtime \<Rightarrow> bool" for env where
  request: "runtime_handler rt ctx req (bsWorld (ruState rt)) = (rn, w) \<Longrightarrow> live_step env rt (set_world w rt)"
| connection: "\<lbrakk> map_of (ruTCPPools rt) m = Some tp; copyBidirectional (tioSession io) \<noteq> None;
     ServeConn (beExp env) (tcProxy tp) remote io (bsWorld (ruState rt)) = (res, w) \<rbrakk> \<Longrightarrow> live_step env rt (set_world w rt)"
| probe: "\<lbrakk> wMonitors (bsWorld (ruState rt)) k = Some m; i < length (mPool m);
     probe i resp m (wUpstreams (bsWorld (ruState rt))) = (m', h, ts) \<rbrakk> \<Longrightarrow>
     live_step env rt (set_world ((bsWorld (ruState rt))\<lparr>wMonitors := (wMonitors (bsWorld (ruState rt)))(k \<mapsto> m'), wUpstreams := h\<rparr>) rt)"
| tick: "live_step env rt (set_world ((bsWorld (ruState rt))\<lparr>wClock := wClock (bsWorld (ruState rt)) + d\<rparr>) rt)" if "0 \<le> d"
| reload: "reloadConfig env (loaded :: unit + config) rt = (ok, rt') \<Longrightarrow> live_step env rt rt'"

definition running :: "('c, 'z) build_env \<Rightarrow> config \<Rightarrow> build_state \<Rightarrow> 'c runtime \<Rightarrow> bool" where
  "running env c bs rt \<longleftrightarrow> (\<exists>rt0. buildRuntime env c bs = Inr rt0 \<and> (live_step env)\<^sup>*\<^sup>* (start_serving rt0) rt)"

lemma tcp_ok_next:
  assumes "tcp_ok bs0 live tcps" and "extends bs0 bs" and "\<forall>n rp. map_of pools n = Some rp \<longrightarrow> from_live live bs0 n rp"
  shows "tcp_ok bs pools tcps"
  unfolding tcp_ok_def
proof (intro allI impI conjI)
  fix m tp assume m: "map_of tcps m = Some tp"
  have t: "tcp_ready bs0 tp" using assms(1) m by (simp add: tcp_ok_def)
  then show "tcp_ready bs tp" using assms(2) unfolding tcp_ready_def extends_def by (metis less_le_trans)
  fix n rp assume n: "map_of pools n = Some rp"
  have live: "map_of live n = Some rp0 \<Longrightarrow> set (rpUpstreams rp0) \<inter> set (tcUpstreams tp) = {} \<and> rpNumber rp0 \<noteq> l4Selector (tcProxy tp)" for rp0
    using assms(1) m by (simp add: tcp_ok_def)
  have f: "from_live live bs0 n rp" using assms(3) n by blast
  have "u \<notin> set (tcUpstreams tp)" if "u \<in> set (rpUpstreams rp)" for u
    using f that live t by (fastforce simp: from_live_def tcp_ready_def)
  then show "set (rpUpstreams rp) \<inter> set (tcUpstreams tp) = {}" by blast
  show "rpNumber rp \<noteq> l4Selector (tcProxy tp)" using f live t by (auto simp: from_live_def tcp_ready_def)
qed

lemma tcp_ok_extends: "tcp_ok bs pools tcps \<Longrightarrow> extends bs bs' \<Longrightarrow> tcp_ok bs' pools tcps"
  by (erule tcp_ok_next) (auto simp: from_live_def)

lemma apply_plan_tcp [simp]: "ruTCPPools (apply_plan plan rt) = ruTCPPools rt" "ruTCPListeners (apply_plan plan rt) = ruTCPListeners rt"
proof -
  have "ruTCPPools (fold (\<lambda>(name, inst) rt. serveListener inst (rt\<lparr>ruListeners := AList.update name inst (ruListeners rt)\<rparr>)) xs rt) = ruTCPPools rt \<and>
      ruTCPListeners (fold (\<lambda>(name, inst) rt. serveListener inst (rt\<lparr>ruListeners := AList.update name inst (ruListeners rt)\<rparr>)) xs rt) = ruTCPListeners rt" for xs
    by (induction xs arbitrary: rt) (auto simp: serveListener_def)
  then show "ruTCPPools (apply_plan plan rt) = ruTCPPools rt" "ruTCPListeners (apply_plan plan rt) = ruTCPListeners rt"
    by (simp_all add: apply_plan_def retire_def Let_def)
qed

lemma fresh_next_pools: "next_pools live bs bs []"
  by (simp add: next_pools_def pools_ok_def)

lemma reload_wired:
  assumes "wired env rt" and "reloadConfig env loaded rt = (ok, rt')"
  shows "wired env rt' \<and> extends (ruState rt) (ruState rt')"
proof (cases loaded)
  case (Inl e)
  then show ?thesis using assms by (auto simp: reloadConfig_def)
next
  case l: (Inr newCfg)
  obtain r rt1 where d: "diffListeners env (Listeners newCfg) rt = (r, rt1)" by fastforce
  note same = sockets_onlyD [OF diffListeners_frame [of rt env "Listeners newCfg", unfolded d snd_conv]]
  have tcp: "ruTCPPools rt1 = ruTCPPools rt" using diffListeners_frame [of rt env "Listeners newCfg", unfolded d snd_conv]
    by (cases rt; cases rt1) (simp add: sockets_only_def)
  let ?bs0 = "ruState rt"
  have w: "pools_ok ?bs0 (ruPools rt)" "tcp_ok ?bs0 (ruPools rt) (ruTCPPools rt)" using assms(1) by (auto simp: wired_def)
  have w1: "wired env (rt1\<lparr>ruState := bs\<rparr>)" if "extends ?bs0 bs" for bs
    using assms(1) same tcp pools_ok_extends [OF w(1) that] tcp_ok_extends [OF w(2) that] by (simp add: wired_def)
  have w0: "wired env rt1" using assms(1) same tcp by (simp add: wired_def)
  show ?thesis
  proof (cases r)
    case (Inl e)
    then show ?thesis using assms(2) d l same w0 by (auto simp: reloadConfig_def)
  next
    case plan: (Inr plan)
    obtain ps bs where p: "reload_pools env (ruPools rt) (indexPoolsByName (Pools (ruCfg rt))) (Pools newCfg) [] ?bs0 = (ps, bs)" by fastforce
    note n = reload_pools_next [OF p w(1) extends_refl fresh_next_pools]
    show ?thesis
    proof (cases ps)
      case (Inl e)
      then show ?thesis using assms(2) d l plan p same n w1 by (auto simp: reloadConfig_def)
    next
      case pools: (Inr newPools)
      let ?bs1 = "retire_pools (ruPools rt) newPools bs"
      obtain ro bs2 where b: "build_router env (Routes newCfg) newPools ?bs1 = (ro, bs2)" by fastforce
      have e1: "extends ?bs0 ?bs1" using n by simp
      have e12: "extends bs bs2" using build_router_extends(1) [OF b] by (simp add: extends_def store_def)
      have e2: "extends ?bs0 bs2" using extends_trans n e12 by blast
      show ?thesis
      proof (cases ro)
        case (Inl e)
        then show ?thesis using assms(2) d l plan p pools b same e2 w1 by (auto simp: reloadConfig_def Let_def)
      next
        case router: (Inr router)
        have rt': "rt' = apply_plan plan (rt1\<lparr>ruState := bs2, ruPools := newPools, ruRouter := Some router, ruCfg := newCfg\<rparr>)"
          using assms(2) d l plan p pools b router same by (auto simp: reloadConfig_def Let_def)
        have np: "next_pools (ruPools rt) ?bs0 bs newPools" "fst ` set newPools = pName ` set (Pools newCfg)" using n pools by auto
        have ok2: "pools_ok bs2 newPools" by (rule pools_ok_extends [OF _ e12]) (use np(1) in \<open>simp add: next_pools_def\<close>)
        have tcp2: "tcp_ok bs2 newPools (ruTCPPools rt)" using tcp_ok_next [OF w(2) e2] np(1) by (simp add: next_pools_def)
        have "routed env (Routes newCfg) newPools (Some router)" using b [unfolded router] by (auto simp: routed_def)
        then show ?thesis using rt' e2 ok2 tcp2 np(2) tcp by (simp add: wired_def)
      qed
    qed
  qed
qed

section \<open>Start-up establishes it\<close>

lemma build_pools_eq: "build_pools env ps acc bs = reload_pools env [] old ps acc bs"
  by (induction ps arbitrary: acc bs) (auto simp: Let_def split: prod.split sum.split)

lemma tcp_upstreams_fresh:
  "tcp_upstreams_loop parse ucs n h = (res, n', h') \<Longrightarrow>
   n \<le> n' \<and> (\<forall>v < n. h' v = h v) \<and> (\<forall>out. res = Inr out \<longrightarrow> (\<forall>x \<in> set out. n \<le> x \<and> x < n'))"
proof (induction ucs arbitrary: n h res)
  case (Cons uc ucs)
  show ?case
  proof (cases "parse (''tcp://'' @ tuAddress uc)")
    case (Inr u)
    obtain res' where t: "tcp_upstreams_loop parse ucs (n + 1) (h(n := new_upstream u (tuWeight uc) True)) = (res', n', h')"
      "res = map_sum id ((#) n) res'"
      using Cons.prems Inr by (auto simp: Let_def split: prod.splits)
    from Cons.IH [OF t(1)] show ?thesis by (cases res') (fastforce simp: t(2))+
  qed (use Cons.prems in auto)
qed simp

lemma buildTCPPool_extends:
  assumes "buildTCPPool env p bs = (res, bs')"
  shows "extends bs bs'" "res = Inr tp \<Longrightarrow> tcp_ready bs' tp \<and> l4Selector (tcProxy tp) = bsNextPool bs \<and> (\<forall>u \<in> set (tcUpstreams tp). bsNextUpstream bs \<le> u)"
proof -
  obtain ups n h where b: "tcp_upstreams_loop (beParseURL env) (tpUpstreams p) (bsNextUpstream bs) (wUpstreams (bsWorld bs)) = (ups, n, h)"
    by (metis surj_pair)
  note f = tcp_upstreams_fresh [OF b]
  show "extends bs bs'" using assms b f by (auto simp: buildTCPPool_def Let_def extends_def store_def split: sum.splits)
  assume "res = Inr tp"
  then show "tcp_ready bs' tp \<and> l4Selector (tcProxy tp) = bsNextPool bs \<and> (\<forall>u \<in> set (tcUpstreams tp). bsNextUpstream bs \<le> u)"
    using assms b f by (auto simp: buildTCPPool_def Let_def tcp_ready_def dest: buildSelector_pool split: sum.splits)
qed

lemma build_tcp_pools_wired:
  "build_tcp_pools env ps rt = (res, rt') \<Longrightarrow> wired env rt \<Longrightarrow> wired env rt'"
proof (induction ps arbitrary: rt)
  case (Cons p ps)
  obtain r bs where b: "buildTCPPool env p (ruState rt) = (r, bs)" by fastforce
  have e: "extends (ruState rt) bs" using buildTCPPool_extends(1) [OF b] .
  have ok: "pools_ok bs (ruPools rt)" "tcp_ok bs (ruPools rt) (ruTCPPools rt)"
    using Cons.prems(2) pools_ok_extends [OF _ e] tcp_ok_extends [OF _ e] by (auto simp: wired_def)
  show ?case
  proof (cases r)
    case (Inl a)
    then have "rt' = rt\<lparr>ruState := bs\<rparr>" using Cons.prems(1) b by simp
    then show ?thesis using Cons.prems(2) ok by (simp add: wired_def)
  next
    case (Inr tp)
    note t = buildTCPPool_extends(2) [OF b Inr]
    have "pool_ready (ruState rt) rp" if "map_of (ruPools rt) n = Some rp" for n rp
      using Cons.prems(2) that by (auto simp: wired_def pools_ok_def)
    then have d: "set (rpUpstreams rp) \<inter> set (tcUpstreams tp) = {} \<and> rpNumber rp \<noteq> l4Selector (tcProxy tp)" if "map_of (ruPools rt) n = Some rp" for n rp
      using that t by (fastforce simp: pool_ready_def)
    have "tcp_ok bs (ruPools rt) (AList.update (tpName p) tp (ruTCPPools rt))"
      using ok(2) t d unfolding tcp_ok_def AList.update_conv' fun_upd_apply by auto
    then have "wired env (rt\<lparr>ruState := bs, ruTCPPools := AList.update (tpName p) tp (ruTCPPools rt)\<rparr>)"
      using Cons.prems(2) ok by (simp add: wired_def)
    then show ?thesis using Cons.IH Cons.prems(1) b Inr by auto
  qed
qed simp

lemma wired_cong:
  "ruRouter rt' = ruRouter rt \<Longrightarrow> ruCfg rt' = ruCfg rt \<Longrightarrow> ruPools rt' = ruPools rt \<Longrightarrow> ruTCPPools rt' = ruTCPPools rt \<Longrightarrow> ruState rt' = ruState rt \<Longrightarrow>
   wired env rt \<Longrightarrow> wired env rt'"
  by (simp add: wired_def)

lemma buildListeners_wired: "buildListeners env lcs rt = (res, rt') \<Longrightarrow> wired env rt \<Longrightarrow> wired env rt'"
proof (induction lcs arbitrary: rt)
  case (Cons lc lcs)
  obtain r rt1 where n: "newListenerForRuntime env lc rt = (r, rt1)" by fastforce
  have "wired env rt1" "wired env (rt1\<lparr>ruListeners := x\<rparr>)" for x
    using n Cons.prems(2) by (auto simp: newListenerForRuntime_def elim!: wired_cong [rotated 5] split: sum.splits)
  then show ?case using Cons.IH Cons.prems(1) n by (cases r) auto
qed simp

lemma tcp_listeners_wired: "build_tcp_listeners env lcs rt = (res, rt') \<Longrightarrow> wired env rt \<Longrightarrow> wired env rt'"
proof (induction lcs arbitrary: rt)
  case (Cons lc lcs)
  have "wired env (rt\<lparr>ruNext := a, ruBound := b, ruTCPListeners := c\<rparr>)" for a b c
    using Cons.prems(2) by (elim wired_cong [rotated 5]) simp_all
  then show ?case using Cons.IH Cons.prems by (auto split: option.splits if_splits)
qed simp

lemma buildRuntime_wired:
  assumes "buildRuntime env c bs = Inr rt"
  shows "wired env rt"
proof -
  obtain pools bs1 router bs2 rt1 rt2 where p: "build_pools env (Pools c) [] bs = (Inr pools, bs1)"
    and r: "build_router env (Routes c) pools bs1 = (Inr router, bs2)"
    and l: "buildListeners env (Listeners c) \<lparr>ruListeners = [], ruPools = pools, ruTCPListeners = [], ruTCPPools = [], ruCfg = c,
      ruRouter = Some router, ruState = bs2, ruNext = 0, ruBound = [], ruServing = [], ruStopped = []\<rparr> = (None, rt1)" (is "buildListeners _ _ ?rt0 = _")
    and t: "build_tcp_pools env (TCPPools c) rt1 = (None, rt2)" and u: "build_tcp_listeners env (TCPListeners c) rt2 = (None, rt)"
    using assms by (auto simp: buildRuntime_def Let_def split: prod.splits sum.splits option.splits)
  have "pools_ok bs ([] :: (string \<times> 'a runtime_pool) list)" by (simp add: pools_ok_def)
  note n = reload_pools_next [OF p [unfolded build_pools_eq [where old = "\<lambda>_. None"]] this extends_refl fresh_next_pools]
  have "pools_ok bs2 pools" by (rule pools_ok_extends [OF _ build_router_extends(1) [OF r]]) (use n in \<open>simp add: next_pools_def\<close>)
  moreover have "routed env (Routes c) pools (Some router)" using r by (auto simp: routed_def)
  ultimately have "wired env ?rt0" using n by (simp add: wired_def tcp_ok_def)
  from buildListeners_wired [OF l this] show ?thesis using build_tcp_pools_wired [OF t] tcp_listeners_wired [OF u] by blast
qed

section \<open>Which route serves a request\<close>

text \<open>The specification of the router on the configuration itself: a route whose handler is its own entry.\<close>

definition cfg_route :: "route_config \<Rightarrow> route_config route" where
  "cfg_route rc = \<lparr>rtName = rName rc, rtHostPattern = rcHost rc, rtPathPrefix = rPathPrefix rc,
     rtHeaderPredicates = rHeaderPredicates rc, rtHandler = rc\<rparr>"

definition route_for :: "route_config list \<Rightarrow> http_request \<Rightarrow> route_config option" where
  "route_for rcs req = map_option (\<lambda>m. rtHandler (mRoute m)) (route_spec (map cfg_route rcs) req)"

definition built_route :: "('c, 'z) build_env \<Rightarrow> (string \<times> 'c runtime_pool) list \<Rightarrow> nat \<times> route_config \<Rightarrow> handler route" where
  "built_route env pools z =
     (let rc = snd z
      in \<lparr>rtName = rName rc, rtHostPattern = rcHost rc, rtPathPrefix = rPathPrefix rc, rtHeaderPredicates = rHeaderPredicates rc,
          rtHandler = route_handler env (fst z) rc (the (map_of pools (rPool rc)))\<rparr>)"

lemma sort_key_map: "sort_key f (map g xs) = map g (sort_key (\<lambda>x. f (g x)) xs)"
proof -
  have "insort_key f (g x) (map g xs) = map g (insort_key (\<lambda>x. f (g x)) x xs)" for x xs by (induction xs) auto
  then show ?thesis by (induction xs) simp_all
qed

lemma first_of_map: "first_of (map g xs) = map_option g (first_of xs)"
  by (simp add: first_of_def split: list.split)

lemma first_of_set: "first_of xs = Some x \<Longrightarrow> x \<in> set xs"
  by (auto simp: first_of_def split: list.splits)

lemma route_spec_map:
  "route_spec (map g zs) req =
     map_option (\<lambda>z. the_match req (g z)) (first_of (sort_key (\<lambda>z. precedence (g z)) (filter (\<lambda>z. applies req (g z)) zs)))"
  by (simp add: route_spec_def filter_map comp_def sort_key_map first_of_map option.map_comp)

lemma same_pattern:
  "precedence (built_route env pools z) = precedence (cfg_route (snd z))" "applies req (built_route env pools z) = applies req (cfg_route (snd z))"
  by (simp_all add: built_route_def cfg_route_def precedence_def applies_def host_applies_def rest_applies_def is_wildcard_def bucket_order_def Let_def)

lemma buildRoutes_eq:
  "buildRoutes env rcs pools bs = (Inr rs, bs') \<Longrightarrow>
   (\<forall>rc \<in> set rcs. map_of pools (rPool rc) \<noteq> None) \<and> rs = map (built_route env pools) (enumerate (bsNextLimiter bs) rcs)"
proof (induction rcs arbitrary: bs rs)
  case (Cons rc rcs)
  obtain pool where p: "map_of pools (rPool rc) = Some pool" using Cons.prems by (cases "map_of pools (rPool rc)") auto
  let ?bs1 = "bs\<lparr>bsNextLimiter := bsNextLimiter bs + 1, bsWorld := install_limiter (bsNextLimiter bs) rc (bsWorld bs)\<rparr>"
  obtain r where r: "buildRoutes env rcs pools ?bs1 = (r, bs')" "map_sum id ((#) (built_route env pools (bsNextLimiter bs, rc))) r = Inr rs"
    using Cons.prems p by (auto simp: Let_def built_route_def split: prod.splits)
  then obtain rs' where "r = Inr rs'" "rs = built_route env pools (bsNextLimiter bs, rc) # rs'" by (cases r) auto
  with Cons.IH [of ?bs1 rs'] r(1) p show ?case by simp
qed simp

lemma routed_match:
  assumes "routed env rcs pools (Some router)" and "arranges (beArrange env)"
  shows "case route_for rcs req of
      None \<Rightarrow> Match router req = None
    | Some rc \<Rightarrow> rc \<in> set rcs \<and> (\<exists>i pool m. map_of pools (rPool rc) = Some pool \<and> Match router req = Some m \<and>
        mRoute m = built_route env pools (i, rc) \<and> rtHandler (mRoute m) = route_handler env i rc pool)"
proof -
  obtain bs bs2 where br: "build_router env rcs pools bs = (Inr router, bs2)" using assms(1) by (auto simp: routed_def)
  obtain r bs' where b0: "buildRoutes env rcs pools bs = (r, bs')" by fastforce
  then obtain rs where "r = Inr rs" and n: "NewRouter (beArrange env) rs = Inr router"
    using br by (cases r) (auto simp: build_router_def split: sum.splits)
  then have b: "buildRoutes env rcs pools bs = (Inr rs, bs')" using b0 by simp
  let ?zs = "enumerate (bsNextLimiter bs) rcs"
  define best where "best = first_of (sort_key (\<lambda>z. precedence (cfg_route (snd z))) (filter (\<lambda>z. applies req (cfg_route (snd z))) ?zs))"
  have m: "Match router req = map_option (\<lambda>z. the_match req (built_route env pools z)) best"
    using Match_eq_spec [OF n assms(2)] buildRoutes_eq [OF b] by (simp add: route_spec_map same_pattern best_def)
  have "map cfg_route rcs = map (\<lambda>z. cfg_route (snd z)) ?zs" by (simp flip: map_map [unfolded comp_def])
  then have f: "route_for rcs req = map_option snd best"
    by (simp add: route_for_def route_spec_map best_def option.map_comp comp_def the_match_def cfg_route_def)
  show ?thesis
  proof (cases best)
    case None
    then show ?thesis using m f by simp
  next
    case (Some z)
    then have "z \<in> set ?zs" using first_of_set by (fastforce simp: best_def)
    then have rc: "snd z \<in> set rcs" by (metis map_snd_enumerate list.set_map image_eqI)
    then obtain pool where p: "map_of pools (rPool (snd z)) = Some pool" using buildRoutes_eq [OF b] by blast
    have h: "rtHandler (built_route env pools (fst z, snd z)) = route_handler env (fst z) (snd z) pool" using p by (simp add: built_route_def Let_def)
    show ?thesis using Some m f rc p h by (cases z) (auto simp: the_match_def)
  qed
qed

section \<open>Every step keeps the invariant\<close>

lemma world_wired:
  assumes "wired env rt" and "\<forall>j. sel_pool (wSelectors w j) = sel_pool (wSelectors (bsWorld (ruState rt)) j)"
  shows "wired env (set_world w rt)"
  using assms by (simp add: wired_def set_world_def pools_ok_def pool_ready_def tcp_ok_def tcp_ready_def)

lemma handler_run:
  assumes "wired env rt" and "arranges (beArrange env)"
  shows "case route_for (Routes (ruCfg rt)) req of
      None \<Rightarrow> runtime_handler rt ctx req w = (NotFound, w)
    | Some rc \<Rightarrow> \<exists>i pool. map_of (ruPools rt) (rPool rc) = Some pool \<and> runtime_handler rt ctx req w = route_handler env i rc pool ctx req w"
proof -
  obtain router where r: "ruRouter rt = Some router" "routed env (Routes (ruCfg rt)) (ruPools rt) (Some router)"
    using assms(1) by (auto simp: wired_def routed_def)
  show ?thesis using routed_match [OF r(2) assms(2), where req = req] r(1)
    by (auto simp: runtime_handler_def split: option.splits)
qed

lemma request_pools:
  assumes "wired env rt" and "arranges (beArrange env)" and "runtime_handler rt ctx req w = (rn, w')"
  shows "sel_pool (wSelectors w' j) = sel_pool (wSelectors w j)"
proof (cases "route_for (Routes (ruCfg rt)) req")
  case None
  then show ?thesis using handler_run [OF assms(1,2), where req = req and ctx = ctx and w = w] assms(3) by simp
next
  case (Some rc)
  then obtain i pool where "(rn, w') = route_handler env i rc pool ctx req w"
    using handler_run [OF assms(1,2), where req = req and ctx = ctx and w = w] assms(3) by auto
  then show ?thesis using keepsD [OF route_confined, of pool w env i rc ctx req] by (metis confined_def snd_conv)
qed

lemma connection_pools: "sel_pool (wSelectors (snd (ServeConn mexp p remote io w)) j) = sel_pool (wSelectors w j)"
proof -
  obtain res w1 where p: "pickUpstream p remote w = (res, w1)" by fastforce
  have w1: "sel_pool (wSelectors w1 j) = sel_pool (wSelectors w j)"
    using p by (auto simp: pickUpstream_def Let_def case_prod_beta sel.pool_fixed)
  then show ?thesis
    by (cases res) (auto simp: ServeConn_def p Let_def enter_def leave_def split: option.split)
qed

lemma live_wired:
  assumes "live_step env rt rt'" and "arranges (beArrange env)" and "wired env rt"
  shows "wired env rt'"
  using assms(1)
proof cases
  case (request ctx req rn w)
  then show ?thesis using world_wired [OF assms(3)] request_pools [OF assms(3,2)] by blast
next
  case (connection m tp io remote res w)
  then show ?thesis using world_wired [OF assms(3)] connection_pools by (metis snd_conv)
next
  case reload
  then show ?thesis using reload_wired [OF assms(3)] by blast
qed (use world_wired [OF assms(3)] in simp_all)

lemma start_serving_wired: "wired env rt \<Longrightarrow> wired env (start_serving rt)"
  by (rule wired_cong) (simp_all add: start_serving_eq)

lemma running_wired:
  assumes "running env c bs rt" and "arranges (beArrange env)"
  shows "wired env rt"
proof -
  obtain rt0 where b: "buildRuntime env c bs = Inr rt0" and s: "(live_step env)\<^sup>*\<^sup>* (start_serving rt0) rt"
    using assms(1) by (auto simp: running_def)
  from s show ?thesis
    by (induction rule: rtranclp_induct) (auto intro: start_serving_wired buildRuntime_wired [OF b] live_wired assms(2))
qed

section \<open>Properties\<close>


lemma sample_program_starts: "\<exists>rt. buildRuntime sample_env (sample_config [sample_route_config ''r'' []]) sample_state = Inr rt \<and> ruCfg rt = sample_config [sample_route_config ''r'' []]"
proof -
  let ?c = "sample_config [sample_route_config ''r'' []]"
  obtain rp bs1 where p: "build_pools sample_env (Pools ?c) [] sample_state = (Inr [(''p'', rp)], bs1)"
    by (simp add: sample_config_def sample_pool_config_def buildPool_def sample_env_def buildUpstreamsReusing_def upstreams_by_url_def
        sample_url_def buildSelector_def loadUpstreamTLS_def Let_def)
  obtain ro bs2 where "build_router sample_env (Routes ?c) [(''p'', rp)] bs1 = (Inr ro, bs2)"
    by (simp add: build_router_def sample_config_def sample_route_config_def NewRouter_def validate_def route_key_def predicatesKey_def Let_def case_prod_beta)
  with p show ?thesis by (simp add: buildRuntime_def sample_config_def Let_def)
qed


text \<open>
  (C12) No reload forgets: at any time in the life of the program, a reload, whether it succeeds or fails and
  wherever it fails, leaves the breaker, the latency average, the in-flight counter and the address of every
  upstream in service as they are (only weights and eligibility may move), and does not touch the state of
  the selector or of the health monitor of any pool in service.
\<close>

theorem reload_keeps_live_state:
  assumes "running env c bs rt" and "arranges (beArrange env)" and "reloadConfig env loaded rt = (ok, rt')" and "map_of (ruPools rt) n = Some rp"
  shows "(\<forall>u \<in> set (rpUpstreams rp). lasting (store (ruState rt') u) (store (ruState rt) u)) \<and>
    wSelectors (bsWorld (ruState rt')) (rpNumber rp) = wSelectors (bsWorld (ruState rt)) (rpNumber rp) \<and>
    wMonitors (bsWorld (ruState rt')) (rpNumber rp) = wMonitors (bsWorld (ruState rt)) (rpNumber rp)"
proof -
  have w: "wired env rt" using running_wired [OF assms(1,2)] .
  have r: "pool_ready (ruState rt) rp" using w assms(4) by (auto simp: wired_def pools_ok_def)
  have e: "extends (ruState rt) (ruState rt')" using reload_wired [OF w assms(3)] by simp
  from r e show ?thesis by (auto simp: pool_ready_def extends_def)
qed

theorem reload_keeps_live_state_witness:
  "\<exists>rt ok rt' rp. running sample_env (sample_config [sample_route_config ''r'' []]) sample_state rt \<and>
     reloadConfig sample_env (Inr (sample_config []) :: unit + config) rt = (ok, rt') \<and> map_of (ruPools rt) ''p'' = Some rp \<and>
     (\<forall>u \<in> set (rpUpstreams rp). lasting (store (ruState rt') u) (store (ruState rt) u))"
proof -
  let ?c = "sample_config [sample_route_config ''r'' []]"
  obtain rt where b: "buildRuntime sample_env ?c sample_state = Inr rt" and c: "ruCfg rt = ?c" using sample_program_starts by blast
  have r: "running sample_env ?c sample_state (start_serving rt)" using b by (auto simp: running_def)
  have a: "arranges (beArrange sample_env)" by (simp add: sample_env_def arranges_stable)
  have "''p'' \<in> fst ` set (ruPools (start_serving rt))"
    using running_wired [OF r a] by (simp add: wired_def start_serving_eq c sample_config_def sample_pool_config_def)
  then obtain rp where p: "map_of (ruPools (start_serving rt)) ''p'' = Some rp" by (metis map_of_eq_None_iff not_None_eq)
  obtain ok rt' where l: "reloadConfig sample_env (Inr (sample_config []) :: unit + config) (start_serving rt) = (ok, rt')" by fastforce
  from reload_keeps_live_state [OF r a l p] r l p show ?thesis by blast
qed

end
