(* ===== verification/Telemetry.thy ===== *)
theory Telemetry
  imports Compress
begin

text \<open>
  Metrics and tracing set-up, package \<^verbatim>\<open>internal/observability\<close>. The Prometheus client and the OpenTelemetry
  SDK are other packages: the metric set is the list of descriptors that \<^verbatim>\<open>NewMetrics\<close> registers, and what
  the program does to a metric is a call (which metric, which label values, which operation) that it
  hands to the client. \<open>accepted\<close> is the documented precondition of such a call: as many label values as the
  metric declares, an operation its kind has, no negative increment of a counter; the client panics
  otherwise. (It also panics on a label value that is not UTF-8; label values here are texts of the YAML file,
  numbers and HTTP tokens.) Of spans, only their place in a trace is modelled.
\<close>

section \<open>The metric set\<close>

datatype metric =
  Requests_m | RequestDuration | UpstreamRequests | UpstreamDuration | UpstreamInflight
| BreakerState_m | BreakerTransitions | HealthTransitions | NoRoute | Panics
| HedgeFired | HedgeWinner | RetryAttempts | ConfigReloads | ReloadDuration
| TCPConnections | TCPDuration | TCPBytesUp | TCPBytesDown

datatype metric_kind = Counter | Gauge | Histogram "float64 list"

record metric_desc =
  mdName :: string
  mdKind :: metric_kind
  mdLabels :: "string list"

definition durationBuckets :: "float64 list" where
  "durationBuckets = map rnd [1/1000, 5/1000, 1/100, 25/1000, 5/100, 1/10, 25/100, 5/10, 1, 25/10, 5, 10]"

fun NewMetrics :: "metric \<Rightarrow> metric_desc" where
  "NewMetrics Requests_m = \<lparr>mdName = ''proxy_requests_total'', mdKind = Counter, mdLabels = [''route'', ''method'', ''status'']\<rparr>"
| "NewMetrics RequestDuration =
     \<lparr>mdName = ''proxy_request_duration_seconds'', mdKind = Histogram durationBuckets, mdLabels = [''route'', ''method'']\<rparr>"
| "NewMetrics UpstreamRequests =
     \<lparr>mdName = ''proxy_upstream_requests_total'', mdKind = Counter, mdLabels = [''pool'', ''upstream'', ''status'']\<rparr>"
| "NewMetrics UpstreamDuration =
     \<lparr>mdName = ''proxy_upstream_duration_seconds'', mdKind = Histogram durationBuckets, mdLabels = [''pool'', ''upstream'']\<rparr>"
| "NewMetrics UpstreamInflight = \<lparr>mdName = ''proxy_upstream_inflight'', mdKind = Gauge, mdLabels = [''pool'', ''upstream'']\<rparr>"
| "NewMetrics BreakerState_m = \<lparr>mdName = ''proxy_circuit_breaker_state'', mdKind = Gauge, mdLabels = [''pool'', ''upstream'']\<rparr>"
| "NewMetrics BreakerTransitions =
     \<lparr>mdName = ''proxy_circuit_breaker_transitions_total'', mdKind = Counter, mdLabels = [''pool'', ''upstream'', ''to'']\<rparr>"
| "NewMetrics HealthTransitions =
     \<lparr>mdName = ''proxy_health_eligibility_transitions_total'', mdKind = Counter, mdLabels = [''pool'', ''upstream'', ''to'', ''reason'']\<rparr>"
| "NewMetrics NoRoute = \<lparr>mdName = ''proxy_no_route_total'', mdKind = Counter, mdLabels = [''listener'']\<rparr>"
| "NewMetrics Panics = \<lparr>mdName = ''proxy_panics_total'', mdKind = Counter, mdLabels = [''location'']\<rparr>"
| "NewMetrics HedgeFired = \<lparr>mdName = ''proxy_hedge_fired_total'', mdKind = Counter, mdLabels = [''route'']\<rparr>"
| "NewMetrics HedgeWinner = \<lparr>mdName = ''proxy_hedge_winner_total'', mdKind = Counter, mdLabels = [''route'', ''winner'']\<rparr>"
| "NewMetrics RetryAttempts = \<lparr>mdName = ''proxy_retry_attempts_total'', mdKind = Counter, mdLabels = [''route'', ''outcome'']\<rparr>"
| "NewMetrics ConfigReloads = \<lparr>mdName = ''proxy_config_reloads_total'', mdKind = Counter, mdLabels = [''outcome'']\<rparr>"
| "NewMetrics ReloadDuration = \<lparr>mdName = ''proxy_config_reload_duration_seconds'', mdKind = Histogram durationBuckets, mdLabels = []\<rparr>"
| "NewMetrics TCPConnections =
     \<lparr>mdName = ''proxy_tcp_connections_total'', mdKind = Counter, mdLabels = [''pool'', ''upstream'', ''outcome'']\<rparr>"
| "NewMetrics TCPDuration =
     \<lparr>mdName = ''proxy_tcp_session_duration_seconds'', mdKind = Histogram (map rnd [1/1000, 1/100, 1/10, 1, 10, 60, 300, 1800]),
      mdLabels = [''pool'', ''upstream'']\<rparr>"
| "NewMetrics TCPBytesUp = \<lparr>mdName = ''proxy_tcp_bytes_up_total'', mdKind = Counter, mdLabels = [''pool'', ''upstream'']\<rparr>"
| "NewMetrics TCPBytesDown = \<lparr>mdName = ''proxy_tcp_bytes_down_total'', mdKind = Counter, mdLabels = [''pool'', ''upstream'']\<rparr>"

text \<open>The argument list of the second \<^verbatim>\<open>MustRegister\<close>.\<close>

definition registered :: "metric list" where
  "registered =
     [Requests_m, RequestDuration, UpstreamRequests, UpstreamDuration, UpstreamInflight, BreakerState_m, BreakerTransitions,
      HealthTransitions, NoRoute, Panics, HedgeFired, HedgeWinner, RetryAttempts, ConfigReloads, ReloadDuration,
      TCPConnections, TCPDuration, TCPBytesUp, TCPBytesDown]"

section \<open>What the program does to the metrics\<close>

datatype metric_op = Inc | Dec | Add float64 | SetTo float64 | Observe float64

type_synonym metric_call = "metric \<times> string list \<times> metric_op"

text \<open>The first argument says whether the \<^verbatim>\<open>*Metrics\<close> receiver is non-nil.\<close>

definition ObserveRequest :: "bool \<Rightarrow> string \<Rightarrow> string \<Rightarrow> int \<Rightarrow> duration \<Rightarrow> metric_call list" where
  "ObserveRequest present route meth status d =
     (if \<not> present then []
      else [(Requests_m, [route, meth, itoa status], Inc), (RequestDuration, [route, meth], Observe (dur_seconds d))])"

definition status_label :: "int \<Rightarrow> string" where
  "status_label status = (if status > 0 then itoa status else ''err'')"

definition ObserveUpstream :: "bool \<Rightarrow> string \<Rightarrow> string \<Rightarrow> int \<Rightarrow> duration \<Rightarrow> metric_call list" where
  "ObserveUpstream present pool upstream status d =
     (if \<not> present then []
      else [(UpstreamRequests, [pool, upstream, status_label status], Inc),
            (UpstreamDuration, [pool, upstream], Observe (dur_seconds d))])"

definition SetBreakerState :: "bool \<Rightarrow> string \<Rightarrow> string \<Rightarrow> int \<Rightarrow> metric_call list" where
  "SetBreakerState present pool upstream st =
     (if \<not> present then [] else [(BreakerState_m, [pool, upstream], SetTo (of_integer st))])"

definition OnDispatched :: "string \<Rightarrow> string \<Rightarrow> nat \<Rightarrow> nat \<Rightarrow> duration \<Rightarrow> metric_call list" where
  "OnDispatched pool label bytesUp bytesDown d =
     [(TCPConnections, [pool, label, ''ok''], Inc), (TCPDuration, [pool, label], Observe (dur_seconds d)),
      (TCPBytesUp, [pool, label], Add (of_integer (int bytesUp))), (TCPBytesDown, [pool, label], Add (of_integer (int bytesDown)))]"

definition OnTransition :: "string \<Rightarrow> string \<Rightarrow> bool \<Rightarrow> string \<Rightarrow> metric_call list" where
  "OnTransition pool upstream eligible reason =
     [(HealthTransitions, [pool, upstream, if eligible then ''eligible'' else ''ineligible'', reason], Inc)]"

definition inflight_metric :: "bool \<Rightarrow> string \<Rightarrow> string \<Rightarrow> bool \<Rightarrow> metric_call list" where
  "inflight_metric present pool upstream entering =
     (if \<not> present then [] else [(UpstreamInflight, [pool, upstream], if entering then Inc else Dec)])"

definition reload_metrics :: "bool \<Rightarrow> duration \<Rightarrow> metric_call list" where
  "reload_metrics ok d =
     [(ConfigReloads, [if ok then ''success'' else ''fail''], Inc), (ReloadDuration, [], Observe (dur_seconds d))]"

section \<open>The metrics listener\<close>

definition plain_answer :: "string \<Rightarrow> handler" where
  "plain_answer body ctx r w = (\<lparr>rnCalls = [WriteHeader 200, Write body], rnEnding = Returned, rnChosen = None, rnErr = None\<rparr>, w)"

text \<open>The patterns and handlers entered in the \<^verbatim>\<open>ServeMux\<close>; the first handler is the client library's.\<close>

definition metrics_Handler :: "handler \<Rightarrow> string \<Rightarrow> (string \<times> handler) list" where
  "metrics_Handler promhttp version =
     [(''/metrics'', promhttp), (''/-/healthz'', plain_answer (''ok'' @ [CHR 0x0A])), (''/-/ready'', plain_answer (''ready'' @ [CHR 0x0A])),
      (''/-/version'', plain_answer (version @ [CHR 0x0A]))]"

section \<open>Tracing\<close>

record tracing_config =
  tcEndpoint :: string
  tcServiceName :: string
  tcSampleRatio :: quality
  tcInsecure :: bool

datatype tracer_provider = NoopProvider | SDKProvider (spEndpoint: string) (spInsecure: bool) (spService: string) (spRatio: quality)

record otel_state =
  otPropagators :: "string list"
  otProvider :: tracer_provider

datatype tracing_error = ExporterError string | ResourceError string

definition sample_ratio :: "quality \<Rightarrow> quality" where
  "sample_ratio ratio =
     (case ratio of
        QNegInf \<Rightarrow> QNum (rnd (1/100))
      | QNum a \<Rightarrow> if a \<le> 0 then QNum (rnd (1/100)) else if a > 1 then QNum 1 else ratio
      | QInf \<Rightarrow> QNum 1
      | QNaN \<Rightarrow> QNaN)"

text \<open>\<open>exporter\<close> and \<open>res\<close>: the errors of \<^verbatim>\<open>otlptracegrpc.New\<close> and of \<^verbatim>\<open>resource.New\<close>, if any.\<close>

definition SetupTracing ::
  "(string \<Rightarrow> bool \<Rightarrow> string option) \<Rightarrow> (string \<Rightarrow> string option) \<Rightarrow> tracing_config \<Rightarrow> otel_state \<Rightarrow> tracing_error option \<times> otel_state" where
  "SetupTracing exporter res c ot =
     (let ot1 = ot\<lparr>otPropagators := [''tracecontext'', ''baggage'']\<rparr>
      in if tcEndpoint c = [] then (None, ot1\<lparr>otProvider := NoopProvider\<rparr>)
         else case exporter (tcEndpoint c) (tcInsecure c) of
                Some e \<Rightarrow> (Some (ExporterError e), ot1)
              | None \<Rightarrow>
                  let serviceName = (if tcServiceName c = [] then ''l7rp'' else tcServiceName c)
                  in case res serviceName of
                       Some e \<Rightarrow> (Some (ResourceError e), ot1)
                     | None \<Rightarrow>
                         (None, ot1\<lparr>otProvider := SDKProvider (tcEndpoint c) (tcInsecure c) serviceName (sample_ratio (tcSampleRatio c))\<rparr>))"

text \<open>
  Trace headers. The propagators and the tracer are the SDK's: \<open>tpExtract\<close> reads headers into a context, \<open>tpInject\<close> writes
  a context onto headers, \<open>tpStart\<close> opens a span below the one of the context. A request is traced at the listener
  and again around the call to the upstream, with \<open>upReq\<close>, which the middleware chain and \<^verbatim>\<open>buildUpstreamRequest\<close> have
  made of it, in between.
\<close>

record 'x propagation =
  tpExtract :: "header \<Rightarrow> 'x \<Rightarrow> 'x"
  tpInject :: "'x \<Rightarrow> header \<Rightarrow> header"
  tpStart :: "string \<Rightarrow> 'x \<Rightarrow> 'x"

definition ExtractRequestContext :: "'x propagation \<Rightarrow> http_request \<Rightarrow> 'x \<Rightarrow> 'x" where
  "ExtractRequestContext tp r x = tpExtract tp (rHeader r) x"

definition InjectRequestContext :: "'x propagation \<Rightarrow> 'x \<Rightarrow> http_request \<Rightarrow> http_request" where
  "InjectRequestContext tp x r = r\<lparr>rHeader := tpInject tp x (rHeader r)\<rparr>"

definition listener_span :: "'x propagation \<Rightarrow> http_request \<Rightarrow> 'x \<Rightarrow> 'x" where
  "listener_span tp r x = tpStart tp ''proxy.request'' (ExtractRequestContext tp r x)"

definition traced_upstream_request :: "'x propagation \<Rightarrow> 'x \<Rightarrow> http_request \<Rightarrow> http_request" where
  "traced_upstream_request tp x upReq = InjectRequestContext tp (tpStart tp ''proxy.upstream.request'' x) upReq"

text \<open>
  What W3C propagation promises: what is injected is read back, and a span opened below another belongs to
  the same trace. \<open>trace_of\<close> is the trace a context belongs to.
\<close>

definition propagates :: "'x propagation \<Rightarrow> ('x \<Rightarrow> string option) \<Rightarrow> bool" where
  "propagates tp trace_of \<longleftrightarrow>
     (\<forall>x h y. trace_of x \<noteq> None \<longrightarrow> trace_of (tpExtract tp (tpInject tp x h) y) = trace_of x) \<and>
     (\<forall>name x. trace_of x \<noteq> None \<longrightarrow> trace_of (tpStart tp name x) = trace_of x)"

text \<open>A propagator over one header, with the trace as the context.\<close>

definition header_propagation :: "string option propagation" where
  "header_propagation =
     \<lparr>tpExtract = (\<lambda>h x. if hdr_get h ''Traceparent'' = [] then x else Some (hdr_get h ''Traceparent'')),
      tpInject = (\<lambda>x h. case x of None \<Rightarrow> h | Some t \<Rightarrow> if t = [] then h else hdr_set h ''Traceparent'' t), tpStart = (\<lambda>_ x. x)\<rparr>"

lemma header_propagates: "propagates header_propagation (\<lambda>x. if x = Some [] then None else x)"
  by (auto simp: propagates_def header_propagation_def hdr_get_set split: if_splits option.splits)

section \<open>Properties\<close>

primrec op_allowed :: "metric_kind \<Rightarrow> metric_op \<Rightarrow> bool" where
  "op_allowed Counter oper = (case oper of Inc \<Rightarrow> True | Add x \<Rightarrow> 0 \<le> x | _ \<Rightarrow> False)"
| "op_allowed Gauge oper = (case oper of Observe x \<Rightarrow> False | _ \<Rightarrow> True)"
| "op_allowed (Histogram bs) oper = (case oper of Observe x \<Rightarrow> True | _ \<Rightarrow> False)"

fun accepted :: "metric_call \<Rightarrow> bool" where
  "accepted (m, labels, oper) \<longleftrightarrow>
     m \<in> set registered \<and> length labels = length (mdLabels (NewMetrics m)) \<and> op_allowed (mdKind (NewMetrics m)) oper"


text \<open>
  Label discipline is weaker than documented: the package comment admits six label names, whose values
  come from the configuration, but other labels are declared too, and the method of a request, which the
  client chooses freely, is a label value: different methods give different series.
\<close>

theorem metric_labels_unbounded:
  "\<not> set (concat (map (mdLabels \<circ> NewMetrics) registered)) \<subseteq> {''route'', ''pool'', ''upstream'', ''listener'', ''method'', ''status''} \<and>
   inj (\<lambda>meth. map (fst \<circ> snd) (ObserveRequest True route meth status d))"
  by (auto simp: registered_def ObserveRequest_def inj_def)

text \<open>
  Sampling: whatever the flags say, unless the ratio is not a number, an installed sampler has a ratio above
  0 and at most 1; the propagators are installed in every case, and without an endpoint set-up cannot fail.
\<close>

theorem tracing_setup:
  assumes "SetupTracing exporter res c ot = (err, ot')" and "tcSampleRatio c \<noteq> QNaN"
  shows "otPropagators ot' = [''tracecontext'', ''baggage''] \<and>
    (if tcEndpoint c = [] then err = None \<and> otProvider ot' = NoopProvider
     else if err = None then spEndpoint (otProvider ot') = tcEndpoint c \<and> (\<exists>q. spRatio (otProvider ot') = QNum q \<and> 0 < q \<and> q \<le> 1)
     else otProvider ot' = otProvider ot)"
proof -
  have r: "0 < rnd (1/100)" "rnd (1/100) \<le> 1" using rnd_mono [of "1/100" 1] by (code_simp, simp)
  then have "\<exists>q. sample_ratio (tcSampleRatio c) = QNum q \<and> 0 < q \<and> q \<le> 1"
    using assms(2) by (auto simp: sample_ratio_def split: quality.split)
  then show ?thesis using assms(1) by (auto simp: SetupTracing_def Let_def split: option.splits if_splits)
qed

theorem tracing_setup_witness:
  "\<exists>ot. SetupTracing (\<lambda>_ _. None) (\<lambda>_. None) \<lparr>tcEndpoint = ''c:4317'', tcServiceName = [], tcSampleRatio = QNum 2, tcInsecure = True\<rparr>
     \<lparr>otPropagators = [], otProvider = NoopProvider\<rparr> = (None, ot) \<and> (\<exists>q. spRatio (otProvider ot) = QNum q \<and> 0 < q \<and> q \<le> 1)"
proof -
  let ?c = "\<lparr>tcEndpoint = ''c:4317'', tcServiceName = [], tcSampleRatio = QNum 2, tcInsecure = True\<rparr>"
  obtain ot where s: "SetupTracing (\<lambda>_ _. None) (\<lambda>_. None) ?c \<lparr>otPropagators = [], otProvider = NoopProvider\<rparr> = (None, ot)"
    by (simp add: SetupTracing_def)
  from tracing_setup [OF s] s show ?thesis by auto
qed

text \<open>
  The trace of a caller is not lost: the request that goes to an upstream belongs to the trace that the
  client's request announced, on every attempt and whatever the middleware did to the trace headers.
\<close>

theorem trace_forwarded:
  assumes "propagates tp trace_of" and "trace_of (ExtractRequestContext tp r x) = Some t"
  shows "trace_of (ExtractRequestContext tp (traced_upstream_request tp (listener_span tp r x) upReq) y) = Some t"
  using assms
  by (simp add: propagates_def ExtractRequestContext_def traced_upstream_request_def InjectRequestContext_def listener_span_def)

theorem trace_forwarded_witness:
  "ExtractRequestContext header_propagation
     (traced_upstream_request header_propagation (listener_span header_propagation (sample_request [(''Traceparent'', [''00-ab-cd-01''])]) None) (sample_request [])) None
   = Some ''00-ab-cd-01''"
proof -
  have "hdr_get (rHeader (sample_request [(''Traceparent'', [''00-ab-cd-01''])])) ''Traceparent'' = ''00-ab-cd-01''" by code_simp
  then have "(if ExtractRequestContext header_propagation (sample_request [(''Traceparent'', [''00-ab-cd-01''])]) None = Some [] then None
      else ExtractRequestContext header_propagation (sample_request [(''Traceparent'', [''00-ab-cd-01''])]) None) = Some ''00-ab-cd-01''"
    by (simp add: ExtractRequestContext_def header_propagation_def)
  from trace_forwarded [OF header_propagates this, of "sample_request []" None] show ?thesis by (auto split: if_splits)
qed

end
