(* ===== verification/Drain.thy ===== *)
theory Drain
  imports Listener L4
begin

text \<open>
  The life of a listener after its construction: \<^verbatim>\<open>setSocketOpts\<close>, \<^verbatim>\<open>Serve\<close>, \<^verbatim>\<open>Shutdown\<close> and \<^verbatim>\<open>Done\<close> of
  \<^verbatim>\<open>internal/listener\<close>, and what the process relies on when it waits for all its listeners. The HTTP listener
  is an interleaved step relation: connections of \<^verbatim>\<open>http.Server\<close> and streams of the QUIC server come and go, the
  \<^verbatim>\<open>Serve\<close> goroutine returns, \<^verbatim>\<open>Shutdown\<close> goes through its stages. \<^verbatim>\<open>http.Server\<close> does what its documentation
  says: \<^verbatim>\<open>Shutdown\<close> closes the listening socket, whereupon \<^verbatim>\<open>Serve\<close> returns \<^verbatim>\<open>ErrServerClosed\<close>, then closes idle
  connections and waits for active ones, but neither closes nor waits for hijacked ones. The QUIC server may
  stop at any time, and \<^verbatim>\<open>Close\<close> makes it stop.
\<close>

section \<open>Socket options\<close>

datatype sockopt_error = ControlError string | ReuseAddrError string | ReusePortError string

text \<open>
  \<open>control\<close>: the error of \<^verbatim>\<open>RawConn.Control\<close> before it runs the function; \<open>setopt\<close>: the error of \<^verbatim>\<open>setsockopt\<close> per
  option. The result is the error and the options that are set.
\<close>

definition setSocketOpts :: "string option \<Rightarrow> (string \<Rightarrow> string option) \<Rightarrow> sockopt_error option \<times> string list" where
  "setSocketOpts control setopt =
     (case control of
        Some e \<Rightarrow> (Some (ControlError e), [])
      | None \<Rightarrow>
          (case setopt ''SO_REUSEADDR'' of
             Some e \<Rightarrow> (Some (ReuseAddrError e), [])
           | None \<Rightarrow>
               (case setopt ''SO_REUSEPORT'' of
                  Some e \<Rightarrow> (Some (ReusePortError e), [''SO_REUSEADDR''])
                | None \<Rightarrow> (None, [''SO_REUSEADDR'', ''SO_REUSEPORT'']))))"

section \<open>The HTTP listener\<close>

datatype server_error = ErrServerClosed | ServerError string

text \<open>\<open>serveTLS\<close> and \<open>servePlain\<close>: what the two methods of \<^verbatim>\<open>http.Server\<close> return, never nil.\<close>

definition listener_Serve :: "bool \<Rightarrow> server_error \<Rightarrow> server_error \<Rightarrow> server_error option" where
  "listener_Serve tls serveTLS servePlain =
     (let err = (if tls then serveTLS else servePlain) in if err = ErrServerClosed then None else Some err)"

datatype serve_phase = Accepting | ServeReturned "server_error option"

datatype quic_phase = QuicServing nat | QuicClosed nat | QuicDone

datatype http_shutdown = NotAsked | ClosingQuic | StoppingServer | WaitingIdle | ShutdownReturned "string option"

record http_listener =
  hlTLS :: bool
  hlSocketOpen :: bool
  hlServe :: serve_phase
  hlDone :: bool
  hlIdle :: nat
  hlActive :: nat
  hlHijacked :: nat
  hlQuic :: "quic_phase option"
  hlCut :: nat
  hlShutdown :: http_shutdown

definition served_listener :: "'c listener \<Rightarrow> http_listener" where
  "served_listener l =
     \<lparr>hlTLS = (lnTLS l \<noteq> None), hlSocketOpen = True, hlServe = Accepting, hlDone = False, hlIdle = 0, hlActive = 0, hlHijacked = 0,
      hlQuic = (case lnHTTP3 l of None \<Rightarrow> None | Some _ \<Rightarrow> Some (QuicServing 0)), hlCut = 0, hlShutdown = NotAsked\<rparr>"

primrec quic_Close :: "quic_phase \<Rightarrow> quic_phase" where
  "quic_Close (QuicServing n) = QuicClosed n"
| "quic_Close (QuicClosed n) = QuicClosed n"
| "quic_Close QuicDone = QuicDone"

text \<open>
  Connections (idle, active, hijacked), QUIC streams, the \<^verbatim>\<open>Serve\<close> goroutine and \<^verbatim>\<open>Shutdown\<close>. A QUIC server that
  stops cuts the streams it still has.
\<close>

inductive http_step :: "http_listener \<Rightarrow> http_listener \<Rightarrow> bool" where
  connect: "\<lbrakk> hlServe l = Accepting; hlSocketOpen l \<rbrakk> \<Longrightarrow> http_step l (l\<lparr>hlIdle := hlIdle l + 1\<rparr>)"
| hang_up: "0 < hlIdle l \<Longrightarrow> http_step l (l\<lparr>hlIdle := hlIdle l - 1\<rparr>)"
| begin_request: "0 < hlIdle l \<Longrightarrow> http_step l (l\<lparr>hlIdle := hlIdle l - 1, hlActive := hlActive l + 1\<rparr>)"
| keep_alive: "0 < hlActive l \<Longrightarrow> http_step l (l\<lparr>hlActive := hlActive l - 1, hlIdle := hlIdle l + 1\<rparr>)"
| end_request: "0 < hlActive l \<Longrightarrow> http_step l (l\<lparr>hlActive := hlActive l - 1\<rparr>)"
| hijack: "0 < hlActive l \<Longrightarrow> http_step l (l\<lparr>hlActive := hlActive l - 1, hlHijacked := hlHijacked l + 1\<rparr>)"
| end_session: "0 < hlHijacked l \<Longrightarrow> http_step l (l\<lparr>hlHijacked := hlHijacked l - 1\<rparr>)"
| open_stream: "hlQuic l = Some (QuicServing n) \<Longrightarrow> http_step l (l\<lparr>hlQuic := Some (QuicServing (n + 1))\<rparr>)"
| end_stream: "hlQuic l = Some (QuicServing (Suc n)) \<Longrightarrow> http_step l (l\<lparr>hlQuic := Some (QuicServing n)\<rparr>)"
| finish_stream: "hlQuic l = Some (QuicClosed (Suc n)) \<Longrightarrow> http_step l (l\<lparr>hlQuic := Some (QuicClosed n)\<rparr>)"
| quic_exit: "hlQuic l \<in> {Some (QuicServing n), Some (QuicClosed n)} \<Longrightarrow> http_step l (l\<lparr>hlQuic := Some QuicDone, hlCut := hlCut l + n\<rparr>)"
| serve_returns: "\<lbrakk> hlServe l = Accepting; err = ErrServerClosed \<longleftrightarrow> \<not> hlSocketOpen l \<rbrakk> \<Longrightarrow>
    http_step l (l\<lparr>hlServe := ServeReturned (listener_Serve (hlTLS l) err err), hlDone := True\<rparr>)"
| ask: "hlShutdown l = NotAsked \<Longrightarrow>
    http_step l (l\<lparr>hlQuic := map_option quic_Close (hlQuic l),
      hlShutdown := (if hlQuic l = None then StoppingServer else ClosingQuic)\<rparr>)"
| quic_closed: "\<lbrakk> hlShutdown l = ClosingQuic; hlQuic l = Some QuicDone \<rbrakk> \<Longrightarrow> http_step l (l\<lparr>hlShutdown := StoppingServer\<rparr>)"
| stop_server: "hlShutdown l = StoppingServer \<Longrightarrow> http_step l (l\<lparr>hlSocketOpen := False, hlShutdown := WaitingIdle\<rparr>)"
| idle_closed: "\<lbrakk> hlShutdown l = WaitingIdle; hlIdle l = 0; hlActive l = 0 \<rbrakk> \<Longrightarrow> http_step l (l\<lparr>hlShutdown := ShutdownReturned None\<rparr>)"
| deadline_passed: "hlShutdown l = WaitingIdle \<Longrightarrow> http_step l (l\<lparr>hlShutdown := ShutdownReturned (Some e)\<rparr>)"

definition life :: "'c listener \<Rightarrow> http_listener \<Rightarrow> bool" where
  "life lr l \<longleftrightarrow> http_step\<^sup>*\<^sup>* (served_listener lr) l"

lemma life_step: "life lr l \<Longrightarrow> http_step l l' \<Longrightarrow> life lr l'"
  by (simp add: life_def)

lemma life_steps: "life lr l \<Longrightarrow> http_step\<^sup>*\<^sup>* l l' \<Longrightarrow> life lr l'"
  by (simp add: life_def)

text \<open>What ties the parts together.\<close>

definition coherent :: "http_listener \<Rightarrow> bool" where
  "coherent l \<longleftrightarrow>
     (hlSocketOpen l \<longleftrightarrow> hlShutdown l \<in> {NotAsked, ClosingQuic, StoppingServer}) \<and>
     (hlDone l \<longleftrightarrow> hlServe l \<noteq> Accepting) \<and>
     (hlServe l = ServeReturned None \<longrightarrow> \<not> hlSocketOpen l) \<and>
     (hlShutdown l = ShutdownReturned None \<longrightarrow> hlIdle l = 0 \<and> hlActive l = 0) \<and>
     (hlShutdown l \<notin> {NotAsked, ClosingQuic} \<longrightarrow> hlQuic l \<in> {None, Some QuicDone}) \<and>
     (hlShutdown l = ClosingQuic \<longrightarrow> hlQuic l \<noteq> None \<and> map_option quic_Close (hlQuic l) = hlQuic l)"

lemma quic_Close_idem [simp]: "quic_Close (quic_Close q) = quic_Close q"
  by (cases q) auto

lemma quic_Close_fixed: "quic_Close q = q \<longleftrightarrow> q = QuicDone \<or> (\<exists>n. q = QuicClosed n)"
  by (cases q) auto

lemma coherent_step: "http_step l l' \<Longrightarrow> coherent l \<Longrightarrow> coherent l'"
  by (induction rule: http_step.induct)
    (auto simp: coherent_def listener_Serve_def split: if_splits)

lemma life_coherent:
  assumes "life lr l"
  shows "coherent l"
  using assms unfolding life_def
proof (induction rule: rtranclp_induct)
  case base
  show ?case by (simp add: served_listener_def coherent_def)
next
  case (step y z)
  then show ?case by (blast intro: coherent_step)
qed

section \<open>The contract of a listener\<close>

text \<open>
  What the process relies on when it tells a listener to stop and waits for it: the order stands, a \<^verbatim>\<open>Serve\<close>
  that has returned does not come back, and a listener told to stop can always get to the end of \<^verbatim>\<open>Serve\<close>.
  \<open>group_step\<close>: one of several listeners takes a step.
\<close>

definition group_step :: "('s \<Rightarrow> 's \<Rightarrow> bool) \<Rightarrow> 's list \<Rightarrow> 's list \<Rightarrow> bool" where
  "group_step step ls ls' \<longleftrightarrow> (\<exists>i s. i < length ls \<and> step (ls ! i) s \<and> ls' = ls[i := s])"

lemma group_step_Cons: "group_step step ls ls' \<Longrightarrow> group_step step (l # ls) (l # ls')"
  unfolding group_step_def by (metis Suc_mono length_Cons list_update_code(3) nth_Cons_Suc)

lemma group_step_head: "step l l' \<Longrightarrow> group_step step (l # ls) (l' # ls)"
  unfolding group_step_def by (rule exI [of _ 0]) auto

lemma group_steps_Cons:
  assumes "step\<^sup>*\<^sup>* l l'" and "(group_step step)\<^sup>*\<^sup>* ls ls'"
  shows "(group_step step)\<^sup>*\<^sup>* (l # ls) (l' # ls')"
proof -
  have "(group_step step)\<^sup>*\<^sup>* (l # ls) (l' # ls)"
    using assms(1) by (induction rule: rtranclp_induct) (auto dest: group_step_head [of step] intro: rtranclp.rtrancl_into_rtrancl)
  moreover have "(group_step step)\<^sup>*\<^sup>* (l' # ls) (l' # ls')"
    using assms(2) by (induction rule: rtranclp_induct) (auto dest: group_step_Cons intro: rtranclp.rtrancl_into_rtrancl)
  ultimately show ?thesis by (rule rtranclp_trans)
qed

locale drainable =
  fixes step :: "'s \<Rightarrow> 's \<Rightarrow> bool"
    and live :: "'s \<Rightarrow> bool"
    and told :: "'s \<Rightarrow> bool"
    and serving :: "'s \<Rightarrow> bool"
  assumes live_step: "live s \<Longrightarrow> step s s' \<Longrightarrow> live s'"
    and told_step: "told s \<Longrightarrow> step s s' \<Longrightarrow> told s'"
    and ended_step: "\<not> serving s \<Longrightarrow> step s s' \<Longrightarrow> \<not> serving s'"
    and can_end: "live s \<Longrightarrow> told s \<Longrightarrow> \<exists>s'. step\<^sup>*\<^sup>* s s' \<and> \<not> serving s'"
begin

lemma group_kept:
  assumes "(group_step step)\<^sup>*\<^sup>* ls ls'" and "\<forall>l \<in> set ls. live l \<and> told l"
  shows "length ls' = length ls \<and> (\<forall>l \<in> set ls'. live l \<and> told l) \<and> (\<forall>i < length ls. \<not> serving (ls ! i) \<longrightarrow> \<not> serving (ls' ! i))"
  using assms
proof (induction rule: rtranclp_induct)
  case (step y z)
  then obtain i s where i: "i < length y" "step (y ! i) s" "z = y[i := s]" by (auto simp: group_step_def)
  note ih = step.IH [OF step.prems]
  have "live (y ! i)" "told (y ! i)" using ih i(1) by auto
  then have "live s" "told s" using i(2) live_step told_step by blast+
  then have "\<forall>l \<in> set z. live l \<and> told l" using ih i(3) set_update_subset_insert [of y i s] by blast
  moreover have "\<not> serving (z ! j)" if "j < length ls" "\<not> serving (ls ! j)" for j
    using ih that i ended_step [OF _ i(2)] by (cases "j = i") auto
  ultimately show ?case using ih i(3) by simp
qed simp

lemma group_can_end:
  assumes "\<forall>l \<in> set ls. live l \<and> told l"
  shows "\<exists>ls'. (group_step step)\<^sup>*\<^sup>* ls ls' \<and> (\<forall>l \<in> set ls'. \<not> serving l)"
  using assms
proof (induction ls)
  case (Cons l ls)
  then obtain l' ls' where "step\<^sup>*\<^sup>* l l'" "\<not> serving l'" "(group_step step)\<^sup>*\<^sup>* ls ls'" "\<forall>l \<in> set ls'. \<not> serving l"
    using can_end [of l] by auto
  then show ?case using group_steps_Cons [of step l l' ls ls'] by (metis set_ConsD)
qed auto

lemma group_drains:
  assumes "\<forall>l \<in> set ls. live l \<and> told l" and "(group_step step)\<^sup>*\<^sup>* ls ls'"
  shows "\<exists>ls''. (group_step step)\<^sup>*\<^sup>* ls' ls'' \<and> (\<forall>l \<in> set ls''. \<not> serving l) \<and>
    (\<forall>ls3. (group_step step)\<^sup>*\<^sup>* ls'' ls3 \<longrightarrow> (\<forall>l \<in> set ls3. \<not> serving l))"
proof -
  have k: "\<forall>l \<in> set ls'. live l \<and> told l" using group_kept [OF assms(2,1)] by simp
  then obtain ls'' where e: "(group_step step)\<^sup>*\<^sup>* ls' ls''" "\<forall>l \<in> set ls''. \<not> serving l" using group_can_end by blast
  have k2: "\<forall>l \<in> set ls''. live l \<and> told l" using group_kept [OF e(1) k] by simp
  have "\<forall>l \<in> set ls3. \<not> serving l" if "(group_step step)\<^sup>*\<^sup>* ls'' ls3" for ls3
    using group_kept [OF that k2] e(2) by (metis in_set_conv_nth)
  with e show ?thesis by blast
qed

end

text \<open>The TCP listener: it is told when the stop flag is set.\<close>

lemma tcp_can_end:
  assumes "llStopping l"
  shows "\<exists>l'. l4_step\<^sup>*\<^sup>* l l' \<and> \<not> llServing l'"
proof (cases "llServing l")
  case True
  define l1 where "l1 = (if llInHand l then l\<lparr>llInHand := False, llConns := llConns l + 1\<rparr> else l)"
  have "l4_step\<^sup>*\<^sup>* l l1" using register [of l] by (auto simp: l1_def)
  moreover have "l4_step l1 (l1\<lparr>llServing := False\<rparr>)" by (rule accept_exit) (use True assms in \<open>auto simp: l1_def\<close>)
  ultimately show ?thesis by (metis l4_listener.select_convs(3) l4_listener.surjective l4_listener.update_convs(3) rtranclp.rtrancl_into_rtrancl)
qed blast

interpretation tcp_drain: drainable l4_step "\<lambda>_. True" llStopping llServing
proof unfold_locales
  show "llStopping s \<Longrightarrow> l4_step s s' \<Longrightarrow> llStopping s'" for s s' by (auto simp: l4_step_simps)
  show "\<not> llServing s \<Longrightarrow> l4_step s s' \<Longrightarrow> \<not> llServing s'" for s s' by (auto simp: l4_step_simps)
  show "llStopping s \<Longrightarrow> \<exists>s'. l4_step\<^sup>*\<^sup>* s s' \<and> \<not> llServing s'" for s by (rule tcp_can_end)
qed simp

text \<open>The HTTP listener: it is told when \<^verbatim>\<open>Shutdown\<close> has been called.\<close>

lemma http_closes:
  assumes "coherent l" and "hlShutdown l \<noteq> NotAsked"
  shows "\<exists>l'. http_step\<^sup>*\<^sup>* l l' \<and> \<not> hlSocketOpen l'"
proof -
  have stop: "\<exists>l'. http_step\<^sup>*\<^sup>* l1 l' \<and> \<not> hlSocketOpen l'" if "hlShutdown l1 = StoppingServer" for l1
    by (rule exI [of _ "l1\<lparr>hlSocketOpen := False, hlShutdown := WaitingIdle\<rparr>"]) (use stop_server [OF that] in auto)
  have quic: "\<exists>l'. http_step\<^sup>*\<^sup>* l1 l' \<and> \<not> hlSocketOpen l'" if "hlShutdown l1 = ClosingQuic" "hlQuic l1 = Some QuicDone" for l1
    using quic_closed [OF that] stop [of "l1\<lparr>hlShutdown := StoppingServer\<rparr>"] by (auto intro: converse_rtranclp_into_rtranclp)
  show ?thesis
  proof (cases "hlShutdown l")
    case ClosingQuic
    then consider "hlQuic l = Some QuicDone" | n where "hlQuic l = Some (QuicClosed n)"
      using assms(1) by (auto simp: coherent_def quic_Close_fixed)
    then show ?thesis
    proof cases
      case 1
      then show ?thesis by (rule quic [OF ClosingQuic])
    next
      case (2 n)
      have "http_step l (l\<lparr>hlQuic := Some QuicDone, hlCut := hlCut l + n\<rparr>)" by (rule quic_exit) (simp add: 2)
      then show ?thesis using quic [of "l\<lparr>hlQuic := Some QuicDone, hlCut := hlCut l + n\<rparr>"] ClosingQuic
        by (auto intro: converse_rtranclp_into_rtranclp)
    qed
  next
    case StoppingServer
    then show ?thesis by (rule stop)
  qed (use assms in \<open>auto simp: coherent_def\<close>)
qed

lemma http_can_end:
  assumes "coherent l" and "hlShutdown l \<noteq> NotAsked"
  shows "\<exists>l'. http_step\<^sup>*\<^sup>* l l' \<and> hlServe l' \<noteq> Accepting"
proof -
  obtain l' where l': "http_step\<^sup>*\<^sup>* l l'" "\<not> hlSocketOpen l'" using http_closes [OF assms] by blast
  show ?thesis
  proof (cases "hlServe l' = Accepting")
    case True
    from serve_returns [OF this, of ErrServerClosed] l' show ?thesis
      by (intro exI [of _ "l'\<lparr>hlServe := ServeReturned (listener_Serve (hlTLS l') ErrServerClosed ErrServerClosed), hlDone := True\<rparr>"])
        (auto intro: rtranclp.rtrancl_into_rtrancl)
  qed (use l' in blast)
qed

interpretation http_drain: drainable http_step coherent "\<lambda>l. hlShutdown l \<noteq> NotAsked" "\<lambda>l. hlServe l = Accepting"
proof unfold_locales
  show "coherent s \<Longrightarrow> http_step s s' \<Longrightarrow> coherent s'" for s s' by (rule coherent_step)
  show "hlShutdown s \<noteq> NotAsked \<Longrightarrow> http_step s s' \<Longrightarrow> hlShutdown s' \<noteq> NotAsked" for s s' by (erule http_step.cases) auto
  show "hlServe s \<noteq> Accepting \<Longrightarrow> http_step s s' \<Longrightarrow> hlServe s' \<noteq> Accepting" for s s' by (erule http_step.cases) auto
  show "coherent s \<Longrightarrow> hlShutdown s \<noteq> NotAsked \<Longrightarrow> \<exists>s'. http_step\<^sup>*\<^sup>* s s' \<and> hlServe s' \<noteq> Accepting" for s by (rule http_can_end)
qed

section \<open>Properties\<close>

text \<open>The listening socket is closed and no connection is left.\<close>

definition quiet :: "http_listener \<Rightarrow> bool" where
  "quiet l \<longleftrightarrow> \<not> hlSocketOpen l \<and> hlIdle l = 0 \<and> hlActive l = 0 \<and> hlQuic l \<in> {None, Some QuicDone} \<and> hlShutdown l = ShutdownReturned None"

lemma quiet_steps: "http_step\<^sup>*\<^sup>* l l' \<Longrightarrow> quiet l \<Longrightarrow> quiet l' \<and> hlHijacked l' \<le> hlHijacked l"
proof (induction rule: rtranclp_induct)
  case (step y z)
  from step.hyps(2) step.IH [OF step.prems] show ?case by (cases rule: http_step.cases) (auto simp: quiet_def)
qed simp

text \<open>
  Draining an HTTP listener: at any time in its life, \<^verbatim>\<open>Done\<close> is closed exactly if \<^verbatim>\<open>Serve\<close> has returned, and \<^verbatim>\<open>Serve\<close>
  returns nil only after \<^verbatim>\<open>Shutdown\<close> has closed the socket. Once \<^verbatim>\<open>Shutdown\<close> has returned without error, the socket
  is closed, QUIC is over, no connection is idle or active, and it stays so in every interleaving: no
  request begins, and no new session is hijacked.
\<close>

theorem http_drain_is_final:
  assumes "life lr l"
  shows "(hlDone l \<longleftrightarrow> hlServe l \<noteq> Accepting) \<and> (hlServe l = ServeReturned None \<longrightarrow> \<not> hlSocketOpen l) \<and>
    (hlShutdown l = ShutdownReturned None \<longrightarrow>
      (\<forall>l'. http_step\<^sup>*\<^sup>* l l' \<longrightarrow> \<not> hlSocketOpen l' \<and> hlIdle l' = 0 \<and> hlActive l' = 0 \<and> hlQuic l' \<in> {None, Some QuicDone} \<and>
         hlHijacked l' \<le> hlHijacked l))"
proof -
  have c: "coherent l" using life_coherent [OF assms] .
  have "\<not> hlSocketOpen l' \<and> hlIdle l' = 0 \<and> hlActive l' = 0 \<and> hlQuic l' \<in> {None, Some QuicDone} \<and> hlHijacked l' \<le> hlHijacked l"
    if "hlShutdown l = ShutdownReturned None" "http_step\<^sup>*\<^sup>* l l'" for l'
  proof -
    have "quiet l" using c that(1) by (simp add: coherent_def quiet_def)
    from quiet_steps [OF that(2) this] show ?thesis by (simp add: quiet_def)
  qed
  with c show ?thesis unfolding coherent_def by blast
qed

definition plain_listener :: "unit listener" where
  "plain_listener = \<lparr>lnName = ''web'', lnHandler = (\<lambda>_ _ w. (\<lparr>rnCalls = [], rnEnding = Returned, rnChosen = None, rnErr = None\<rparr>, w)),
     lnTimeouts = withTimeoutDefaults \<lparr>ltReadHeader = 0, ltRead = 0, ltWrite = 0, ltIdle = 0, ltMaxHeaderBytes = 0\<rparr>,
     lnMaxHeaderBytes = None, lnTLS = None, lnHTTP3 = None\<rparr>"

text \<open>A plain listener after one WebSocket upgrade, asked to stop, and after that shutdown.\<close>

definition upgraded :: http_listener where
  "upgraded = (served_listener plain_listener)\<lparr>hlHijacked := 1\<rparr>"

definition asked :: http_listener where
  "asked = upgraded\<lparr>hlShutdown := StoppingServer\<rparr>"

definition drained_web :: http_listener where
  "drained_web = upgraded\<lparr>hlSocketOpen := False, hlShutdown := ShutdownReturned None\<rparr>"

lemmas sample_life = served_listener_def plain_listener_def upgraded_def asked_def drained_web_def

lemma life_upgraded: "life plain_listener upgraded"
proof -
  let ?l = "served_listener plain_listener"
  have "life plain_listener (?l\<lparr>hlIdle := 1\<rparr>)" by (rule life_step [of _ ?l]) (use connect [of ?l] in \<open>simp_all add: life_def sample_life\<close>)
  then have "life plain_listener (?l\<lparr>hlActive := 1\<rparr>)"
    by (rule life_step) (use begin_request [of "?l\<lparr>hlIdle := 1\<rparr>"] in \<open>simp add: sample_life\<close>)
  then show ?thesis by (rule life_step) (use hijack [of "?l\<lparr>hlActive := 1\<rparr>"] in \<open>simp add: sample_life\<close>)
qed

lemma life_asked: "life plain_listener asked"
  by (rule life_step [OF life_upgraded]) (use ask [of upgraded] in \<open>simp add: sample_life\<close>)

lemma life_drained: "life plain_listener drained_web"
proof -
  let ?l = "upgraded\<lparr>hlSocketOpen := False, hlShutdown := WaitingIdle\<rparr>"
  have "http_step asked ?l" using stop_server [of asked] by (simp add: sample_life)
  moreover have "http_step ?l drained_web" using idle_closed [of ?l] by (simp add: sample_life)
  ultimately show ?thesis using life_asked by (blast intro: life_step)
qed

theorem http_drain_is_final_witness:
  "life plain_listener drained_web \<and> hlShutdown drained_web = ShutdownReturned None \<and> hlIdle drained_web = 0 \<and> \<not> hlSocketOpen drained_web"
  using http_drain_is_final [OF life_drained] life_drained by (simp add: drained_web_def)

text \<open>
  What the drain does not cover: \<^verbatim>\<open>Shutdown\<close> of a listener can return without error while a WebSocket session is
  open, and the process, which then ends, cuts it.
\<close>

theorem http_drain_leaves_sessions:
  "\<exists>l. life plain_listener l \<and> hlShutdown l = ShutdownReturned None \<and> 0 < hlHijacked l"
  using life_drained by (auto simp: drained_web_def upgraded_def)



end
