(* ===== verification/Hedge.thy ===== *)
theory Hedge
  imports Retry StepProgress
begin

text \<open>
  Hedging, \<^verbatim>\<open>serveHedged\<close> of \<^verbatim>\<open>internal/middleware/retry.go\<close>, as the concurrent program it is: the goroutine of
  the primary attempt, the timer, the goroutine of the hedge, a channel of capacity one for each result,
  the two cancellable contexts, and the two \<^verbatim>\<open>select\<close> statements of the handler, which choose freely between
  the cases that are ready. \<open>serveHedged\<close> of the theory \<open>Retry\<close> is what such runs amount to.
\<close>

section \<open>Goroutines, channels, contexts\<close>

text \<open>A goroutine and its channel: not started, started, result in the channel, result received.\<close>

datatype goroutine = NotSpawned | Spawned | Sent attempt_result | Drained

datatype hedge_pc = AwaitPrimary | AwaitEither | AwaitLoser (hedge_won: bool) (winner: attempt_result) | Flushed "wcall list"

record hedge_run =
  hrPC :: hedge_pc
  hrTimer :: bool
  hrPrimary :: goroutine
  hrHedge :: goroutine
  hrPrimaryCancelled :: bool
  hrHedgeCancelled :: bool
  hrWorld :: world

definition hedge_start :: "world \<Rightarrow> hedge_run" where
  "hedge_start w = \<lparr>hrPC = AwaitPrimary, hrTimer = False, hrPrimary = Spawned, hrHedge = NotSpawned,
     hrPrimaryCancelled = False, hrHedgeCancelled = False, hrWorld = w\<rparr>"

definition primary_attempt :: "handler \<Rightarrow> reqctx \<Rightarrow> http_request \<Rightarrow> string option \<Rightarrow> bool \<Rightarrow> world \<Rightarrow> attempt_result \<times> world" where
  "primary_attempt nxt ctx req buf cancelled = dispatch nxt (ctx\<lparr>cCancelled := cCancelled ctx \<or> cancelled\<rparr>) req 1 [] False buf"

definition hedge_attempt :: "handler \<Rightarrow> reqctx \<Rightarrow> http_request \<Rightarrow> string option \<Rightarrow> bool \<Rightarrow> world \<Rightarrow> attempt_result \<times> world" where
  "hedge_attempt nxt ctx req buf cancelled = dispatch nxt (ctx\<lparr>cCancelled := cCancelled ctx \<or> cancelled\<rparr>) req 2 [] True buf"

text \<open>Returning runs the deferred calls: both contexts are cancelled.\<close>

inductive hedge_step :: "handler \<Rightarrow> reqctx \<Rightarrow> http_request \<Rightarrow> string option \<Rightarrow> hedge_run \<Rightarrow> hedge_run \<Rightarrow> bool"
  for nxt ctx req buf where
  primary_runs: "\<lbrakk> hrPrimary s = Spawned; primary_attempt nxt ctx req buf (hrPrimaryCancelled s) (hrWorld s) = (res, w) \<rbrakk> \<Longrightarrow>
    hedge_step nxt ctx req buf s (s\<lparr>hrPrimary := Sent res, hrWorld := w\<rparr>)"
| hedge_runs: "\<lbrakk> hrHedge s = Spawned; hedge_attempt nxt ctx req buf (hrHedgeCancelled s) (hrWorld s) = (res, w) \<rbrakk> \<Longrightarrow>
    hedge_step nxt ctx req buf s (s\<lparr>hrHedge := Sent res, hrWorld := w\<rparr>)"
| timer_fires: "\<lbrakk> hrPC s = AwaitPrimary; \<not> hrTimer s \<rbrakk> \<Longrightarrow> hedge_step nxt ctx req buf s (s\<lparr>hrTimer := True\<rparr>)"
| in_time: "\<lbrakk> hrPC s = AwaitPrimary; hrPrimary s = Sent res \<rbrakk> \<Longrightarrow>
    hedge_step nxt ctx req buf s (s\<lparr>hrPC := Flushed (flushTo (arRec res)), hrPrimary := Drained, hrPrimaryCancelled := True\<rparr>)"
| fire_hedge: "\<lbrakk> hrPC s = AwaitPrimary; hrTimer s \<rbrakk> \<Longrightarrow> hedge_step nxt ctx req buf s (s\<lparr>hrPC := AwaitEither, hrHedge := Spawned\<rparr>)"
| primary_received: "\<lbrakk> hrPC s = AwaitEither; hrPrimary s = Sent res \<rbrakk> \<Longrightarrow>
    hedge_step nxt ctx req buf s (s\<lparr>hrPC := AwaitLoser False res, hrPrimary := Drained, hrHedgeCancelled := True\<rparr>)"
| hedge_received: "\<lbrakk> hrPC s = AwaitEither; hrHedge s = Sent res \<rbrakk> \<Longrightarrow>
    hedge_step nxt ctx req buf s (s\<lparr>hrPC := AwaitLoser True res, hrHedge := Drained, hrPrimaryCancelled := True\<rparr>)"
| hedge_drained: "\<lbrakk> hrPC s = AwaitLoser False res; hrHedge s = Sent r \<rbrakk> \<Longrightarrow>
    hedge_step nxt ctx req buf s (s\<lparr>hrPC := Flushed (flushTo (arRec res)), hrHedge := Drained, hrPrimaryCancelled := True\<rparr>)"
| primary_drained: "\<lbrakk> hrPC s = AwaitLoser True res; hrPrimary s = Sent r \<rbrakk> \<Longrightarrow>
    hedge_step nxt ctx req buf s (s\<lparr>hrPC := Flushed (flushTo (arRec res)), hrPrimary := Drained, hrHedgeCancelled := True\<rparr>)"

section \<open>What is reachable\<close>

text \<open>The two attempts in one order or the other, the second with its context cancelled or not.\<close>

definition both_ran ::
  "handler \<Rightarrow> reqctx \<Rightarrow> http_request \<Rightarrow> string option \<Rightarrow> world \<Rightarrow> bool \<Rightarrow> bool \<Rightarrow> attempt_result \<Rightarrow> attempt_result \<Rightarrow> world \<Rightarrow> bool" where
  "both_ran nxt ctx req buf w pcut hcut p h w2 \<longleftrightarrow>
     (\<exists>w1. primary_attempt nxt ctx req buf False w = (p, w1) \<and> hedge_attempt nxt ctx req buf hcut w1 = (h, w2)) \<or>
     (\<exists>w1. hedge_attempt nxt ctx req buf False w = (h, w1) \<and> primary_attempt nxt ctx req buf pcut w1 = (p, w2))"

definition hedge_inv :: "handler \<Rightarrow> reqctx \<Rightarrow> http_request \<Rightarrow> string option \<Rightarrow> world \<Rightarrow> hedge_run \<Rightarrow> bool" where
  "hedge_inv nxt ctx req buf w s \<longleftrightarrow>
     (case hrPC s of
        AwaitPrimary \<Rightarrow>
          hrHedge s = NotSpawned \<and> \<not> hrPrimaryCancelled s \<and> \<not> hrHedgeCancelled s \<and>
          (hrPrimary s = Spawned \<and> hrWorld s = w \<or> (\<exists>p. hrPrimary s = Sent p \<and> primary_attempt nxt ctx req buf False w = (p, hrWorld s)))
      | AwaitEither \<Rightarrow>
          \<not> hrPrimaryCancelled s \<and> \<not> hrHedgeCancelled s \<and>
          (hrPrimary s = Spawned \<and> hrHedge s = Spawned \<and> hrWorld s = w \<or>
           (\<exists>p. hrPrimary s = Sent p \<and> hrHedge s = Spawned \<and> primary_attempt nxt ctx req buf False w = (p, hrWorld s)) \<or>
           (\<exists>h. hrPrimary s = Spawned \<and> hrHedge s = Sent h \<and> hedge_attempt nxt ctx req buf False w = (h, hrWorld s)) \<or>
           (\<exists>p h. hrPrimary s = Sent p \<and> hrHedge s = Sent h \<and> both_ran nxt ctx req buf w False False p h (hrWorld s)))
      | AwaitLoser won res \<Rightarrow>
          (if won
           then hrHedge s = Drained \<and> hrPrimaryCancelled s \<and>
             (hrPrimary s = Spawned \<and> hedge_attempt nxt ctx req buf False w = (res, hrWorld s) \<or>
              (\<exists>p early. hrPrimary s = Sent p \<and> both_ran nxt ctx req buf w early False p res (hrWorld s)))
           else hrPrimary s = Drained \<and> hrHedgeCancelled s \<and>
             (hrHedge s = Spawned \<and> primary_attempt nxt ctx req buf False w = (res, hrWorld s) \<or>
              (\<exists>h early. hrHedge s = Sent h \<and> both_ran nxt ctx req buf w False early res h (hrWorld s))))
      | Flushed calls \<Rightarrow>
          hrPrimary s = Drained \<and> hrPrimaryCancelled s \<and> (hrHedge s = NotSpawned \<or> hrHedge s = Drained \<and> hrHedgeCancelled s) \<and>
          (\<exists>sched. serveHedged sched nxt ctx req buf w = (calls, hrWorld s)))"

lemma attempt_uncancelled:
  "dispatch nxt ctx req 1 [] False buf = primary_attempt nxt ctx req buf False"
  "dispatch nxt ctx req 2 [] True buf = hedge_attempt nxt ctx req buf False"
  by (simp_all add: primary_attempt_def hedge_attempt_def)

lemma serveHedged_eq:
  "serveHedged sched nxt ctx req buf w =
     (case sched of
        PrimaryInTime \<Rightarrow> let (p, w1) = primary_attempt nxt ctx req buf False w in (flushTo (arRec p), w1)
      | Race True wins early \<Rightarrow>
          let (h, w1) = hedge_attempt nxt ctx req buf False w; (p, w2) = primary_attempt nxt ctx req buf (wins \<and> early) w1
          in (flushTo (arRec (if wins then h else p)), w2)
      | Race False wins early \<Rightarrow>
          let (p, w1) = primary_attempt nxt ctx req buf False w; (h, w2) = hedge_attempt nxt ctx req buf (\<not> wins \<and> early) w1
          in (flushTo (arRec (if wins then h else p)), w2))"
  unfolding serveHedged_def attempt_uncancelled
  by (simp add: primary_attempt_def hedge_attempt_def Let_def case_prod_beta split: hedge_schedule.split)

lemma both_ran_hedge_wins:
  assumes "both_ran nxt ctx req buf w early False p h w2"
  shows "\<exists>sched. serveHedged sched nxt ctx req buf w = (flushTo (arRec h), w2)"
proof -
  from assms have "serveHedged (Race True True early) nxt ctx req buf w = (flushTo (arRec h), w2) \<or>
    serveHedged (Race False True False) nxt ctx req buf w = (flushTo (arRec h), w2)"
    by (auto simp: both_ran_def serveHedged_eq)
  then show ?thesis by blast
qed

lemma both_ran_primary_wins:
  assumes "both_ran nxt ctx req buf w False early p h w2"
  shows "\<exists>sched. serveHedged sched nxt ctx req buf w = (flushTo (arRec p), w2)"
proof -
  from assms have "serveHedged (Race False False early) nxt ctx req buf w = (flushTo (arRec p), w2) \<or>
    serveHedged (Race True False False) nxt ctx req buf w = (flushTo (arRec p), w2)"
    by (auto simp: both_ran_def serveHedged_eq)
  then show ?thesis by blast
qed

lemma primary_in_time:
  assumes "primary_attempt nxt ctx req buf False w = (p, w1)"
  shows "\<exists>sched. serveHedged sched nxt ctx req buf w = (flushTo (arRec p), w1)"
  by (rule exI [of _ PrimaryInTime]) (simp add: serveHedged_eq assms)

lemma hedge_inv_step: "hedge_step nxt ctx req buf s s' \<Longrightarrow> hedge_inv nxt ctx req buf w s \<Longrightarrow> hedge_inv nxt ctx req buf w s'"
proof (induction rule: hedge_step.induct)
  case (primary_runs s res w')
  then show ?case by (cases "hrPC s") (auto simp: hedge_inv_def both_ran_def split: if_splits)
next
  case (hedge_runs s res w')
  then show ?case by (cases "hrPC s") (auto simp: hedge_inv_def both_ran_def split: if_splits)
next
  case (in_time s res)
  then show ?case by (auto simp: hedge_inv_def intro: primary_in_time)
next
  case (hedge_drained s res r)
  then show ?case by (auto simp: hedge_inv_def intro: both_ran_primary_wins)
next
  case (primary_drained s res r)
  then show ?case by (auto simp: hedge_inv_def intro: both_ran_hedge_wins)
next
  case (primary_received s res)
  then show ?case by (auto simp: hedge_inv_def)
next
  case (hedge_received s res)
  then show ?case by (auto simp: hedge_inv_def)
qed (auto simp: hedge_inv_def)

section \<open>Every schedule has a run\<close>

text \<open>Chaining single steps; the states of a run are written out.\<close>

lemma into_run: "hedge_step nxt ctx req buf s s1 \<Longrightarrow> (hedge_step nxt ctx req buf)\<^sup>*\<^sup>* s1 s2 \<Longrightarrow> (hedge_step nxt ctx req buf)\<^sup>*\<^sup>* s s2"
  by (rule converse_rtranclp_into_rtranclp)

definition hedged_start :: "world \<Rightarrow> hedge_run" where
  "hedged_start w = (hedge_start w)\<lparr>hrTimer := True, hrPC := AwaitEither, hrHedge := Spawned\<rparr>"

lemma hedge_fired: "(hedge_step nxt ctx req buf)\<^sup>*\<^sup>* (hedge_start w) (hedged_start w)"
proof -
  have "hedge_step nxt ctx req buf (hedge_start w) ((hedge_start w)\<lparr>hrTimer := True\<rparr>)"
    by (rule timer_fires) (simp_all add: hedge_start_def)
  moreover have "hedge_step nxt ctx req buf ((hedge_start w)\<lparr>hrTimer := True\<rparr>) (hedged_start w)"
    unfolding hedged_start_def by (rule fire_hedge) (simp_all add: hedge_start_def)
  ultimately show ?thesis by (blast intro: into_run)
qed

definition answers :: "handler \<Rightarrow> reqctx \<Rightarrow> http_request \<Rightarrow> string option \<Rightarrow> hedge_run \<Rightarrow> wcall list \<Rightarrow> world \<Rightarrow> bool" where
  "answers nxt ctx req buf s calls w \<longleftrightarrow> (\<exists>t. (hedge_step nxt ctx req buf)\<^sup>*\<^sup>* s t \<and> hrPC t = Flushed calls \<and> hrWorld t = w)"

lemma answers_step: "hedge_step nxt ctx req buf s s1 \<Longrightarrow> answers nxt ctx req buf s1 calls w \<Longrightarrow> answers nxt ctx req buf s calls w"
  unfolding answers_def by (blast intro: into_run)

lemma answers_steps: "(hedge_step nxt ctx req buf)\<^sup>*\<^sup>* s s1 \<Longrightarrow> answers nxt ctx req buf s1 calls w \<Longrightarrow> answers nxt ctx req buf s calls w"
  unfolding answers_def by (blast intro: rtranclp_trans)

lemma answers_flushed: "hrPC s = Flushed calls \<Longrightarrow> answers nxt ctx req buf s calls (hrWorld s)"
  unfolding answers_def by blast

lemma answers_loser:
  assumes "hrPC s = AwaitLoser won res" and "(if won then hrPrimary s else hrHedge s) = Sent r"
  shows "answers nxt ctx req buf s (flushTo (arRec res)) (hrWorld s)"
proof (cases won)
  case True
  from answers_step [OF primary_drained answers_flushed] assms True show ?thesis by force
next
  case False
  from answers_step [OF hedge_drained answers_flushed] assms False show ?thesis by force
qed

lemma answers_either:
  assumes "hrPC s = AwaitEither" and "hrPrimary s = Sent p" and "hrHedge s = Sent h"
  shows "answers nxt ctx req buf s (flushTo (arRec (if won then h else p))) (hrWorld s)"
proof (cases won)
  case True
  let ?s = "s\<lparr>hrPC := AwaitLoser True h, hrHedge := Drained, hrPrimaryCancelled := True\<rparr>"
  have "answers nxt ctx req buf ?s (flushTo (arRec h)) (hrWorld ?s)" by (rule answers_loser [where won = True and r = p]) (simp_all add: assms)
  with answers_step [OF hedge_received [OF assms(1,3)]] True show ?thesis by simp
next
  case False
  let ?s = "s\<lparr>hrPC := AwaitLoser False p, hrPrimary := Drained, hrHedgeCancelled := True\<rparr>"
  have "answers nxt ctx req buf ?s (flushTo (arRec p)) (hrWorld ?s)" by (rule answers_loser [where won = False and r = h]) (simp_all add: assms)
  with answers_step [OF primary_received [OF assms(1,2)]] False show ?thesis by simp
qed

lemma race_primary_first:
  assumes "primary_attempt nxt ctx req buf False w = (p, w1)" and "hedge_attempt nxt ctx req buf (\<not> wins \<and> early) w1 = (h, w2)"
  shows "answers nxt ctx req buf (hedged_start w) (flushTo (arRec (if wins then h else p))) w2"
proof -
  let ?s1 = "(hedged_start w)\<lparr>hrPrimary := Sent p, hrWorld := w1\<rparr>"
  have s1: "hedge_step nxt ctx req buf (hedged_start w) ?s1"
    by (rule primary_runs) (simp_all add: hedged_start_def hedge_start_def assms)
  show ?thesis
  proof (cases "\<not> wins \<and> early")
    case True
    let ?s2 = "?s1\<lparr>hrPC := AwaitLoser False p, hrPrimary := Drained, hrHedgeCancelled := True\<rparr>"
    have s2: "hedge_step nxt ctx req buf ?s1 ?s2" by (rule primary_received) (simp_all add: hedged_start_def)
    have s3: "hedge_step nxt ctx req buf ?s2 (?s2\<lparr>hrHedge := Sent h, hrWorld := w2\<rparr>)"
      by (rule hedge_runs) (use assms(2) True in \<open>simp_all add: hedged_start_def\<close>)
    have "answers nxt ctx req buf (?s2\<lparr>hrHedge := Sent h, hrWorld := w2\<rparr>) (flushTo (arRec p)) w2"
      using answers_loser [of "?s2\<lparr>hrHedge := Sent h, hrWorld := w2\<rparr>" False p h nxt ctx req buf] by simp
    from answers_step [OF s1 answers_step [OF s2 answers_step [OF s3 this]]] True show ?thesis by simp
  next
    case False
    have s2: "hedge_step nxt ctx req buf ?s1 (?s1\<lparr>hrHedge := Sent h, hrWorld := w2\<rparr>)"
      by (rule hedge_runs) (use assms(2) False in \<open>auto simp: hedged_start_def hedge_start_def\<close>)
    have "answers nxt ctx req buf (?s1\<lparr>hrHedge := Sent h, hrWorld := w2\<rparr>) (flushTo (arRec (if wins then h else p))) w2"
      using answers_either [of "?s1\<lparr>hrHedge := Sent h, hrWorld := w2\<rparr>" p h nxt ctx req buf wins] by (simp add: hedged_start_def)
    with s1 s2 show ?thesis by (blast intro: answers_step)
  qed
qed

lemma race_hedge_first:
  assumes "hedge_attempt nxt ctx req buf False w = (h, w1)" and "primary_attempt nxt ctx req buf (wins \<and> early) w1 = (p, w2)"
  shows "answers nxt ctx req buf (hedged_start w) (flushTo (arRec (if wins then h else p))) w2"
proof -
  let ?s1 = "(hedged_start w)\<lparr>hrHedge := Sent h, hrWorld := w1\<rparr>"
  have s1: "hedge_step nxt ctx req buf (hedged_start w) ?s1"
    by (rule hedge_runs) (simp_all add: hedged_start_def hedge_start_def assms)
  show ?thesis
  proof (cases "wins \<and> early")
    case True
    let ?s2 = "?s1\<lparr>hrPC := AwaitLoser True h, hrHedge := Drained, hrPrimaryCancelled := True\<rparr>"
    have s2: "hedge_step nxt ctx req buf ?s1 ?s2" by (rule hedge_received) (simp_all add: hedged_start_def)
    have s3: "hedge_step nxt ctx req buf ?s2 (?s2\<lparr>hrPrimary := Sent p, hrWorld := w2\<rparr>)"
      by (rule primary_runs) (use assms(2) True in \<open>simp_all add: hedged_start_def hedge_start_def\<close>)
    have "answers nxt ctx req buf (?s2\<lparr>hrPrimary := Sent p, hrWorld := w2\<rparr>) (flushTo (arRec h)) w2"
      using answers_loser [of "?s2\<lparr>hrPrimary := Sent p, hrWorld := w2\<rparr>" True h p nxt ctx req buf] by simp
    from answers_step [OF s1 answers_step [OF s2 answers_step [OF s3 this]]] True show ?thesis by simp
  next
    case False
    have s2: "hedge_step nxt ctx req buf ?s1 (?s1\<lparr>hrPrimary := Sent p, hrWorld := w2\<rparr>)"
      by (rule primary_runs) (use assms(2) False in \<open>auto simp: hedged_start_def hedge_start_def\<close>)
    have "answers nxt ctx req buf (?s1\<lparr>hrPrimary := Sent p, hrWorld := w2\<rparr>) (flushTo (arRec (if wins then h else p))) w2"
      using answers_either [of "?s1\<lparr>hrPrimary := Sent p, hrWorld := w2\<rparr>" p h nxt ctx req buf wins] by (simp add: hedged_start_def)
    with s1 s2 show ?thesis by (blast intro: answers_step)
  qed
qed

lemma schedule_has_run:
  assumes "serveHedged sched nxt ctx req buf w = (calls, w')"
  shows "answers nxt ctx req buf (hedge_start w) calls w'"
proof (cases sched)
  case PrimaryInTime
  then obtain p where p: "primary_attempt nxt ctx req buf False w = (p, w')" and c: "calls = flushTo (arRec p)"
    using assms by (auto simp: serveHedged_eq split: prod.splits)
  let ?s1 = "(hedge_start w)\<lparr>hrPrimary := Sent p, hrWorld := w'\<rparr>"
  have s1: "hedge_step nxt ctx req buf (hedge_start w) ?s1" by (rule primary_runs) (simp_all add: hedge_start_def p)
  have s2: "hedge_step nxt ctx req buf ?s1 (?s1\<lparr>hrPC := Flushed calls, hrPrimary := Drained, hrPrimaryCancelled := True\<rparr>)"
    unfolding c by (rule in_time) (simp_all add: hedge_start_def)
  from answers_step [OF s1 answers_step [OF s2 answers_flushed]] show ?thesis by simp
next
  case (Race hf wins early)
  have "answers nxt ctx req buf (hedged_start w) calls w'"
  proof (cases hf)
    case True
    then show ?thesis using assms Race race_hedge_first [of nxt ctx req buf w _ _ wins early _ w']
      by (auto simp: serveHedged_eq split: prod.splits)
  next
    case False
    then show ?thesis using assms Race race_primary_first [of nxt ctx req buf w _ _ wins early _ w']
      by (auto simp: serveHedged_eq split: prod.splits)
  qed
  then show ?thesis by (rule answers_steps [OF hedge_fired])
qed

section \<open>Progress\<close>

fun goroutine_work :: "goroutine \<Rightarrow> nat" where
  "goroutine_work NotSpawned = 0"
| "goroutine_work Spawned = 1"
| "goroutine_work _ = 0"

fun pc_work :: "hedge_pc \<Rightarrow> nat" where
  "pc_work AwaitPrimary = 4"
| "pc_work AwaitEither = 2"
| "pc_work (AwaitLoser _ _) = 1"
| "pc_work (Flushed _) = 0"

definition hedge_work :: "hedge_run \<Rightarrow> nat" where
  "hedge_work s = pc_work (hrPC s) + goroutine_work (hrPrimary s) + goroutine_work (hrHedge s) + (if hrTimer s then 0 else 1)"

lemma hedge_step_work: "hedge_step nxt ctx req buf s s' \<Longrightarrow> hedge_work s' < hedge_work s"
  by (induction rule: hedge_step.induct) (auto simp: hedge_work_def)

lemma hedge_not_stuck:
  assumes "hedge_inv nxt ctx req buf w s" and "\<forall>s'. \<not> hedge_step nxt ctx req buf s s'"
  shows "\<exists>calls. hrPC s = Flushed calls"
proof -
  have p: "hrPrimary s \<noteq> Spawned" using assms(2) primary_runs [of s] by (metis prod.exhaust)
  have h: "hrHedge s \<noteq> Spawned" using assms(2) hedge_runs [of s] by (metis prod.exhaust)
  show ?thesis
  proof (cases "hrPC s")
    case AwaitPrimary
    then obtain q where "hrPrimary s = Sent q" using assms(1) p by (auto simp: hedge_inv_def)
    then show ?thesis using assms(2) in_time [OF AwaitPrimary] by blast
  next
    case AwaitEither
    then obtain q where "hrPrimary s = Sent q" using assms(1) p h by (auto simp: hedge_inv_def)
    then show ?thesis using assms(2) primary_received [OF AwaitEither] by blast
  next
    case (AwaitLoser won res)
    then obtain q where "(if won then hrPrimary s else hrHedge s) = Sent q" using assms(1) p h by (auto simp: hedge_inv_def split: if_splits)
    then show ?thesis using assms(2) AwaitLoser primary_drained [of s res q] hedge_drained [of s res q] by (cases won) metis+
  qed blast
qed

interpretation hedged: progress "hedge_step nxt ctx req buf" "hedge_inv nxt ctx req buf w" "\<lambda>s. \<exists>calls. hrPC s = Flushed calls" hedge_work
  for nxt ctx req buf w
proof unfold_locales
  show "hedge_step nxt ctx req buf s s' \<Longrightarrow> hedge_inv nxt ctx req buf w s \<Longrightarrow> hedge_inv nxt ctx req buf w s'" for s s' by (rule hedge_inv_step)
  show "hedge_step nxt ctx req buf s s' \<Longrightarrow> hedge_work s' < hedge_work s" for s s' by (rule hedge_step_work)
  show "hedge_inv nxt ctx req buf w s \<Longrightarrow> \<nexists>calls. hrPC s = Flushed calls \<Longrightarrow> \<exists>s'. hedge_step nxt ctx req buf s s'" for s
    using hedge_not_stuck by blast
qed

lemma hedge_inv_start: "hedge_inv nxt ctx req buf w (hedge_start w)"
  by (simp add: hedge_inv_def hedge_start_def)

lemmas hedge_inv_reach = hedged.keeps_star [OF _ hedge_inv_start]

section \<open>Properties\<close>


text \<open>
  (C18) A hedged request always ends and leaves nothing behind: no run has more than six steps, and a run that
  cannot go on has answered the client, with every goroutine it started through, its result received, and
  its context cancelled.
\<close>

theorem hedging_completes:
  assumes "(hedge_step nxt ctx req buf ^^ n) (hedge_start w) s"
  shows "n \<le> 6 \<and> ((\<forall>s'. \<not> hedge_step nxt ctx req buf s s') \<longrightarrow>
    (\<exists>calls. hrPC s = Flushed calls) \<and> hrPrimary s = Drained \<and> hrPrimaryCancelled s \<and>
    (hrHedge s = NotSpawned \<or> hrHedge s = Drained \<and> hrHedgeCancelled s))"
proof -
  have "hedge_work s + n \<le> hedge_work (hedge_start w)" by (rule hedged.run_bound [OF assms hedge_inv_start])
  then have "n \<le> 6" by (simp add: hedge_work_def hedge_start_def)
  note run = relpowp_imp_rtranclp [OF assms]
  have "(\<exists>calls. hrPC s = Flushed calls) \<and> hrPrimary s = Drained \<and> hrPrimaryCancelled s \<and>
    (hrHedge s = NotSpawned \<or> hrHedge s = Drained \<and> hrHedgeCancelled s)" if "\<forall>s'. \<not> hedge_step nxt ctx req buf s s'"
    using hedged.stuck_is_finished [OF hedge_inv_start run] hedge_inv_reach [OF run] that by (auto simp: hedge_inv_def)
  with \<open>n \<le> 6\<close> show ?thesis by blast
qed

definition sample_flushed :: hedge_run where
  "sample_flushed = (hedge_start sample_world)\<lparr>hrPC := Flushed [HPutAll Map.empty, WriteHeader 503, Write ''x''], hrPrimary := Drained, hrPrimaryCancelled := True\<rparr>"

theorem hedging_completes_witness:
  "(hedge_step (answering 503) background (sample_request []) None ^^ 2) (hedge_start sample_world) sample_flushed \<and> hrPrimary sample_flushed = Drained"
proof -
  obtain p where p: "primary_attempt (answering 503) background (sample_request []) None False sample_world = (p, sample_world)"
    and f: "flushTo (arRec p) = [HPutAll Map.empty, WriteHeader 503, Write ''x'']"
    by (simp add: primary_attempt_def dispatch_def answering_def newBufferedResponse_def flushTo_def Let_def)
  let ?s1 = "(hedge_start sample_world)\<lparr>hrPrimary := Sent p, hrWorld := sample_world\<rparr>"
  have "hedge_step (answering 503) background (sample_request []) None (hedge_start sample_world) ?s1"
    by (rule primary_runs) (simp_all add: hedge_start_def p)
  moreover have "hedge_step (answering 503) background (sample_request []) None ?s1 sample_flushed"
    using in_time [of ?s1 p] by (simp add: hedge_start_def sample_flushed_def f)
  ultimately have run: "(hedge_step (answering 503) background (sample_request []) None ^^ 2) (hedge_start sample_world) sample_flushed"
    by (auto simp: numeral_2_eq_2)
  have "\<not> hedge_step (answering 503) background (sample_request []) None sample_flushed s'" for s'
    by (auto simp: sample_flushed_def hedge_start_def elim: hedge_step.cases)
  with hedging_completes [OF run] run show ?thesis by blast
qed

text \<open>
  Hedging switches retries off: for a method that may be hedged, with at least two attempts allowed, a
  primary attempt that ends before the threshold is the answer, even with a status or an error on which
  the configuration asks for a retry.
\<close>

theorem hedging_disables_retry:
  assumes "stringInSlice (rtHedgeableMethods rcfg) (rMethod r)" and "0 < rtHedgeAfter rcfg" and "2 \<le> rtMaxAttempts rcfg"
    and "rBody r = NoBody" and "sched w = PrimaryInTime" and "dispatch nxt ctx r 1 [] False None w = (res, w1)"
  shows "Retry sched rcfg nxt ctx r w = (\<lparr>rnCalls = flushTo (arRec res), rnEnding = Returned, rnChosen = None, rnErr = None\<rparr>, w1)"
  using assms by (simp add: Retry_def retry_ServeHTTP_def bufferReplayBody_def serveHedged_def)

theorem hedging_disables_retry_witness:
  "rnCalls (fst (Retry (\<lambda>_. PrimaryInTime) (sample_retry\<lparr>rtHedgeAfter := 100, rtHedgeableMethods := [''GET'']\<rparr>) (answering 503) background
     (sample_request []) sample_world)) = [HPutAll Map.empty, WriteHeader 503, Write ''x''] \<and> rtRetryOn sample_retry = [503]"
proof -
  obtain res where d: "dispatch (answering 503) background (sample_request []) 1 [] False None sample_world = (res, sample_world)"
    and f: "flushTo (arRec res) = [HPutAll Map.empty, WriteHeader 503, Write ''x'']"
    by (simp add: dispatch_def answering_def newBufferedResponse_def flushTo_def Let_def)
  from hedging_disables_retry [OF _ _ _ _ _ d, of "sample_retry\<lparr>rtHedgeAfter := 100, rtHedgeableMethods := [''GET'']\<rparr>" "\<lambda>_. PrimaryInTime"] f
  show ?thesis by (simp add: sample_retry_def sample_request_def)
qed

end
