(* ===== verification/Encoders.thy ===== *)
theory Encoders
  imports Compress
begin

text \<open>
  The encoder pools of \<^verbatim>\<open>internal/middleware/compress.go\<close>, \<^verbatim>\<open>newEncoder\<close> and \<^verbatim>\<open>releaseEncoder\<close>. Encoders are objects
  with an identity: a \<^verbatim>\<open>sync.Pool\<close> hands out one of its items or a new one, and may lose items at any time.
  Any number of responses use the pools at once, in any interleaving. \<open>Compress\<close> gives every response an
  encoder of its own; here it is shown that the pools cannot be told from that.
\<close>

section \<open>Pools\<close>

datatype write_closer = PooledEncoder encoding nat | NopWriteCloser

record 'z encoders =
  epPools :: "encoding \<Rightarrow> nat list"
  epState :: "nat \<Rightarrow> 'z"
  epNext :: nat

text \<open>\<open>choice\<close>: the item that \<^verbatim>\<open>Get\<close> takes, if it takes one.\<close>

definition pool_Get :: "nat option \<Rightarrow> encoding \<Rightarrow> 'z encoders \<Rightarrow> nat \<times> 'z encoders" where
  "pool_Get choice e s =
     (case choice of
        Some i \<Rightarrow> if List.member (epPools s e) i then (i, s\<lparr>epPools := (epPools s)(e := remove1 i (epPools s e))\<rparr>)
                  else (epNext s, s\<lparr>epNext := epNext s + 1\<rparr>)
      | None \<Rightarrow> (epNext s, s\<lparr>epNext := epNext s + 1\<rparr>))"

definition pool_Put :: "encoding \<Rightarrow> nat \<Rightarrow> 'z encoders \<Rightarrow> 'z encoders" where
  "pool_Put e i s = s\<lparr>epPools := (epPools s)(e := i # epPools s e)\<rparr>"

definition newEncoder :: "(encoding \<Rightarrow> 'z codec) \<Rightarrow> nat option \<Rightarrow> encoding \<Rightarrow> 'z encoders \<Rightarrow> write_closer \<times> 'z encoders" where
  "newEncoder codecs choice e s =
     (case e of
        encodingNone \<Rightarrow> (NopWriteCloser, s)
      | _ \<Rightarrow> let (i, s1) = pool_Get choice e s in (PooledEncoder e i, s1\<lparr>epState := (epState s1)(i := zInit (codecs e))\<rparr>))"

definition releaseEncoder :: "encoding \<Rightarrow> write_closer \<Rightarrow> 'z encoders \<Rightarrow> 'z encoders" where
  "releaseEncoder e wc s =
     (case wc of
        PooledEncoder e' i \<Rightarrow> if e \<noteq> encodingNone \<and> e' = e then pool_Put e i s else s
      | NopWriteCloser \<Rightarrow> s)"

section \<open>Responses that share the pools\<close>

datatype writer_phase = Uncommitted | Encoding write_closer | WriterClosed

record 'z responses =
  rsEncoders :: "'z encoders"
  rsWriter :: "nat \<Rightarrow> writer_phase"

datatype encoder_event = EncStart nat | EncWrite nat string string | EncClose nat string | EncCollect

text \<open>
  The part of \<^verbatim>\<open>commit\<close>, \<^verbatim>\<open>Write\<close> and \<^verbatim>\<open>Close\<close> that concerns the encoder, for response \<open>r\<close> with the encoding \<open>enc r\<close>. A
  closed encoder is left in some state \<open>z\<close>; garbage collection takes an item out of a pool.
\<close>

inductive enc_step :: "(encoding \<Rightarrow> 'z codec) \<Rightarrow> (nat \<Rightarrow> encoding) \<Rightarrow> 'z responses \<Rightarrow> encoder_event \<Rightarrow> 'z responses \<Rightarrow> bool" for codecs enc where
  enc_start: "\<lbrakk> rsWriter s r = Uncommitted; enc r \<noteq> encodingNone; newEncoder codecs choice (enc r) (rsEncoders s) = (wc, es) \<rbrakk> \<Longrightarrow>
    enc_step codecs enc s (EncStart r) (s\<lparr>rsEncoders := es, rsWriter := (rsWriter s)(r := Encoding wc)\<rparr>)"
| enc_write: "\<lbrakk> rsWriter s r = Encoding (PooledEncoder e i); zWrite (codecs e) (epState (rsEncoders s) i) p = (z, out) \<rbrakk> \<Longrightarrow>
    enc_step codecs enc s (EncWrite r p out) (s\<lparr>rsEncoders := (rsEncoders s)\<lparr>epState := (epState (rsEncoders s))(i := z)\<rparr>\<rparr>)"
| enc_close: "\<lbrakk> rsWriter s r = Encoding (PooledEncoder e i); out = zClose (codecs e) (epState (rsEncoders s) i) \<rbrakk> \<Longrightarrow>
    enc_step codecs enc s (EncClose r out)
      (s\<lparr>rsEncoders := releaseEncoder (enc r) (PooledEncoder e i) ((rsEncoders s)\<lparr>epState := (epState (rsEncoders s))(i := z)\<rparr>),
         rsWriter := (rsWriter s)(r := WriterClosed)\<rparr>)"
| enc_collect: "enc_step codecs enc s EncCollect
    (s\<lparr>rsEncoders := (rsEncoders s)\<lparr>epPools := (epPools (rsEncoders s))(e := remove1 i (epPools (rsEncoders s) e))\<rparr>\<rparr>)"

definition no_responses :: "(nat \<Rightarrow> 'z) \<Rightarrow> 'z responses" where
  "no_responses st = \<lparr>rsEncoders = \<lparr>epPools = (\<lambda>_. []), epState = st, epNext = 0\<rparr>, rsWriter = (\<lambda>_. Uncommitted)\<rparr>"

inductive enc_run :: "(encoding \<Rightarrow> 'z codec) \<Rightarrow> (nat \<Rightarrow> encoding) \<Rightarrow> encoder_event list \<Rightarrow> 'z responses \<Rightarrow> bool" for codecs enc where
  run_none: "enc_run codecs enc [] (no_responses st)"
| run_event: "\<lbrakk> enc_run codecs enc tr s; enc_step codecs enc s ev s' \<rbrakk> \<Longrightarrow> enc_run codecs enc (tr @ [ev]) s'"

section \<open>Ownership\<close>

text \<open>An encoder is in one pool, of its own kind, or in the hands of one response, never both.\<close>

definition owned :: "(nat \<Rightarrow> encoding) \<Rightarrow> 'z responses \<Rightarrow> bool" where
  "owned enc s \<longleftrightarrow>
     (\<forall>e. distinct (epPools (rsEncoders s) e) \<and> (\<forall>i \<in> set (epPools (rsEncoders s) e). i < epNext (rsEncoders s))) \<and>
     (\<forall>e e' i. i \<in> set (epPools (rsEncoders s) e) \<and> i \<in> set (epPools (rsEncoders s) e') \<longrightarrow> e = e') \<and>
     (\<forall>r wc. rsWriter s r = Encoding wc \<longrightarrow>
        (\<exists>i. wc = PooledEncoder (enc r) i \<and> i < epNext (rsEncoders s) \<and> enc r \<noteq> encodingNone \<and> (\<forall>e. i \<notin> set (epPools (rsEncoders s) e)))) \<and>
     (\<forall>r r' e e' i. rsWriter s r = Encoding (PooledEncoder e i) \<and> rsWriter s r' = Encoding (PooledEncoder e' i) \<longrightarrow> r = r')"

lemma ownedI:
  assumes "\<And>e. distinct (epPools (rsEncoders s) e)" and "\<And>e i. i \<in> set (epPools (rsEncoders s) e) \<Longrightarrow> i < epNext (rsEncoders s)"
    and "\<And>e e' i. i \<in> set (epPools (rsEncoders s) e) \<Longrightarrow> i \<in> set (epPools (rsEncoders s) e') \<Longrightarrow> e = e'"
    and "\<And>r wc. rsWriter s r = Encoding wc \<Longrightarrow>
      \<exists>i. wc = PooledEncoder (enc r) i \<and> i < epNext (rsEncoders s) \<and> enc r \<noteq> encodingNone \<and> (\<forall>e. i \<notin> set (epPools (rsEncoders s) e))"
    and "\<And>r r' e e' i. rsWriter s r = Encoding (PooledEncoder e i) \<Longrightarrow> rsWriter s r' = Encoding (PooledEncoder e' i) \<Longrightarrow> r = r'"
  shows "owned enc s"
  unfolding owned_def using assms by blast

lemma ownedD:
  assumes "owned enc s"
  shows "distinct (epPools (rsEncoders s) e)" "i \<in> set (epPools (rsEncoders s) e) \<Longrightarrow> i < epNext (rsEncoders s)"
    "i \<in> set (epPools (rsEncoders s) e) \<Longrightarrow> i \<in> set (epPools (rsEncoders s) e') \<Longrightarrow> e = e'"
    "rsWriter s r = Encoding wc \<Longrightarrow>
      \<exists>i. wc = PooledEncoder (enc r) i \<and> i < epNext (rsEncoders s) \<and> enc r \<noteq> encodingNone \<and> (\<forall>e. i \<notin> set (epPools (rsEncoders s) e))"
    "rsWriter s r = Encoding (PooledEncoder e i) \<Longrightarrow> rsWriter s r' = Encoding (PooledEncoder e' i) \<Longrightarrow> r = r'"
  using assms unfolding owned_def by blast+

lemma newEncoder_cases:
  assumes "newEncoder codecs choice e s = (wc, s')" and "e \<noteq> encodingNone"
  obtains (pooled) i where "wc = PooledEncoder e i" "i \<in> set (epPools s e)"
      "s' = s\<lparr>epPools := (epPools s)(e := remove1 i (epPools s e)), epState := (epState s)(i := zInit (codecs e))\<rparr>"
  | (new) "wc = PooledEncoder e (epNext s)" "s' = s\<lparr>epNext := epNext s + 1, epState := (epState s)(epNext s := zInit (codecs e))\<rparr>"
proof -
  obtain i s1 where g: "pool_Get choice e s = (i, s1)" by fastforce
  then have n: "wc = PooledEncoder e i \<and> s' = s1\<lparr>epState := (epState s1)(i := zInit (codecs e))\<rparr>"
    using assms by (cases e) (auto simp: newEncoder_def)
  show thesis
  proof (cases "\<exists>j. choice = Some j \<and> j \<in> set (epPools s e)")
    case True
    then have "i \<in> set (epPools s e)" "s1 = s\<lparr>epPools := (epPools s)(e := remove1 i (epPools s e))\<rparr>" using g by (auto simp: pool_Get_def)
    then show thesis using n pooled by simp
  next
    case False
    then have "i = epNext s" "s1 = s\<lparr>epNext := epNext s + 1\<rparr>" using g by (auto simp: pool_Get_def split: option.splits if_splits)
    then show thesis using n new by simp
  qed
qed

lemma owned_take:
  assumes "owned enc s" and "enc r \<noteq> encodingNone" and "i \<in> set (epPools (rsEncoders s) (enc r))"
  shows "owned enc (s\<lparr>rsEncoders := (rsEncoders s)\<lparr>epPools := (epPools (rsEncoders s))(enc r := remove1 i (epPools (rsEncoders s) (enc r))), epState := st\<rparr>,
    rsWriter := (rsWriter s)(r := Encoding (PooledEncoder (enc r) i))\<rparr>)"
proof (rule ownedI, goal_cases)
  case (4 q wc)
  show ?case
  proof (cases "q = r")
    case True
    have "\<forall>e. e \<noteq> enc r \<longrightarrow> i \<notin> set (epPools (rsEncoders s) e)" using ownedD(3) [OF assms(1) assms(3)] by blast
    then show ?thesis using 4 True assms(2) ownedD(1,2) [OF assms(1)] assms(3) by auto
  next
    case False
    then obtain j where "wc = PooledEncoder (enc q) j" "j < epNext (rsEncoders s)" "enc q \<noteq> encodingNone" "\<forall>e. j \<notin> set (epPools (rsEncoders s) e)"
      using 4 ownedD(4) [OF assms(1), of q wc] by auto
    then show ?thesis using notin_set_remove1 [of j] by simp
  qed
next
  case (5 q q' e e' j)
  have "rsWriter s p \<noteq> Encoding (PooledEncoder d i)" for p d using ownedD(4) [OF assms(1), of p] assms(3) by blast
  then show ?case using 5 ownedD(5) [OF assms(1), of q e j q' e'] by (auto split: if_splits)
qed (use ownedD(1,2,3) [OF assms(1)] in \<open>auto split: if_splits\<close>)

lemma owned_new:
  assumes "owned enc s" and "enc r \<noteq> encodingNone"
  shows "owned enc (s\<lparr>rsEncoders := (rsEncoders s)\<lparr>epNext := epNext (rsEncoders s) + 1, epState := st\<rparr>,
    rsWriter := (rsWriter s)(r := Encoding (PooledEncoder (enc r) (epNext (rsEncoders s))))\<rparr>)"
proof (rule ownedI, goal_cases)
  case (4 q wc)
  then show ?case using assms(2) ownedD(2) [OF assms(1)] ownedD(4) [OF assms(1), of q wc] by (fastforce split: if_splits)
next
  case (5 q q' e e' j)
  have "rsWriter s p \<noteq> Encoding (PooledEncoder d (epNext (rsEncoders s)))" for p d using ownedD(4) [OF assms(1), of p] by blast
  then show ?case using 5 ownedD(5) [OF assms(1), of q e j q' e'] by (auto split: if_splits)
qed (use ownedD(1,2,3) [OF assms(1)] in \<open>auto intro: less_SucI\<close>)

lemma owned_release:
  assumes "owned enc s" and "rsWriter s r = Encoding (PooledEncoder e i)"
  shows "owned enc (s\<lparr>rsEncoders := releaseEncoder (enc r) (PooledEncoder e i) ((rsEncoders s)\<lparr>epState := st\<rparr>), rsWriter := (rsWriter s)(r := WriterClosed)\<rparr>)"
proof -
  have i: "e = enc r" "enc r \<noteq> encodingNone" "i < epNext (rsEncoders s)" "\<And>e. i \<notin> set (epPools (rsEncoders s) e)"
    using ownedD(4) [OF assms] by auto
  have only: "rsWriter s q = Encoding (PooledEncoder d i) \<Longrightarrow> q = r" for q d using ownedD(5) [OF assms(1) _ assms(2)] by blast
  show ?thesis
  proof (rule ownedI, goal_cases)
    case (4 q wc)
    then have q: "q \<noteq> r" "rsWriter s q = Encoding wc" by (auto split: if_splits)
    then obtain j where "wc = PooledEncoder (enc q) j" "j < epNext (rsEncoders s)" "enc q \<noteq> encodingNone" "\<forall>e. j \<notin> set (epPools (rsEncoders s) e)"
      using ownedD(4) [OF assms(1) q(2)] by blast
    moreover from this have "j \<noteq> i" using only [of q "enc q"] q by auto
    ultimately show ?case using i by (simp add: releaseEncoder_def pool_Put_def)
  next
    case (5 q q' d d' j)
    then show ?case using ownedD(5) [OF assms(1), of q d j q' d'] by (auto split: if_splits)
  qed (use i ownedD(1,2,3) [OF assms(1)] in \<open>auto simp: releaseEncoder_def pool_Put_def split: if_splits\<close>)
qed

lemma owned_collect:
  assumes "owned enc s"
  shows "owned enc (s\<lparr>rsEncoders := (rsEncoders s)\<lparr>epPools := (epPools (rsEncoders s))(e := remove1 i (epPools (rsEncoders s) e))\<rparr>\<rparr>)"
proof (rule ownedI, goal_cases)
  case (4 q wc)
  then show ?case using ownedD(4) [OF assms, of q wc] notin_set_remove1 by fastforce
next
  case (5 q q' d d' j)
  then show ?case using ownedD(5) [OF assms, of q d j q' d'] by simp
qed (use ownedD(1,2,3) [OF assms] in \<open>auto split: if_splits dest: notin_set_remove1\<close>)

lemma owned_step: "enc_step codecs enc s ev s' \<Longrightarrow> owned enc s \<Longrightarrow> owned enc s'"
proof (induction rule: enc_step.induct)
  case (enc_start s r choice wc es)
  from enc_start.hyps(3,2) show ?case
  proof (cases rule: newEncoder_cases)
    case (pooled i)
    then show ?thesis using owned_take [OF enc_start.prems enc_start.hyps(2)] by simp
  next
    case new
    then show ?thesis using owned_new [OF enc_start.prems enc_start.hyps(2)] by simp
  qed
next
  case (enc_write s r e i p z out)
  then show ?case by (simp add: owned_def)
next
  case (enc_close s r e i out z)
  then show ?case by (blast intro: owned_release)
next
  case (enc_collect s e i)
  then show ?case by (rule owned_collect)
qed

lemma owned_run: "enc_run codecs enc tr s \<Longrightarrow> owned enc s"
proof (induction rule: enc_run.induct)
  case (run_none st)
  show ?case by (simp add: owned_def no_responses_def)
next
  case (run_event tr s ev s')
  then show ?case by (blast intro: owned_step)
qed

section \<open>What a response writes and emits\<close>

fun written_by :: "nat \<Rightarrow> encoder_event \<Rightarrow> string" where
  "written_by r (EncWrite q p out) = (if q = r then p else [])"
| "written_by r _ = []"

fun emitted_by :: "nat \<Rightarrow> encoder_event \<Rightarrow> string" where
  "emitted_by r (EncWrite q p out) = (if q = r then out else [])"
| "emitted_by r (EncClose q out) = (if q = r then out else [])"
| "emitted_by r _ = []"

definition enc_written :: "nat \<Rightarrow> encoder_event list \<Rightarrow> string" where
  "enc_written r tr = concat (map (written_by r) tr)"

definition enc_emitted :: "nat \<Rightarrow> encoder_event list \<Rightarrow> string" where
  "enc_emitted r tr = concat (map (emitted_by r) tr)"

lemma enc_trace_simps [simp]:
  "enc_written r [] = []" "enc_emitted r [] = []"
  "enc_written r (tr @ [ev]) = enc_written r tr @ written_by r ev" "enc_emitted r (tr @ [ev]) = enc_emitted r tr @ emitted_by r ev"
  by (simp_all add: enc_written_def enc_emitted_def)

text \<open>The account of a response with an encoder of its own.\<close>

definition alone :: "(encoding \<Rightarrow> 'z codec) \<Rightarrow> (nat \<Rightarrow> encoding) \<Rightarrow> encoder_event list \<Rightarrow> 'z responses \<Rightarrow> nat \<Rightarrow> bool" where
  "alone codecs enc tr s r \<longleftrightarrow>
     (case rsWriter s r of
        Uncommitted \<Rightarrow> enc_written r tr = [] \<and> enc_emitted r tr = []
      | Encoding (PooledEncoder e i) \<Rightarrow> zruns (codecs (enc r)) (epState (rsEncoders s) i) (enc_written r tr) (enc_emitted r tr)
      | Encoding NopWriteCloser \<Rightarrow> False
      | WriterClosed \<Rightarrow> (\<exists>z out. zruns (codecs (enc r)) z (enc_written r tr) out \<and> enc_emitted r tr = out @ zClose (codecs (enc r)) z))"

lemma alone_step:
  assumes "enc_step codecs enc s ev s'" and "owned enc s" and "alone codecs enc tr s r"
  shows "alone codecs enc (tr @ [ev]) s' r"
  using assms
proof (induction rule: enc_step.induct)
  case (enc_start s q choice wc es)
  note own = ownedD [OF enc_start.prems(1)]
  from enc_start.hyps(3,2) show ?case
  proof (cases rule: newEncoder_cases)
    case (pooled i)
    have "rsWriter s p \<noteq> Encoding (PooledEncoder d i)" for p d using own(4) [of p] pooled(2) by blast
    then show ?thesis using pooled enc_start.hyps(1) enc_start.prems(2)
      by (auto simp: alone_def intro: z_init split: writer_phase.splits write_closer.splits)
  next
    case new
    have "rsWriter s p \<noteq> Encoding (PooledEncoder d (epNext (rsEncoders s)))" for p d using own(4) [of p] by blast
    then show ?thesis using new enc_start.hyps(1) enc_start.prems(2)
      by (auto simp: alone_def intro: z_init split: writer_phase.splits write_closer.splits)
  qed
next
  case (enc_write s q e i p z out)
  have e: "e = enc q" using ownedD(4) [OF enc_write.prems(1) enc_write.hyps(1)] by auto
  have "rsWriter s p \<noteq> Encoding (PooledEncoder d i)" if "p \<noteq> q" for p d
    using ownedD(5) [OF enc_write.prems(1) enc_write.hyps(1)] that by blast
  then show ?case using enc_write e
    by (cases "r = q") (auto simp: alone_def intro: z_write split: writer_phase.splits write_closer.splits)
next
  case (enc_close s q e i out z)
  have e: "e = enc q" using ownedD(4) [OF enc_close.prems(1) enc_close.hyps(1)] by auto
  have o: "rsWriter s p \<noteq> Encoding (PooledEncoder d i)" if "p \<noteq> q" for p d
    using ownedD(5) [OF enc_close.prems(1) enc_close.hyps(1)] that by blast
  show ?case
  proof (cases "r = q")
    case True
    then show ?thesis using enc_close e by (auto simp: alone_def)
  next
    case False
    then show ?thesis using enc_close o [OF False]
      by (auto simp: alone_def releaseEncoder_def pool_Put_def split: writer_phase.splits write_closer.splits)
  qed
next
  case (enc_collect s e i)
  then show ?case by (simp add: alone_def split: writer_phase.splits write_closer.splits)
qed

lemma alone_run: "enc_run codecs enc tr s \<Longrightarrow> alone codecs enc tr s r"
proof (induction rule: enc_run.induct)
  case (run_none st)
  show ?case by (simp add: alone_def no_responses_def)
next
  case (run_event tr s ev s')
  then show ?case by (blast intro: alone_step owned_run)
qed

section \<open>Properties\<close>

text \<open>
  (C28) Recycled encoders are as good as new: however many responses are compressed at once, in whatever
  interleaving, whichever items the pools hand out or lose and whatever state encoders are released in, no
  two responses hold the same encoder, no encoder in use is in a pool, and a response that has been closed
  has emitted bytes that decode to exactly what was written to it, nothing of any other response among
  them.
\<close>

theorem pooled_encoders_private:
  assumes "enc_run codecs enc tr s"
  shows "(\<forall>r r' e e' i. rsWriter s r = Encoding (PooledEncoder e i) \<and> rsWriter s r' = Encoding (PooledEncoder e' i) \<longrightarrow> r = r') \<and>
    (\<forall>r e i. rsWriter s r = Encoding (PooledEncoder e i) \<longrightarrow> (\<forall>d. i \<notin> set (epPools (rsEncoders s) d))) \<and>
    (\<forall>r dec. rsWriter s r = WriterClosed \<and> decodable (codecs (enc r)) dec \<longrightarrow> dec (enc_emitted r tr) = enc_written r tr)"
proof (intro conjI allI impI)
  note own = ownedD [OF owned_run [OF assms]]
  fix r r' e e' i assume "rsWriter s r = Encoding (PooledEncoder e i) \<and> rsWriter s r' = Encoding (PooledEncoder e' i)"
  then show "r = r'" using own(5) by blast
next
  fix r e i d assume "rsWriter s r = Encoding (PooledEncoder e i)"
  from ownedD(4) [OF owned_run [OF assms] this] show "i \<notin> set (epPools (rsEncoders s) d)" by blast
next
  fix r dec assume a: "rsWriter s r = WriterClosed \<and> decodable (codecs (enc r)) dec"
  then obtain z out where "zruns (codecs (enc r)) z (enc_written r tr) out" "enc_emitted r tr = out @ zClose (codecs (enc r)) z"
    using alone_run [OF assms, of r] by (auto simp: alone_def)
  then show "dec (enc_emitted r tr) = enc_written r tr" using decodable.decodes [of "codecs (enc r)" dec] a by simp
qed

definition recycled :: "nat list \<Rightarrow> writer_phase \<Rightarrow> writer_phase \<Rightarrow> nat \<Rightarrow> unit responses" where
  "recycled pool w0 w1 n =
     \<lparr>rsEncoders = \<lparr>epPools = (\<lambda>_. [])(encodingGzip := pool), epState = (\<lambda>_. ()), epNext = n\<rparr>, rsWriter = (\<lambda>_. Uncommitted)(0 := w0, Suc 0 := w1)\<rparr>"

lemma recycled_upd:
  "(st :: nat \<Rightarrow> unit)(i := u) = st" "(w :: nat \<Rightarrow> writer_phase)(0 := a, Suc 0 := b) = w(Suc 0 := b, 0 := a)"
  by (auto simp: fun_eq_iff)

theorem pooled_encoders_private_witness:
  "\<exists>s. enc_run (\<lambda>_. nopWriteCloser) (\<lambda>_. encodingGzip) [EncStart 0, EncWrite 0 ''ab'' ''ab'', EncClose 0 [], EncStart 1] s \<and>
     rsWriter s 1 = Encoding (PooledEncoder encodingGzip 0) \<and> epPools (rsEncoders s) encodingGzip = [] \<and>
     enc_emitted 0 [EncStart 0, EncWrite 0 ''ab'' ''ab'', EncClose 0 [], EncStart 1] = ''ab''"
proof -
  let ?z = "\<lambda>_. nopWriteCloser" and ?e = "\<lambda>_ :: nat. encodingGzip" and ?held = "Encoding (PooledEncoder encodingGzip 0)"
  have r0: "enc_run ?z ?e [] (recycled [] Uncommitted Uncommitted 0)"
    using run_none [of ?z ?e "\<lambda>_. ()"] by (simp add: no_responses_def recycled_def fun_upd_idem)
  have "enc_step ?z ?e (recycled [] Uncommitted Uncommitted 0) (EncStart 0) (recycled [] ?held Uncommitted 1)"
    using enc_start [of "recycled [] Uncommitted Uncommitted 0" 0 ?e ?z None] by (simp add: recycled_def newEncoder_def pool_Get_def recycled_upd)
  note r1 = run_event [OF r0 this]
  have "enc_step ?z ?e (recycled [] ?held Uncommitted 1) (EncWrite 0 ''ab'' ''ab'') (recycled [] ?held Uncommitted 1)"
    using enc_write [of "recycled [] ?held Uncommitted 1" 0 encodingGzip 0 ?z "''ab''" "()" "''ab''"] by (simp add: recycled_def nopWriteCloser_def recycled_upd)
  note r2 = run_event [OF r1 this]
  have "enc_step ?z ?e (recycled [] ?held Uncommitted 1) (EncClose 0 []) (recycled [0] WriterClosed Uncommitted 1)"
    using enc_close [of "recycled [] ?held Uncommitted 1" 0 encodingGzip 0 "[]" ?z ?e "()"]
    by (simp add: recycled_def nopWriteCloser_def releaseEncoder_def pool_Put_def recycled_upd)
  note r3 = run_event [OF r2 this]
  have "enc_step ?z ?e (recycled [0] WriterClosed Uncommitted 1) (EncStart 1) (recycled [] WriterClosed ?held 1)"
    using enc_start [of "recycled [0] WriterClosed Uncommitted 1" 1 ?e ?z "Some 0"] by (simp add: recycled_def newEncoder_def pool_Get_def recycled_upd)
  note r4 = run_event [OF r3 this]
  let ?s = "recycled [] WriterClosed ?held 1"
  have "rsWriter ?s 0 = WriterClosed" by (simp add: recycled_def)
  with pooled_encoders_private [OF r4] nop.decodable_axioms
  have "enc_emitted 0 [EncStart 0, EncWrite 0 ''ab'' ''ab'', EncClose 0 [], EncStart 1] =
      enc_written 0 [EncStart 0, EncWrite 0 ''ab'' ''ab'', EncClose 0 [], EncStart 1]" by fastforce
  with r4 show ?thesis by (intro exI [of _ ?s]) (simp add: recycled_def enc_written_def)
qed

end
