(* ===== verification/Backend.thy ===== *)
theory Backend
  imports Middleware
begin

text \<open>
  The backend of the load tests, \<^verbatim>\<open>benchmarks/backend/main.go\<close>: a health endpoint, a control endpoint that sets the
  status of all other answers, and a body of fixed size. The paths are those that \<^verbatim>\<open>ServeMux\<close> dispatches on; the value
  of the query parameter \<^verbatim>\<open>status\<close> is an argument. \<^verbatim>\<open>WriteHeader\<close> of \<^verbatim>\<open>net/http\<close> panics on a code that has not three
  digits.
\<close>

section \<open>Model\<close>

definition wrap32 :: "int \<Rightarrow> int" where
  "wrap32 v = (v + 2 ^ 31) mod 2 ^ 32 - 2 ^ 31"

definition backend_body :: string where
  "backend_body = replicate 256 (CHR ''x'')"

definition backend_start :: int where
  "backend_start = 200"

definition valid_code :: "int \<Rightarrow> bool" where
  "valid_code code \<longleftrightarrow> 100 \<le> code \<and> code \<le> 999"

text \<open>The run of one request, from the stored status, and the status it leaves.\<close>

definition backend_ServeHTTP :: "string \<Rightarrow> string \<Rightarrow> int \<Rightarrow> run \<times> int" where
  "backend_ServeHTTP path query status =
     (let answer = (\<lambda>cs. \<lparr>rnCalls = cs, rnEnding = Returned, rnChosen = None, rnErr = None\<rparr>)
      in if path = ''/healthz'' then (answer [WriteHeader 200], status)
         else if path = ''/_ctl''
         then (case (if query = [] then None else parse_int64 query) of
                 Some v \<Rightarrow> (answer [WriteHeader 200], wrap32 v)
               | None \<Rightarrow> (answer [WriteHeader 400], status))
         else if valid_code status
         then (answer [HSet ''Content-Type'' ''application/octet-stream'', WriteHeader status, Write backend_body], status)
         else ((answer [HSet ''Content-Type'' ''application/octet-stream''])\<lparr>rnEnding := Panicked ''invalid WriteHeader code''\<rparr>, status))"

fun backend_serve :: "(string \<times> string) list \<Rightarrow> int \<Rightarrow> run list \<times> int" where
  "backend_serve [] status = ([], status)"
| "backend_serve ((path, query) # rs) status =
     (let (rn, status1) = backend_ServeHTTP path query status; (rns, status2) = backend_serve rs status1 in (rn # rns, status2))"

section \<open>Properties\<close>

lemma wrap32_id: "- (2 ^ 31) \<le> v \<Longrightarrow> v < 2 ^ 31 \<Longrightarrow> wrap32 v = v"
  by (simp add: wrap32_def)

lemma backend_keeps: "path \<noteq> ''/_ctl'' \<Longrightarrow> snd (backend_ServeHTTP path query status) = status"
  by (simp add: backend_ServeHTTP_def Let_def)

lemma backend_serve_keeps: "''/_ctl'' \<notin> fst ` set rs \<Longrightarrow> snd (backend_serve rs status) = status"
  by (induction rs arbitrary: status) (auto simp: case_prod_beta backend_keeps)

text \<open>
  Failure injection works as announced: after a status from 200 to 999 has been set, every answer on an
  ordinary path has that status and the 256 bytes, however many requests other than to the control endpoint
  come in between, and the health endpoint still answers 200.
\<close>

theorem backend_injects_status:
  assumes "parse_int64 query = Some code" and "query \<noteq> []" and "200 \<le> code" and "code \<le> 999" and "''/_ctl'' \<notin> fst ` set rs"
    and "path \<notin> {''/_ctl'', ''/healthz''}"
  shows "let status' = snd (backend_serve ((''/_ctl'', query) # rs) status); answer = respond (rnCalls (fst (backend_ServeHTTP path q status'))) new_response
    in status_of answer = code \<and> wBody answer = backend_body \<and>
       status_of (respond (rnCalls (fst (backend_ServeHTTP ''/healthz'' q status'))) new_response) = 200"
proof -
  have "snd (backend_serve ((''/_ctl'', query) # rs) status) = code"
    using assms backend_serve_keeps [of rs code] by (simp add: backend_ServeHTTP_def wrap32_id Let_def case_prod_beta)
  moreover have "valid_code code" using assms by (simp add: valid_code_def)
  ultimately show ?thesis using assms
    by (simp add: backend_ServeHTTP_def Let_def commit_status_def status_of_def informational_def new_response_def)
qed

theorem backend_injects_status_witness:
  "status_of (respond (rnCalls (fst (backend_ServeHTTP ''/'' [] (snd (backend_serve [(''/_ctl'', ''503''), (''/healthz'', [])] backend_start))))) new_response) = 503"
proof -
  have "parse_int64 ''503'' = Some 503" by code_simp
  from backend_injects_status [OF this, of "[(''/healthz'', [])]" "''/''" backend_start "[]"] show ?thesis by (simp add: Let_def del: backend_serve.simps)
qed

end
