(* ===== verification/Program.thy ===== *)
theory Program
  imports Generations Telemetry Drain Hedge Encoders Backend
begin

text \<open>
  The process, \<^verbatim>\<open>main\<close>, \<^verbatim>\<open>mainErr\<close>, \<^verbatim>\<open>loadConfig\<close>, \<^verbatim>\<open>setupLogging\<close> and \<^verbatim>\<open>serve\<close> of \<^verbatim>\<open>cmd/l7rp/main.go\<close>: flags, the three modes
  (print the version, check the configuration, serve), the signal loop and the order of shutdown. The
  signals that arrive are a list, each SIGHUP with the result of loading the configuration file at that
  moment. The flag parser and the file system are arguments. The shutdown of the metrics listener and the wait
  for the monitors, whose context is cancelled just before, do not block.
\<close>

section \<open>Configuration and logging\<close>

datatype 'e config_error = OpenError string string | LoadError "'e load_error"

definition loadConfig :: "(string \<Rightarrow> string + 's) \<Rightarrow> ('s \<Rightarrow> 'e + config) \<Rightarrow> string \<Rightarrow> 'e config_error + config" where
  "loadConfig os_open decode path =
     (case os_open path of
        Inl e \<Rightarrow> Inl (OpenError path e)
      | Inr f \<Rightarrow> (case Load decode f of Inl e \<Rightarrow> Inl (LoadError e) | Inr c \<Rightarrow> Inr c))"

datatype log_setting = LevelDebug | LevelInfo | LevelWarn | LevelError

definition setupLogging :: "string \<Rightarrow> log_setting" where
  "setupLogging level =
     (let l = to_lower level
      in if l = ''debug'' then LevelDebug else if l = ''warn'' then LevelWarn else if l = ''error'' then LevelError else LevelInfo)"

section \<open>Serving\<close>

datatype signal = SIGHUP "unit + config" | SIGINT | SIGTERM

text \<open>The signal loop: the signal that ended it, if one did, and the state it left.\<close>

fun sigLoop :: "('c, 'z) build_env \<Rightarrow> signal list \<Rightarrow> 'c runtime \<Rightarrow> signal option \<times> 'c runtime" where
  "sigLoop env [] rt = (None, rt)"
| "sigLoop env (SIGHUP loaded # ss) rt = sigLoop env ss (snd (reloadConfig env loaded rt))"
| "sigLoop env (s # ss) rt = (Some s, rt)"

record process_env =
  peExporter :: "string \<Rightarrow> bool \<Rightarrow> string option"
  peResource :: "string \<Rightarrow> string option"

datatype 'c serve_result =
  TracingFailed tracing_error
| StartFailed build_error
| Serving "string option" "'c runtime"
| Stopped "'c runtime"
| Hanging "'c runtime"

text \<open>While the process serves, the metrics endpoint answers at the address of its flag, unless that is empty.\<close>

definition serve ::
  "process_env \<Rightarrow> ('c, 'z) build_env \<Rightarrow> config \<Rightarrow> string \<Rightarrow> tracing_config \<Rightarrow> otel_state \<Rightarrow> build_state \<Rightarrow> signal list \<Rightarrow> 'c serve_result" where
  "serve pe env c metricsBind tracingCfg ot bs signals =
     (case fst (SetupTracing (peExporter pe) (peResource pe) tracingCfg ot) of
        Some e \<Rightarrow> TracingFailed e
      | None \<Rightarrow>
          (case buildRuntime env c bs of
             Inl e \<Rightarrow> StartFailed e
           | Inr rt \<Rightarrow>
               (case sigLoop env signals (start_serving rt) of
                  (None, rt1) \<Rightarrow> Serving (if metricsBind = [] then None else Some metricsBind) rt1
                | (Some s, rt1) \<Rightarrow> let rt2 = shutdown_all rt1 in if wait_returns rt2 then Stopped rt2 else Hanging rt2)))"

section \<open>The process\<close>

record flags =
  fConfigPath :: string
  fCheckOnly :: bool
  fShowVersion :: bool
  fLogLevel :: string
  fMetricsBind :: string
  fTracingEndpoint :: string
  fTracingSampleRatio :: quality
  fTracingInsecure :: bool

datatype ('c, 'e) main_result = Printed string | ConfigRejected "'e config_error" | Served "'c serve_result"

definition version_line :: "string \<Rightarrow> string \<Rightarrow> string" where
  "version_line Version GitCommit = ''l7rp '' @ Version @ '' ('' @ GitCommit @ '')'' @ [CHR 0x0A]"

definition config_ok_line :: "config \<Rightarrow> string" where
  "config_ok_line c =
     ''config OK: '' @ itoa (int (length (Listeners c))) @ '' listener(s), '' @ itoa (int (length (Pools c))) @ '' pool(s), '' @
     itoa (int (length (Routes c))) @ '' route(s)'' @ [CHR 0x0A]"

definition tracing_flags :: "flags \<Rightarrow> tracing_config" where
  "tracing_flags fl =
     \<lparr>tcEndpoint = fTracingEndpoint fl, tcServiceName = ''l7rp'', tcSampleRatio = fTracingSampleRatio fl, tcInsecure = fTracingInsecure fl\<rparr>"

text \<open>The level of the default logger, where one was installed, and the result.\<close>

definition mainErr ::
  "string \<times> string \<Rightarrow> (string \<Rightarrow> string + 's) \<Rightarrow> ('s \<Rightarrow> 'e + config) \<Rightarrow> process_env \<Rightarrow> ('c, 'z) build_env \<Rightarrow> flags \<Rightarrow>
   otel_state \<Rightarrow> build_state \<Rightarrow> signal list \<Rightarrow> log_setting option \<times> ('c, 'e) main_result" where
  "mainErr build os_open decode pe env fl ot bs signals =
     (if fShowVersion fl then (None, Printed (version_line (fst build) (snd build)))
      else (Some (setupLogging (fLogLevel fl)),
            case loadConfig os_open decode (fConfigPath fl) of
              Inl e \<Rightarrow> ConfigRejected e
            | Inr c \<Rightarrow>
                if fCheckOnly fl then Printed (config_ok_line c)
                else Served (serve pe env c (fMetricsBind fl) (tracing_flags fl) ot bs signals)))"

text \<open>The exit status, if the process ends.\<close>

definition exit_status :: "log_setting option \<times> ('c, 'e) main_result \<Rightarrow> nat option" where
  "exit_status r =
     (case snd r of
        Printed _ \<Rightarrow> Some 0
      | ConfigRejected _ \<Rightarrow> Some 1
      | Served s \<Rightarrow>
          (case s of TracingFailed _ \<Rightarrow> Some 1 | StartFailed _ \<Rightarrow> Some 1 | Stopped _ \<Rightarrow> Some 0 | Serving _ _ \<Rightarrow> None | Hanging _ \<Rightarrow> None))"

section \<open>Listeners through reloads\<close>

text \<open>
  What shutdown relies on: every listener that serves has been told to stop or is in one of the two
  tables; the HTTP table has the names of the configuration of record.
\<close>

definition tracked :: "'c runtime \<Rightarrow> bool" where
  "tracked rt \<longleftrightarrow>
     (\<forall>i \<in> set (ruServing rt). i \<in> set (ruStopped rt) \<or> i \<in> snd ` set (ruTCPListeners rt) \<or> i \<in> ran (map_of (ruListeners rt))) \<and>
     dom (map_of (ruListeners rt)) = lName ` set (Listeners (ruCfg rt))"

lemma ran_map_of: "ran (map_of al) \<subseteq> snd ` set al"
  by (force simp: ran_def dest: map_of_SomeD)

lemma tracked_stops: "tracked rt \<Longrightarrow> wait_returns (shutdown_all rt)"
  using ran_map_of [of "ruListeners rt"] by (auto simp: tracked_def wait_returns_def shutdown_all_def)

lemma buildListeners_names:
  "buildListeners env lcs rt = (None, rt') \<Longrightarrow>
   dom (map_of (ruListeners rt')) = dom (map_of (ruListeners rt)) \<union> lName ` set lcs \<and> ruServing rt' = ruServing rt \<and> ruCfg rt' = ruCfg rt"
proof (induction lcs arbitrary: rt)
  case (Cons lc lcs)
  obtain r rt1 where n: "newListenerForRuntime env lc rt = (r, rt1)" by fastforce
  note f = sockets_onlyD [OF newListener_frame [of rt env lc, unfolded n snd_conv]]
  obtain inst where "r = Inr inst" using Cons.prems n by (cases r) auto
  then have "buildListeners env lcs (rt1\<lparr>ruListeners := AList.update (lName lc) inst (ruListeners rt1)\<rparr>) = (None, rt')" using Cons.prems n by simp
  from Cons.IH [OF this] f show ?case by (auto simp: AList.update_conv')
qed simp

lemma buildListeners_distinct:
  "buildListeners env lcs rt = (None, rt') \<Longrightarrow> distinct (map fst (ruListeners rt)) \<Longrightarrow> distinct (map fst (ruListeners rt'))"
proof (induction lcs arbitrary: rt)
  case (Cons lc lcs)
  obtain r rt1 where n: "newListenerForRuntime env lc rt = (r, rt1)" by fastforce
  note f = sockets_onlyD [OF newListener_frame [of rt env lc, unfolded n snd_conv]]
  obtain inst where "r = Inr inst" using Cons.prems(1) n by (cases r) auto
  then have "buildListeners env lcs (rt1\<lparr>ruListeners := AList.update (lName lc) inst (ruListeners rt1)\<rparr>) = (None, rt')" using Cons.prems(1) n by simp
  from Cons.IH [OF this] f Cons.prems(2) show ?case by (simp add: AList.distinct_update)
qed simp

lemma tcp_frames:
  "build_tcp_pools env ps rt = (r, rt') \<Longrightarrow> ruCfg rt' = ruCfg rt"
  "build_tcp_listeners env lcs rt = (r, rt') \<Longrightarrow> ruCfg rt' = ruCfg rt \<and> ruListeners rt' = ruListeners rt \<and> ruServing rt' = ruServing rt"
proof -
  show "build_tcp_pools env ps rt = (r, rt') \<Longrightarrow> ruCfg rt' = ruCfg rt"
  proof (induction ps arbitrary: rt)
    case (Cons p ps)
    obtain q bs where "buildTCPPool env p (ruState rt) = (q, bs)" by fastforce
    with Cons show ?case by (cases q) (auto dest!: Cons.IH)
  qed simp
  show "build_tcp_listeners env lcs rt = (r, rt') \<Longrightarrow> ruCfg rt' = ruCfg rt \<and> ruListeners rt' = ruListeners rt \<and> ruServing rt' = ruServing rt"
  proof (induction lcs arbitrary: rt)
    case (Cons lc lcs)
    from Cons.prems show ?case by (auto split: option.splits if_splits dest!: Cons.IH)
  qed simp
qed

lemma startup_tracked:
  assumes "buildRuntime env c bs = Inr rt"
  shows "tracked (start_serving rt)" "ruCfg rt = c"
proof -
  obtain pools router bs2 rt1 rt2 where
    l: "buildListeners env (Listeners c) \<lparr>ruListeners = [], ruPools = pools, ruTCPListeners = [], ruTCPPools = [], ruCfg = c,
      ruRouter = Some router, ruState = bs2, ruNext = 0, ruBound = [], ruServing = [], ruStopped = []\<rparr> = (None, rt1)"
    and p: "build_tcp_pools env (TCPPools c) rt1 = (None, rt2)" and t: "build_tcp_listeners env (TCPListeners c) rt2 = (None, rt)"
    using assms by (auto simp: buildRuntime_def Let_def split: prod.splits sum.splits option.splits)
  note L = buildListeners_names [OF l] and P = tcp_pools_frame [OF p] tcp_frames(1) [OF p] and T = tcp_frames(2) [OF t]
  show c: "ruCfg rt = c" using L P T by simp
  have al: "distinct (map fst (ruListeners rt)) \<Longrightarrow> snd ` set (ruListeners rt) \<subseteq> ran (map_of (ruListeners rt))"
    by (force simp: ran_def)
  have d: "distinct (map fst (ruListeners rt))"
    using buildListeners_distinct [OF l] P T by simp
  show "tracked (start_serving rt)"
    using L P T c al [OF d] by (auto simp: tracked_def start_serving_eq)
qed

text \<open>A listener name always stands for the same settings.\<close>

definition agree :: "(string \<Rightarrow> listener_config) \<Rightarrow> listener_config list \<Rightarrow> bool" where
  "agree F lcs \<longleftrightarrow> (\<forall>lc \<in> set lcs. lc = F (lName lc))"

lemma index_agree:
  assumes "agree F lcs"
  shows "indexListenersByName lcs n = (if n \<in> lName ` set lcs then Some (F n) else None)"
proof (cases "n \<in> lName ` set lcs")
  case True
  then obtain lc where "indexListenersByName lcs n = Some lc"
    by (cases "indexListenersByName lcs n") (auto simp: indexListenersByName_def map_of_eq_None_iff image_image)
  moreover from this have "lc \<in> set lcs" "lName lc = n" by (auto simp: indexListenersByName_def dest!: map_of_SomeD)
  ultimately show ?thesis using assms True by (auto simp: agree_def)
next
  case False
  then show ?thesis by (auto simp: indexListenersByName_def map_of_eq_None_iff)
qed

lemma diff_old_agree:
  assumes "agree F new" and "agree F old"
  shows "\<exists>plan'. diff_old env (indexListenersByName new) old plan rt = (Inr plan', rt) \<and> lpNewOnes plan' = lpNewOnes plan \<and>
    lpRetired plan' = lpRetired plan @ map (\<lambda>lc. old_instance rt (lName lc)) (filter (\<lambda>lc. lName lc \<notin> lName ` set new) old)"
  using assms(2)
proof (induction old arbitrary: plan)
  case (Cons lc lcs)
  have a: "lc = F (lName lc)" "agree F lcs" using Cons.prems by (auto simp: agree_def)
  show ?case
  proof (cases "lName lc \<in> lName ` set new")
    case True
    then have "indexListenersByName new (lName lc) = Some lc" using index_agree [OF assms(1)] a(1) by simp
    then show ?thesis using Cons.IH [OF a(2), of plan] True by simp
  next
    case False
    then have "indexListenersByName new (lName lc) = None" using index_agree [OF assms(1)] by simp
    moreover obtain plan' where "diff_old env (indexListenersByName new) lcs
        (plan\<lparr>lpRemoved := lpRemoved plan @ [lName lc], lpRetired := lpRetired plan @ [old_instance rt (lName lc)]\<rparr>) rt = (Inr plan', rt)"
      "lpNewOnes plan' = lpNewOnes plan"
      "lpRetired plan' = (lpRetired plan @ [old_instance rt (lName lc)]) @ map (\<lambda>lc. old_instance rt (lName lc)) (filter (\<lambda>lc. lName lc \<notin> lName ` set new) lcs)"
      using Cons.IH [OF a(2), of "plan\<lparr>lpRemoved := lpRemoved plan @ [lName lc], lpRetired := lpRetired plan @ [old_instance rt (lName lc)]\<rparr>"] by auto
    ultimately show ?thesis using False by simp
  qed
qed simp

lemma diff_new_plan:
  assumes "diff_new env oldByName lcs plan rt = (Inr plan', rt')" and "distinct (map fst (lpNewOnes plan))"
  shows "lpRetired plan' = lpRetired plan \<and> distinct (map fst (lpNewOnes plan')) \<and>
    fst ` set (lpNewOnes plan') = fst ` set (lpNewOnes plan) \<union> {n \<in> lName ` set lcs. oldByName n = None}"
  using assms
proof (induction lcs arbitrary: plan rt)
  case (Cons lc lcs)
  show ?case
  proof (cases "oldByName (lName lc)")
    case None
    obtain r rt1 where n: "newListenerForRuntime env lc rt = (r, rt1)" by fastforce
    then obtain inst where "r = Inr inst" using Cons.prems(1) None by (cases r) auto
    then have d: "diff_new env oldByName lcs
        (plan\<lparr>lpAdded := lpAdded plan @ [lName lc], lpNewOnes := AList.update (lName lc) inst (lpNewOnes plan)\<rparr>) rt1 = (Inr plan', rt')"
      using Cons.prems(1) None n by simp
    have k: "fst ` set (AList.update (lName lc) inst (lpNewOnes plan)) = insert (lName lc) (fst ` set (lpNewOnes plan))"
      by (simp add: dom_map_of_conv_image_fst [symmetric] AList.update_conv')
    from Cons.IH [OF d] Cons.prems(2) None show ?thesis by (auto simp: k AList.distinct_update)
  next
    case (Some x)
    then show ?thesis using Cons.IH [of plan rt] Cons.prems by auto
  qed
qed auto

lemma apply_plan_tables:
  shows "ruServing (apply_plan plan rt) = ruServing rt @ map snd (lpNewOnes plan)"
    and "set (ruStopped (apply_plan plan rt)) = set (ruStopped rt) \<union> {i. \<exists>n. Some (n, i) \<in> set (lpRetired plan)}"
    and "map_of (ruListeners (apply_plan plan rt)) n =
      (if \<exists>i. Some (n, i) \<in> set (lpRetired plan) then None else (map_of (ruListeners rt) ++ map_of (rev (lpNewOnes plan))) n)"
proof -
  let ?f = "\<lambda>(name, inst) rt. serveListener inst (rt\<lparr>ruListeners := AList.update name inst (ruListeners rt)\<rparr>)"
  have f: "ruServing (fold ?f xs r) = ruServing r @ map snd xs \<and> ruStopped (fold ?f xs r) = ruStopped r \<and>
      map_of (ruListeners (fold ?f xs r)) = map_of (ruListeners r) ++ map_of (rev xs)" for xs and r :: "'a runtime"
  proof (induction xs arbitrary: r)
    case (Cons x xs)
    then show ?case by (cases x) (simp add: serveListener_def AList.update_conv' map_add_def fun_eq_iff split: option.split)
  qed simp
  have del: "map_of (fold (\<lambda>x ls. case x of None \<Rightarrow> ls | Some (name, _) \<Rightarrow> AList.delete name ls) xs ls) n =
      (if \<exists>i. Some (n, i) \<in> set xs then None else map_of ls n)" for xs and ls :: "(string \<times> nat) list"
    by (induction xs arbitrary: ls) (auto simp: AList.delete_conv' split: option.split)
  show "ruServing (apply_plan plan rt) = ruServing rt @ map snd (lpNewOnes plan)"
    using f [of "lpNewOnes plan" rt] by (simp add: apply_plan_def retire_def Let_def)
  show "set (ruStopped (apply_plan plan rt)) = set (ruStopped rt) \<union> {i. \<exists>n. Some (n, i) \<in> set (lpRetired plan)}"
    using f [of "lpNewOnes plan" rt] by (force simp: apply_plan_def retire_def Let_def split: option.splits)
  show "map_of (ruListeners (apply_plan plan rt)) n =
      (if \<exists>i. Some (n, i) \<in> set (lpRetired plan) then None else (map_of (ruListeners rt) ++ map_of (rev (lpNewOnes plan))) n)"
    using f [of "lpNewOnes plan" rt] by (auto simp: apply_plan_def retire_def Let_def del)
qed

text \<open>
  What a listener plan is when names keep their meaning: it retires the instances whose name is gone and
  starts one instance for every name that is new.
\<close>

definition fits :: "listener_plan \<Rightarrow> string set \<Rightarrow> 'c runtime \<Rightarrow> bool" where
  "fits plan names rt \<longleftrightarrow>
     (\<forall>n i. Some (n, i) \<in> set (lpRetired plan) \<longleftrightarrow> map_of (ruListeners rt) n = Some i \<and> n \<notin> names) \<and>
     distinct (map fst (lpNewOnes plan)) \<and> fst ` set (lpNewOnes plan) = names - dom (map_of (ruListeners rt))"

lemma diffListeners_fits:
  assumes "diffListeners env new rt = (Inr plan, rt1)" and "agree F new" and "agree F (Listeners (ruCfg rt))"
    and "dom (map_of (ruListeners rt)) = lName ` set (Listeners (ruCfg rt))"
  shows "fits plan (lName ` set new) rt"
proof -
  let ?old = "Listeners (ruCfg rt)" and ?L = "map_of (ruListeners rt)"
  obtain plan1 where p1: "diff_old env (indexListenersByName new) ?old empty_plan rt = (Inr plan1, rt)" "lpNewOnes plan1 = []"
    "lpRetired plan1 = map (\<lambda>lc. old_instance rt (lName lc)) (filter (\<lambda>lc. lName lc \<notin> lName ` set new) ?old)"
    using diff_old_agree [OF assms(2,3), of env empty_plan rt] by (auto simp: empty_plan_def)
  have p2: "diff_new env (indexListenersByName ?old) new plan1 rt = (Inr plan, rt1)"
    using assms(1) p1(1) by (simp add: diffListeners_def)
  note q = diff_new_plan [OF p2, unfolded p1(2), simplified]
  have "Some (n, i) \<in> set (lpRetired plan) \<longleftrightarrow> ?L n = Some i \<and> n \<notin> lName ` set new" for n i
  proof
    assume "Some (n, i) \<in> set (lpRetired plan)"
    then obtain lc :: listener_config where lc: "lName lc \<notin> lName ` set new" "Some (n, i) = old_instance rt (lName lc)"
      unfolding conjunct1 [OF q] p1(3) set_map set_filter by blast
    then have "n = lName lc" "?L n = Some i" by (cases "?L (lName lc)"; simp add: old_instance_def)+
    then show "?L n = Some i \<and> n \<notin> lName ` set new" using lc(1) by simp
  next
    assume a: "?L n = Some i \<and> n \<notin> lName ` set new"
    then obtain lc where "lc \<in> set ?old" "n = lName lc" using assms(4) by blast
    moreover have "Some (n, i) = old_instance rt n" using a by (simp add: old_instance_def)
    ultimately have "Some (n, i) \<in> set (lpRetired plan1)" using a p1(3) by (metis (mono_tags, lifting) image_eqI list.set_map mem_Collect_eq set_filter)
    then show "Some (n, i) \<in> set (lpRetired plan)" using q by simp
  qed
  moreover have "fst ` set (lpNewOnes plan) = lName ` set new - dom ?L" using q index_agree [OF assms(3)] assms(4) by auto
  ultimately show ?thesis using q by (simp add: fits_def)
qed

lemma fits_tables:
  assumes "fits plan names rt"
  shows "map_of (ruListeners (apply_plan plan rt)) n =
      (if n \<in> names then case map_of (ruListeners rt) n of None \<Rightarrow> map_of (lpNewOnes plan) n | Some i \<Rightarrow> Some i else None)"
    and "dom (map_of (ruListeners (apply_plan plan rt))) = names"
proof -
  let ?L = "map_of (ruListeners rt)" and ?N = "map_of (lpNewOnes plan)"
  have rev: "map_of (rev (lpNewOnes plan)) = ?N"
    by (subst map_of_inject_set) (use assms in \<open>simp_all add: fits_def rev_map [symmetric]\<close>)
  have domN: "dom ?N = names - dom ?L" using assms by (simp add: fits_def dom_map_of_conv_image_fst)
  have gone: "(\<exists>i. Some (n, i) \<in> set (lpRetired plan)) \<longleftrightarrow> n \<in> dom ?L \<and> n \<notin> names" for n
    using assms by (auto simp: fits_def)
  show L: "map_of (ruListeners (apply_plan plan rt)) n = (if n \<in> names then case ?L n of None \<Rightarrow> ?N n | Some i \<Rightarrow> Some i else None)" for n
  proof (cases "n \<in> names")
    case True
    have "?L n \<noteq> None \<Longrightarrow> ?N n = None" using domN by blast
    then show ?thesis using True gone [of n] by (auto simp: apply_plan_tables(3) rev map_add_def split: option.split)
  next
    case False
    then have "?N n = None" using domN by blast
    then show ?thesis using False gone [of n] by (auto simp: apply_plan_tables(3) rev map_add_def split: option.split)
  qed
  have "n \<in> dom (map_of (ruListeners (apply_plan plan rt))) \<longleftrightarrow> n \<in> names" for n
    using L [of n] domN by (cases "?L n"; cases "?N n") auto
  then show "dom (map_of (ruListeners (apply_plan plan rt))) = names" by blast
qed

lemma fits_serving:
  assumes "fits plan names rt" and "i \<in> set (ruServing (apply_plan plan rt))"
    and "\<forall>i \<in> set (ruServing rt). i \<in> set (ruStopped rt) \<or> i \<in> T \<or> i \<in> ran (map_of (ruListeners rt))"
  shows "i \<in> set (ruStopped (apply_plan plan rt)) \<or> i \<in> T \<or> i \<in> ran (map_of (ruListeners (apply_plan plan rt)))"
proof -
  let ?L = "map_of (ruListeners rt)" and ?N = "map_of (lpNewOnes plan)"
  note st = apply_plan_tables(2) [of plan rt] and tab = fits_tables(1) [OF assms(1)]
  consider "i \<in> set (ruStopped rt) \<or> i \<in> T" | n where "?L n = Some i" | n where "(n, i) \<in> set (lpNewOnes plan)"
    using assms(2,3) apply_plan_tables(1) [of plan rt] by (fastforce simp: ran_def)
  then show ?thesis
  proof cases
    case 1
    then show ?thesis using st by auto
  next
    case (2 n)
    show ?thesis
    proof (cases "n \<in> names")
      case True
      then show ?thesis using 2 tab [of n] by (auto intro: ranI)
    next
      case False
      then show ?thesis using 2 assms(1) st by (auto simp: fits_def)
    qed
  next
    case (3 n)
    then have "n \<in> names" "?L n = None" "?N n = Some i" using assms(1) by (force simp: fits_def)+
    then show ?thesis using tab [of n] by (auto intro: ranI)
  qed
qed

lemma reload_tracked:
  assumes "reloadConfig env loaded rt = (ok, rt')" and "tracked rt" and "agree F (Listeners (ruCfg rt))"
    and "\<forall>d. loaded = Inr d \<longrightarrow> agree F (Listeners d)"
  shows "tracked rt' \<and> agree F (Listeners (ruCfg rt'))"
  using assms(1)
proof (cases rule: reload_cases)
  case (failed rt1 b)
  then show ?thesis using sockets_onlyD [OF failed(2)] assms(2,3) by (simp add: tracked_def)
next
  case (swapped newCfg plan rt1 pools bs router bs2)
  let ?rt = "rt1\<lparr>ruState := bs2, ruPools := pools, ruRouter := Some router, ruCfg := newCfg\<rparr>" and ?T = "snd ` set (ruTCPListeners rt)"
  have agree: "agree F (Listeners newCfg)" using assms(4) swapped(2) by blast
  note same = sockets_onlyD [OF swapped(3)]
  have "fits plan (lName ` set (Listeners newCfg)) rt"
    by (rule diffListeners_fits [OF swapped(4) agree assms(3)]) (use assms(2) in \<open>simp add: tracked_def\<close>)
  then have fit: "fits plan (lName ` set (Listeners newCfg)) ?rt" using same by (simp add: fits_def)
  have "\<forall>i \<in> set (ruServing ?rt). i \<in> set (ruStopped ?rt) \<or> i \<in> ?T \<or> i \<in> ran (map_of (ruListeners ?rt))"
    using assms(2) same by (simp add: tracked_def)
  from fits_serving [OF fit _ this] fits_tables(2) [OF fit] show ?thesis
    using agree swapped(6) same by (auto simp: tracked_def)
qed

lemma sigLoop_tracked:
  assumes "tracked rt" and "agree F (Listeners (ruCfg rt))" and "\<forall>d. Inr d \<in> set loads \<longrightarrow> agree F (Listeners d)"
  shows "\<exists>rt'. sigLoop env (map SIGHUP loads @ ss) rt = sigLoop env ss rt' \<and> tracked rt'"
  using assms
proof (induction loads arbitrary: rt)
  case (Cons l loads)
  obtain ok rt1 where r: "reloadConfig env l rt = (ok, rt1)" by fastforce
  have "tracked rt1 \<and> agree F (Listeners (ruCfg rt1))" by (rule reload_tracked [OF r Cons.prems(1,2)]) (use Cons.prems(3) in auto)
  with Cons.IH [of rt1] Cons.prems(3) r show ?case by auto
qed auto

section \<open>Properties\<close>


definition sample_flags :: flags where
  "sample_flags = \<lparr>fConfigPath = ''l7rp.yaml'', fCheckOnly = False, fShowVersion = False, fLogLevel = ''info'', fMetricsBind = ''127.0.0.1:9090'',
     fTracingEndpoint = [], fTracingSampleRatio = QNum 0, fTracingInsecure = True\<rparr>"


text \<open>
  Checking a configuration touches nothing and tells the truth: with \<^verbatim>\<open>-check\<close> the process always ends, with
  status 0 exactly if the file opens, decodes and passes validation, and then the counts it prints are those
  of the configuration; whatever the signals and the surroundings, the result is the same.
\<close>

theorem check_mode:
  assumes "fCheckOnly fl" and "\<not> fShowVersion fl"
  shows "(exit_status (mainErr build os_open decode pe env fl ot bs signals) = Some 0 \<longleftrightarrow>
      (\<exists>f c. os_open (fConfigPath fl) = Inr f \<and> decode f = Inr c \<and> Validate c = None)) \<and>
    (\<forall>f c. os_open (fConfigPath fl) = Inr f \<and> decode f = Inr c \<and> Validate c = None \<longrightarrow>
      snd (mainErr build os_open decode pe env fl ot bs signals) = Printed (config_ok_line c)) \<and>
    exit_status (mainErr build os_open decode pe env fl ot bs signals) \<in> {Some 0, Some 1}"
  using assms by (auto simp: mainErr_def exit_status_def loadConfig_def Load_def split: sum.splits option.splits)

theorem check_mode_witness:
  "snd (mainErr (''dev'', ''unknown'') Inr (\<lambda>_. Inr (sample_config [sample_route_config ''r'' []]) :: unit + config)
     \<lparr>peExporter = \<lambda>_ _. None, peResource = \<lambda>_. None\<rparr> sample_env (sample_flags\<lparr>fCheckOnly := True\<rparr>) \<lparr>otPropagators = [], otProvider = NoopProvider\<rparr>
     sample_state []) = Printed (''config OK: 0 listener(s), 1 pool(s), 1 route(s)'' @ [CHR 0x0A])"
proof -
  let ?c = "sample_config [sample_route_config ''r'' []]"
  have v: "Validate ?c = None" by code_simp
  have k: "config_ok_line ?c = ''config OK: 0 listener(s), 1 pool(s), 1 route(s)'' @ [CHR 0x0A]" by code_simp
  show ?thesis
    using check_mode [of "sample_flags\<lparr>fCheckOnly := True\<rparr>" "(''dev'', ''unknown'')" Inr "\<lambda>_. Inr ?c :: unit + config"
        "\<lparr>peExporter = \<lambda>_ _. None, peResource = \<lambda>_. None\<rparr>" sample_env "\<lparr>otPropagators = [], otProvider = NoopProvider\<rparr>" sample_state "[]"] v
    by (simp add: sample_flags_def k)
qed

end
