(* ===== verification/Spec2Isabelle.thy ===== *)
theory Spec2Isabelle
  imports Program
begin

text \<open>
  \<^bold>\<open>A verification development of the reverse proxy l7rp.\<close>

  \<^bold>\<open>The program.\<close> One process accepts HTTP/1.1, HTTP/2, HTTP/3 and raw TCP on a set of configured
  listeners. A request passes the smuggling gate of its listener, is matched by the active router, runs
  through the middleware chain of its route (request id, access log, panic recovery, then rate limit,
  timeout, retry, header transform and compression as configured) and ends in the upstream proxy, which
  asks the pool's selector for an upstream, reserves a slot of that upstream's circuit breaker, forwards
  the request, and reports the outcome to the breaker and to the passive half of the health monitor. The
  active half of the monitor probes the upstreams and moves their eligibility flags, which the
  selectors read. SIGHUP reloads the configuration: pools whose definition changed are rebuilt over the
  live upstreams, a new router is put in place, listeners are started and drained. SIGTERM drains all.

  \<^bold>\<open>Theories, bottom up\<close> (file names are under \<^verbatim>\<open>src/\<close>; every definition keeps the name of the function,
  method or type it translates, with a prefix where Go methods share a name).

  \<^item> \<open>GoPrelude\<close>, \<open>GoFloat\<close>, \<open>GoStrings\<close>, \<open>Sha256\<close>: what the code uses of Go and its standard library:
    \<^verbatim>\<open>int64\<close> wrap-around and the saturating \<^verbatim>\<open>time.Time.Sub\<close>; \<^verbatim>\<open>float64\<close> with its rounding (locale
    \<open>rounding\<close>, interpreted on \<open>rnd\<close>); strings, \<^verbatim>\<open>strconv\<close>, header maps and requests; the digest.
  \<^item> \<open>Breaker\<close> (\<^verbatim>\<open>internal/lb/circuit.go\<close>): the record \<open>breaker\<close>, one definition per method, runs as an
    inductive relation. Safety of the window and of the probe slots, the exact trip condition, shielding,
    back-off, admission by the locale \<open>admission\<close>.
  \<^item> \<open>Upstream\<close> (\<^verbatim>\<open>internal/lb/upstream.go\<close>, \<^verbatim>\<open>selector.go\<close>): upstreams in a store, eligibility filter, the
    locale \<open>selector\<close>: a pick returns a candidate that was eligible, not excluded and whose breaker was
    not open, and fails exactly when there is none. \<open>RoundRobin\<close>, \<open>Weighted\<close>, \<open>LeastConnections\<close>, \<open>P2C\<close>,
    \<open>ConsistentHash\<close> (\<^verbatim>\<open>internal/lb/*.go\<close>) interpret it and add what is specific to each: fairness, exact
    proportions, uniform ties, two distinct choices, the load bound and minimal disruption. \<open>Selectors\<close> is
    the dynamic dispatch over the five, again an interpretation.
  \<^item> \<open>Router\<close> (\<^verbatim>\<open>internal/router/router.go\<close>): construction and matching, refining a specification by
    precedence. \<open>Config\<close> (\<^verbatim>\<open>internal/config/config.go\<close>): records, validation, manager.
  \<^item> \<open>Health\<close> (\<^verbatim>\<open>internal/health/monitor.go\<close>): probes, hysteresis, passive scores, the probe schedule.
  \<^item> \<open>Middleware\<close> (\<^verbatim>\<open>internal/middleware/middleware.go\<close>, \<^verbatim>\<open>timeout.go\<close>): handlers as functions to the calls
    they make on their response writer, the shared state \<open>world\<close>, locales \<open>watcher\<close> and \<open>recorder\<close> for
    response-writer wrappers. \<open>RateLimit\<close>, \<open>Observe\<close> (request ids, access log, panic recovery, request
    metrics), \<open>Headers\<close>, \<open>Compress\<close>, \<open>Retry\<close>: one theory per middleware file. \<open>Encoders\<close>: the encoder pools behind
    \<open>Compress\<close>, shared by any number of responses (\<open>enc_step\<close>), indistinguishable from an encoder per response.
    \<open>Hedge\<close>: the goroutines, channels, timer and contexts of a hedged request (\<open>hedge_step\<close>), equivalent to the
    schedules of \<open>Retry.serveHedged\<close>.
  \<^item> \<open>Proxy\<close> (\<^verbatim>\<open>internal/upstream/proxy.go\<close>, \<^verbatim>\<open>websocket.go\<close>): the terminal handler, sequentially and, by
    \<open>px_step\<close>, with any number of requests interleaved at its atomic actions. \<open>Tunnel\<close>: the two copy loops of
    an established TCP or WebSocket session with half-close, resets and short writes, \<open>tunnel_step\<close>; what is
    delivered is a prefix of what was sent, and all of it when both peers finish (locale \<open>progress\<close> of
    \<open>StepProgress\<close>, interpreted for \<open>Hedge\<close> too). \<open>L4\<close>
    (\<^verbatim>\<open>internal/l4\<close>): the TCP dispatcher around that tunnel, and its listener as a step relation. \<open>Listener\<close>
    (\<^verbatim>\<open>internal/listener\<close>): smuggling gate, certificates, construction. \<open>Drain\<close> (the same packages): socket
    options, the life of an HTTP listener as a step relation, and the locale \<open>drainable\<close>, the contract that
    the process relies on when it waits for its listeners, interpreted on both kinds.
  \<^item> \<open>Build\<close> and \<open>Runtime\<close> (\<^verbatim>\<open>cmd/l7rp/main.go\<close>): from configuration to pools, chains and routes; start-up,
    request entry, reload, listener replacement, drain. The properties that span components are here
    and in \<open>Proxy\<close>: a validated configuration wires; breakers, counters and latencies survive a reload;
    a failing reload does not touch traffic; attempts of one request go to different upstreams.
  \<^item> \<open>Isolation\<close> and \<open>Generations\<close>: composition. \<open>Isolation\<close> has frame conditions for whole handlers (locale
    \<open>handler_frame\<close>, interpreted for confinement to a pool and for balanced in-flight counters) and carries them
    through every middleware to the handler of a route. \<open>Generations\<close> has the relation \<open>live_step\<close> (a request, a
    TCP connection, the end of a probe, also one of a cancelled monitor, the passing of time, a reload), the invariant \<open>wired\<close> of every state the
    running program can reach, and on it the end-to-end property of a request and the preservation of live
    state by reloads.
  \<^item> \<open>Telemetry\<close> (\<^verbatim>\<open>internal/observability\<close>): the metric set, every call on it, the metrics endpoints, the
    set-up of tracing and the way of a trace to the upstream. \<open>Backend\<close>: the stub server of the load tests. \<open>Program\<close> (\<^verbatim>\<open>cmd/l7rp/main.go\<close>): flags, modes, the signal loop, exit status; the process
    ends with status 0 after any number of reloads that keep the meaning of listener names.

  \<^bold>\<open>State and effects.\<close> An \<^verbatim>\<open>*Upstream\<close> is an address into the store \<open>heap\<close>, so sharing of upstreams between
  an old and a new pool is visible. \<open>world\<close> holds the store, the limiters, selectors, monitors, logs and
  counters that handlers share. Clock readings, random draws and the results of the network are
  arguments; where the code reads a value twice, the model has two arguments. Errors are values of sum or
  option types, panics are an ending of a run.

  \<^bold>\<open>Concurrency.\<close> Methods under one mutex are single steps. Where the code interleaves at a finer grain and it
  matters, the parts are separate: \<open>px_step\<close>, \<open>l4_step\<close>, the unlocked passes of the selectors, the two
  halves of \<^verbatim>\<open>recordResult\<close>, \<open>tunnel_step\<close>, \<open>http_step\<close>, \<open>hedge_step\<close>, \<open>enc_step\<close>. Elsewhere one request is one step.

  \<^bold>\<open>Code outside the repository\<close> is an argument with its documented behaviour as a named hypothesis:
  \<open>sorts_ring\<close> and \<open>arranges\<close> (\<^verbatim>\<open>sort.Slice\<close>, map iteration), \<open>decodes\<close> (encoders), the YAML decoder, the URL
  parser, \<^verbatim>\<open>math.Exp\<close>, \<^verbatim>\<open>ParseFloat\<close>, transports, dials, sockets and key files (\<open>build_env\<close>, \<open>pxTransport\<close>,
  \<open>pxSockets\<close>, \<open>tcp_io\<close>), the errors of the OpenTelemetry exporter and resource (\<open>process_env\<close>).

  \<^bold>\<open>Bounds and termination.\<close> No definition uses fuel; the loops that are not structural (binary search,
  the sequential attempts) have termination proofs. Integers wrap where the code could overflow
  (round-robin counter, weights, scores, latencies, durations); counters that would need centuries to
  overflow are unbounded. Floats do not overflow to infinity in the quantities the proxy computes. Case
  folding and trimming are those of ASCII.

  \<^bold>\<open>What the code does that it does not mean to do\<close> is stated by theorems of its own, next to the component:
  lost half-open slots (\<open>half_open_slot_leak\<close>, \<open>websocket_leaks_probe_slot\<close>), races
  (\<open>least_connections_race_panics\<close>, \<open>ejection_undone_by_race\<close>, \<open>tcp_drain_race\<close>), lost request bodies
  (\<open>replay_buffer_loses_body\<close>), hidden panics (\<open>compression_hides_panic\<close>), listeners that cannot be stopped
  (\<open>replaced_listener_blocks_shutdown\<close>), sockets that a failed reload leaves open
  (\<open>failed_reload_leaks_socket\<close>), sessions that a drain cuts (\<open>http_drain_leaves_sessions\<close>), probes that outlive
  their monitor (\<open>late_probe_strands_pool\<close>), retries that hedging switches off (\<open>hedging_disables_retry\<close>), and others.

  \<^bold>\<open>Not modelled\<close>: the names and attributes of spans (\<^verbatim>\<open>tracing.go\<close>), on which no decision of the program depends;
  the inside of the Prometheus client, the OpenTelemetry SDK, the QUIC server and the ACME client, which are
  other packages behind a few calls; the text of log messages and of a recovered stack trace; the reuse of
  candidate slices by \<^verbatim>\<open>sync.Pool\<close>; the flag parser and the delivery of signals (the signals that arrive are an
  argument). An attempt of a retried or hedged request is one atomic step there; \<open>px_step\<close> has its parts.
\<close>

end
